(* ===== verification/Coasio_Prelude.thy ===== *)
theory Coasio_Prelude
  imports Main
begin

text \<open>
  Shared vocabulary of the development: the names given to the pointers that the
  library passes around (coroutine handles, runtimes, shared states), the two integer
  casts the semaphore performs, the result of a C++ call that may run into an
  assertion or into undefined behaviour, and the automation collections the component
  theories add to.

  A raw pointer or \<^verbatim>\<open>std::coroutine_handle<>\<close> is an address, modelled as a
  \<^typ>\<open>nat\<close>; a pointer that may be null is an \<^typ>\<open>nat option\<close> with
  \<^term>\<open>None\<close> for \<^verbatim>\<open>nullptr\<close>.
  \<^verbatim>\<open>std::expected<T, E>\<close> is \<open>'e + 't\<close> with \<^term>\<open>Inl\<close> for
  \<^verbatim>\<open>std::unexpected\<close>.
\<close>

type_synonym handle = nat
type_synonym runtime_ptr = "nat option"
type_synonym scope_ptr = "nat option"

text \<open>
  A call of \<^verbatim>\<open>detail::runtime_schedule(rt, h)\<close>, recorded as a value: the
  operations of the primitives return the calls they make, in order, and the runtime
  model plays them.
\<close>

type_synonym wake = "runtime_ptr \<times> handle"

named_theorems inv_defs \<open>definitions of the components' invariants\<close>
named_theorems step_simps \<open>what one operation does to the fields of a state\<close>
named_theorems preserves \<open>an operation keeps an invariant\<close>

section \<open>Integers of the source\<close>

text \<open>
  \<^verbatim>\<open>ptrdiff_t\<close> is a signed and \<^verbatim>\<open>size_t\<close> an unsigned 64-bit integer on the
  platforms the README names. \<^verbatim>\<open>std::atomic<ptrdiff_t>::fetch_add\<close> wraps in two's
  complement (the standard says so for atomics), and so do the casts of C++20.
\<close>

definition to_ptrdiff :: "int \<Rightarrow> int" where
  "to_ptrdiff x = signed_take_bit 63 x"

definition to_size :: "int \<Rightarrow> nat" where
  "to_size x = nat (take_bit 64 x)"

definition ptrdiff_max :: int where
  "ptrdiff_max = 2 ^ 63 - 1"

definition fits_ptrdiff :: "int \<Rightarrow> bool" where
  "fits_ptrdiff x \<longleftrightarrow> - (2 ^ 63) \<le> x \<and> x < 2 ^ 63"

lemma to_ptrdiff_id [simp]: "fits_ptrdiff x \<Longrightarrow> to_ptrdiff x = x"
  unfolding to_ptrdiff_def fits_ptrdiff_def
  by (rule signed_take_bit_int_eq_self) auto

lemma fits_to_ptrdiff [simp]: "fits_ptrdiff (to_ptrdiff x)"
  unfolding to_ptrdiff_def fits_ptrdiff_def
  by (simp add: signed_take_bit_int_less_exp signed_take_bit_int_greater_eq_minus_exp
      del: power_numeral)

lemma fits_ptrdiff_between:
  "fits_ptrdiff a \<Longrightarrow> fits_ptrdiff c \<Longrightarrow> a \<le> b \<Longrightarrow> b \<le> c \<Longrightarrow> fits_ptrdiff b"
  by (auto simp: fits_ptrdiff_def)

lemma to_ptrdiff_cong_mod: "to_ptrdiff x mod 2 ^ 64 = x mod 2 ^ 64"
proof -
  have "take_bit 64 (signed_take_bit 63 x) = take_bit 64 x"
    by (simp add: take_bit_signed_take_bit)
  then show ?thesis
    by (simp add: to_ptrdiff_def take_bit_eq_mod)
qed

lemma to_size_nonneg: "0 \<le> x \<Longrightarrow> x \<le> ptrdiff_max \<Longrightarrow> to_size x = nat x"
  by (simp add: to_size_def ptrdiff_max_def take_bit_int_eq_self)

section \<open>Lists, counts and pointers\<close>

text \<open>The pointer to the last element of a list, null for the empty list.\<close>

definition last_ptr :: "'a list \<Rightarrow> 'a option" where
  "last_ptr xs = (if xs = [] then None else Some (last xs))"

definition head_ptr :: "'a list \<Rightarrow> 'a option" where
  "head_ptr xs = (case xs of [] \<Rightarrow> None | x # _ \<Rightarrow> Some x)"

lemma last_ptr_simps [simp]:
  "last_ptr [] = None" "last_ptr (xs @ [x]) = Some x"
  "xs \<noteq> [] \<Longrightarrow> last_ptr (x # xs) = last_ptr xs" "last_ptr [x] = Some x"
  by (simp_all add: last_ptr_def)

lemma head_ptr_simps [simp]: "head_ptr [] = None" "head_ptr (x # xs) = Some x"
  by (simp_all add: head_ptr_def)

lemma last_ptr_None_iff [simp]: "last_ptr xs = None \<longleftrightarrow> xs = []"
  by (simp add: last_ptr_def)

lemma head_ptr_None_iff [simp]: "head_ptr xs = None \<longleftrightarrow> xs = []"
  by (simp add: head_ptr_def split: list.splits)

lemma count_list_append [simp]: "count_list (xs @ ys) a = count_list xs a + count_list ys a"
  by (induction xs) auto

lemma count_list_notin: "a \<notin> set xs \<Longrightarrow> count_list xs a = 0"
  by (induction xs) auto

lemma remove1_distinct_set: "distinct xs \<Longrightarrow> set (remove1 x xs) = set xs - {x}"
  by (rule set_remove1_eq)

lemma split_list_remove1:
  assumes "x \<in> set xs" and "distinct xs"
  obtains as bs where "xs = as @ x # bs" "remove1 x xs = as @ bs" "x \<notin> set as" "x \<notin> set bs"
proof -
  from assms(1) obtain as bs where xs: "xs = as @ x # bs" and "x \<notin> set as"
    by (meson split_list_first)
  with assms(2) have "x \<notin> set bs" and "remove1 x xs = as @ bs"
    by (auto simp: remove1_append)
  with xs \<open>x \<notin> set as\<close> show thesis
    using that by blast
qed

lemma distinct_set_singleton: "distinct xs \<Longrightarrow> set xs = {x} \<Longrightarrow> xs = [x]"
  by (cases xs) (auto simp: subset_singleton_iff)

end
