(* ===== verification/Intrusive_List.thy ===== *)
theory Intrusive_List
  imports Coasio_Prelude
begin

text \<open>
  Doubly linked lists threaded through the objects they hold. The library has three:
  the armed guards of a cancel scope (\<^verbatim>\<open>cancel_scope::head_\<close>), the waiters of a
  semaphore (\<^verbatim>\<open>state::head_\<close>, \<^verbatim>\<open>state::tail_\<close>) and the live root tasks of
  a runtime (\<^verbatim>\<open>runtime::roots_head_\<close>). This theory holds the predicate that ties
  such a pointer structure to the list it stands for, what the three link and unlink
  routines do to it, and the interface \<open>intrusive_list\<close> that each component interprets
  on its own routines.
\<close>

section \<open>Segments and whole lists\<close>

text \<open>
  \<open>seg n p pr h xs l e\<close>: following \<open>n\<close> from \<open>h\<close> one meets exactly \<open>xs\<close> and then
  the pointer \<open>e\<close>; following \<open>p\<close> from \<open>l\<close> one meets them backwards and then
  \<open>pr\<close>.
\<close>

primrec seg ::
  "('a \<Rightarrow> 'a option) \<Rightarrow> ('a \<Rightarrow> 'a option) \<Rightarrow> 'a option \<Rightarrow> 'a option \<Rightarrow> 'a list \<Rightarrow>
   'a option \<Rightarrow> 'a option \<Rightarrow> bool" where
  "seg n p pr h [] l e \<longleftrightarrow> l = pr \<and> h = e"
| "seg n p pr h (x # xs) l e \<longleftrightarrow> h = Some x \<and> p x = pr \<and> seg n p (Some x) (n x) xs l e"

definition dll ::
  "('a \<Rightarrow> 'a option) \<Rightarrow> ('a \<Rightarrow> 'a option) \<Rightarrow> 'a option \<Rightarrow> 'a option \<Rightarrow> 'a list \<Rightarrow> bool" where
  "dll n p h t xs \<longleftrightarrow> seg n p None h xs t None \<and> distinct xs"

lemma seg_append:
  "seg n p pr h (xs @ ys) l e \<longleftrightarrow> (\<exists>m b. seg n p pr h xs m b \<and> seg n p m b ys l e)"
  by (induction xs arbitrary: pr h) auto

lemma seg_snoc:
  "seg n p pr h (xs @ [a]) l e \<longleftrightarrow> seg n p pr h xs (p a) (Some a) \<and> l = Some a \<and> n a = e"
  by (auto simp: seg_append)

lemma seg_upd_next [simp]:
  "x \<notin> set xs \<Longrightarrow> seg (n(x := v)) p pr h xs l e = seg n p pr h xs l e"
  by (induction xs arbitrary: pr h) auto

lemma seg_upd_prev [simp]:
  "x \<notin> set xs \<Longrightarrow> seg n (p(x := v)) pr h xs l e = seg n p pr h xs l e"
  by (induction xs arbitrary: pr h) auto

lemma seg_cong:
  "(\<And>x. x \<in> set xs \<Longrightarrow> n x = n' x) \<Longrightarrow> (\<And>x. x \<in> set xs \<Longrightarrow> p x = p' x) \<Longrightarrow>
   seg n p pr h xs l e = seg n' p' pr h xs l e"
  by (induction xs arbitrary: pr h) auto

lemma seg_last: "seg n p pr h xs l e \<Longrightarrow> l = (if xs = [] then pr else Some (last xs))"
  by (induction xs arbitrary: pr h) (auto split: if_splits)

lemma seg_unique:
  "seg n p pr h xs l None \<Longrightarrow> seg n p pr' h ys l' None \<Longrightarrow> xs = ys"
proof (induction xs arbitrary: pr pr' h ys)
  case Nil
  then show ?case by (cases ys) auto
next
  case (Cons x xs)
  then show ?case by (cases ys) auto
qed

section \<open>The whole list\<close>

lemma dll_Nil [simp]: "dll n p h t [] \<longleftrightarrow> h = None \<and> t = None"
  by (auto simp: dll_def)

lemma dll_distinct: "dll n p h t xs \<Longrightarrow> distinct xs"
  by (simp add: dll_def)

lemma dll_unique: "dll n p h t xs \<Longrightarrow> dll n p h t' ys \<Longrightarrow> xs = ys"
  unfolding dll_def by (blast intro: seg_unique)

lemma dll_head: "dll n p h t xs \<Longrightarrow> h = head_ptr xs"
  by (cases xs) (auto simp: dll_def)

lemma dll_tail: "dll n p h t xs \<Longrightarrow> t = last_ptr xs"
  by (auto simp: dll_def last_ptr_def dest: seg_last)

lemma dll_cong:
  "(\<And>x. x \<in> set xs \<Longrightarrow> n x = n' x) \<Longrightarrow> (\<And>x. x \<in> set xs \<Longrightarrow> p x = p' x) \<Longrightarrow>
   dll n p h t xs = dll n' p' h t xs"
  unfolding dll_def by (simp cong: seg_cong)

lemma dll_upd_next [simp]: "x \<notin> set xs \<Longrightarrow> dll (n(x := v)) p h t xs = dll n p h t xs"
  by (simp add: dll_def)

lemma dll_upd_prev [simp]: "x \<notin> set xs \<Longrightarrow> dll n (p(x := v)) h t xs = dll n p h t xs"
  by (simp add: dll_def)

lemma dll_first: "dll n p (Some x) t xs \<Longrightarrow> \<exists>ys. xs = x # ys \<and> p x = None"
  by (cases xs) (auto simp: dll_def)

lemma dll_no_self:
  assumes "dll n p h t xs" and "x \<in> set xs"
  shows "p x \<noteq> Some x" and "n x \<noteq> Some x"
proof -
  from assms obtain as bs where xs: "xs = as @ x # bs"
    by (meson split_list)
  with assms have "x \<notin> set as" "x \<notin> set bs"
    by (auto simp: dll_def)
  from assms xs obtain m where m: "seg n p None h as m (Some x)" "p x = m"
    and b: "seg n p (Some x) (n x) bs t None"
    by (auto simp: dll_def seg_append)
  from m(1) have "m = last_ptr as"
    by (auto simp: last_ptr_def dest: seg_last)
  with m(2) \<open>x \<notin> set as\<close> show "p x \<noteq> Some x"
    by (auto simp: last_ptr_def split: if_splits)
  from b \<open>x \<notin> set bs\<close> show "n x \<noteq> Some x"
    by (cases bs) auto
qed

lemma dll_neighbours:
  assumes "dll n p h t xs" and "x \<in> set xs"
  shows "p x = Some a \<Longrightarrow> a \<in> set xs" and "n x = Some b \<Longrightarrow> b \<in> set xs"
proof -
  from assms(2) obtain as bs where xs: "xs = as @ x # bs"
    by (meson split_list)
  with assms(1) obtain m where m: "seg n p None h as m (Some x)" "p x = m"
    and b: "seg n p (Some x) (n x) bs t None"
    by (auto simp: dll_def seg_append)
  show "a \<in> set xs" if "p x = Some a"
    using seg_last [OF m(1)] m(2) that xs by (auto split: if_splits)
  show "b \<in> set xs" if "n x = Some b"
    using b that xs by (cases bs) auto
qed

section \<open>Linking and unlinking\<close>

text \<open>
  The pointer assignments of the three routines, on the two pointer functions alone.
  \<open>unlink_*\<close> is the body all three unlink routines share:
  \<^verbatim>\<open>if (w->prev) w->prev->next = w->next; else head_ = w->next;
      if (w->next) w->next->prev = w->prev; else tail_ = w->prev;\<close>
\<close>

definition unlink_next :: "('a \<Rightarrow> 'a option) \<Rightarrow> ('a \<Rightarrow> 'a option) \<Rightarrow> 'a \<Rightarrow> 'a \<Rightarrow> 'a option" where
  "unlink_next n p x = (case p x of None \<Rightarrow> n | Some a \<Rightarrow> n(a := n x))"

definition unlink_prev :: "('a \<Rightarrow> 'a option) \<Rightarrow> ('a \<Rightarrow> 'a option) \<Rightarrow> 'a \<Rightarrow> 'a \<Rightarrow> 'a option" where
  "unlink_prev n p x = (case n x of None \<Rightarrow> p | Some b \<Rightarrow> p(b := p x))"

definition unlink_head ::
  "('a \<Rightarrow> 'a option) \<Rightarrow> ('a \<Rightarrow> 'a option) \<Rightarrow> 'a \<Rightarrow> 'a option \<Rightarrow> 'a option" where
  "unlink_head n p x h = (case p x of None \<Rightarrow> n x | Some _ \<Rightarrow> h)"

definition unlink_tail ::
  "('a \<Rightarrow> 'a option) \<Rightarrow> ('a \<Rightarrow> 'a option) \<Rightarrow> 'a \<Rightarrow> 'a option \<Rightarrow> 'a option" where
  "unlink_tail n p x t = (case n x of None \<Rightarrow> p x | Some _ \<Rightarrow> t)"

lemmas unlink_defs = unlink_next_def unlink_prev_def unlink_head_def unlink_tail_def

definition front_prev :: "('a \<Rightarrow> 'a option) \<Rightarrow> 'a option \<Rightarrow> 'a \<Rightarrow> 'a \<Rightarrow> 'a option" where
  "front_prev p h x = (case h of None \<Rightarrow> p(x := None) | Some y \<Rightarrow> p(x := None, y := Some x))"

definition back_next :: "('a \<Rightarrow> 'a option) \<Rightarrow> 'a option \<Rightarrow> 'a \<Rightarrow> 'a \<Rightarrow> 'a option" where
  "back_next n t x = (case t of None \<Rightarrow> n(x := None) | Some y \<Rightarrow> n(x := None, y := Some x))"

lemma dll_push_front:
  assumes "dll n p h t xs" and "x \<notin> set xs"
  shows "dll (n(x := h)) (front_prev p h x) (Some x) (last_ptr (x # xs)) (x # xs)"
proof (cases xs)
  case Nil
  with assms show ?thesis by (auto simp: dll_def front_prev_def)
next
  case (Cons y ys)
  with assms show ?thesis
    by (auto simp: dll_def front_prev_def last_ptr_def)
      (frule seg_last, simp)
qed

lemma dll_push_back:
  assumes "dll n p h t xs" and "x \<notin> set xs"
  shows "dll (back_next n t x) (p(x := t)) (case t of None \<Rightarrow> Some x | Some _ \<Rightarrow> h) (Some x) (xs @ [x])"
proof (cases xs rule: rev_cases)
  case Nil
  with assms show ?thesis by (auto simp: dll_def back_next_def)
next
  case (snoc ys y)
  with assms show ?thesis
    by (auto simp: dll_def back_next_def seg_snoc seg_append [of _ _ _ _ ys "[y, x]"])
qed

lemma seg_relink_before:
  assumes "seg n p pr h as m (Some x)" and "distinct as" and "x \<notin> set as"
    and "as = [] \<Longrightarrow> m = None"
  shows "seg (case m of None \<Rightarrow> n | Some a \<Rightarrow> n(a := v)) p pr
           (case m of None \<Rightarrow> v | Some _ \<Rightarrow> h) as m v"
proof (cases as rule: rev_cases)
  case Nil
  with assms show ?thesis by auto
next
  case (snoc ys y)
  with assms show ?thesis by (auto simp: seg_snoc)
qed

lemma seg_relink_after:
  assumes "seg n p (Some x) b bs t None" and "distinct bs"
  shows "seg n (case b of None \<Rightarrow> p | Some y \<Rightarrow> p(y := m)) m b bs
           (case b of None \<Rightarrow> m | Some _ \<Rightarrow> t) None"
  using assms by (cases bs) auto

lemma dll_unlink:
  assumes "dll n p h t xs" and "x \<in> set xs"
  shows "dll (unlink_next n p x) (unlink_prev n p x) (unlink_head n p x h) (unlink_tail n p x t)
           (remove1 x xs)"
proof -
  have dist: "distinct xs"
    using assms(1) by (rule dll_distinct)
  obtain as bs where xs: "xs = as @ x # bs" and rm: "remove1 x xs = as @ bs"
    and x: "x \<notin> set as" "x \<notin> set bs"
    using split_list_remove1 [OF assms(2) dist] .
  have d: "distinct as" "distinct bs" "set as \<inter> set bs = {}"
    using dist xs by auto
  obtain h1: "seg n p None h as (p x) (Some x)" and h2: "seg n p (Some x) (n x) bs t None"
    using assms(1) xs by (auto simp: dll_def seg_append)
  have m: "p x = last_ptr as"
    using seg_last [OF h1] by (simp add: last_ptr_def)
  have nx: "n x = head_ptr bs"
    using h2 by (cases bs) auto
  let ?n = "unlink_next n p x" and ?p = "unlink_prev n p x"
  have "seg ?n p None (unlink_head n p x h) as (p x) (n x)"
    using seg_relink_before [OF h1 d(1) x(1), of "n x"] m
    by (simp add: unlink_next_def unlink_head_def)
  moreover have "\<And>y. y \<in> set as \<Longrightarrow> p y = ?p y"
    using nx d(3) by (cases bs) (auto simp: unlink_prev_def)
  ultimately have 1: "seg ?n ?p None (unlink_head n p x h) as (p x) (n x)"
    by (simp cong: seg_cong)
  have "seg n ?p (p x) (n x) bs (unlink_tail n p x t) None"
    using seg_relink_after [OF h2 d(2)]
    by (simp add: unlink_prev_def unlink_tail_def)
  moreover have "\<And>y. y \<in> set bs \<Longrightarrow> n y = ?n y"
    using m d(3) by (cases as rule: rev_cases) (auto simp: unlink_next_def)
  ultimately have 2: "seg ?n ?p (p x) (n x) bs (unlink_tail n p x t) None"
    by (simp cong: seg_cong)
  from 1 2 d show ?thesis
    by (auto simp: rm dll_def seg_append)
qed

section \<open>The interface\<close>

text \<open>
  What the owner of an intrusive list relies on: some chain of pointers stands for one
  list only, a node that is not in it can be linked, a node that is in it can be unlinked,
  wherever it stands. \<open>ins\<close> says at which end the owner links.
\<close>

locale intrusive_list =
  fixes chain :: "'s \<Rightarrow> 'a list \<Rightarrow> bool"
    and link :: "'a \<Rightarrow> 's \<Rightarrow> 's"
    and unlink :: "'a \<Rightarrow> 's \<Rightarrow> 's"
    and ins :: "'a \<Rightarrow> 'a list \<Rightarrow> 'a list"
  assumes chain_unique: "chain s xs \<Longrightarrow> chain s ys \<Longrightarrow> xs = ys"
    and chain_distinct: "chain s xs \<Longrightarrow> distinct xs"
    and chain_link: "chain s xs \<Longrightarrow> x \<notin> set xs \<Longrightarrow> chain (link x s) (ins x xs)"
    and chain_unlink: "chain s xs \<Longrightarrow> x \<in> set xs \<Longrightarrow> chain (unlink x s) (remove1 x xs)"
    and ins_set: "set (ins x xs) = insert x (set xs)"
    and ins_remove1: "x \<notin> set xs \<Longrightarrow> remove1 x (ins x xs) = xs"
    and ins_length: "length (ins x xs) = Suc (length xs)"
begin

lemma link_unlink:
  assumes "chain s xs" and "x \<notin> set xs"
  shows "chain (unlink x (link x s)) xs"
proof -
  have "chain (link x s) (ins x xs)"
    using assms by (rule chain_link)
  then have "chain (unlink x (link x s)) (remove1 x (ins x xs))"
    by (rule chain_unlink) (simp add: ins_set)
  with assms(2) show ?thesis by (simp add: ins_remove1)
qed

lemma unlink_length:
  "chain s xs \<Longrightarrow> x \<in> set xs \<Longrightarrow> chain (unlink x s) ys \<Longrightarrow> Suc (length ys) = length xs"
  using chain_unique [OF chain_unlink] by (fastforce simp: length_remove1 dest: length_pos_if_in_set)

text \<open>Unlinking nodes one after another, in any order, leaves the others in their order.\<close>

lemma unlink_many:
  "chain s xs \<Longrightarrow> distinct vs \<Longrightarrow> set vs \<subseteq> set xs \<Longrightarrow>
   chain (fold unlink vs s) (filter (\<lambda>x. x \<notin> set vs) xs)"
proof (induction vs arbitrary: s xs)
  case Nil
  then show ?case by simp
next
  case (Cons v vs)
  have d: "distinct xs"
    using Cons.prems(1) by (rule chain_distinct)
  have "chain (unlink v s) (remove1 v xs)"
    using Cons.prems by (auto intro: chain_unlink)
  moreover have "set vs \<subseteq> set (remove1 v xs)"
    using Cons.prems d by auto
  ultimately have "chain (fold unlink vs (unlink v s)) (filter (\<lambda>x. x \<notin> set vs) (remove1 v xs))"
    using Cons.prems(2) by (intro Cons.IH) auto
  moreover have "filter (\<lambda>x. x \<notin> set vs) (remove1 v xs) = filter (\<lambda>x. x \<notin> set (v # vs)) xs"
    using d by (simp add: distinct_remove1_removeAll removeAll_filter_not_eq)
      (metis (mono_tags, lifting))
  ultimately show ?case by simp
qed

corollary unlink_all: "chain s xs \<Longrightarrow> distinct vs \<Longrightarrow> set vs = set xs \<Longrightarrow> chain (fold unlink vs s) []"
  using unlink_many [of s xs vs] by (simp add: filter_empty_conv)

end

end
