(* ===== verification/Cancel_Scope.thy ===== *)
theory Cancel_Scope
  imports Intrusive_List
begin

text \<open>
  \<^verbatim>\<open>include/coasio/cancel_scope.hpp\<close>: the cancel scope of a task tree and the guards
  its leaf awaitables arm. A scope holds a flag and an intrusive list of the armed guards;
  a guard holds a pointer to its scope, a callback and a state
  \<^verbatim>\<open>idle\<close>, \<^verbatim>\<open>armed\<close>, \<^verbatim>\<open>fired\<close> or \<^verbatim>\<open>disarmed\<close>.

  Objects live in a store: \<open>guards\<close> and \<open>scopes\<close> map addresses to the objects, so that
  two guards of one scope share it. The type \<^typ>\<open>'cb\<close> stands for
  \<^verbatim>\<open>std::move_only_function<void()>\<close>; what a callback does to the rest of the program
  is the argument \<open>run\<close> of \<open>cancel\<close>. Callbacks must not call back into the scope (the
  comment on \<^verbatim>\<open>arm\<close>), so they act on a state of their own. Every operation that locks
  \<^verbatim>\<open>mtx_\<close> is one atomic step. A failed \<^verbatim>\<open>assert\<close>, a call of an empty function and
  a loop that does not end are the result \<^term>\<open>None\<close>.
\<close>

section \<open>State\<close>

datatype guard_state = Idle | Armed | Fired | Disarmed

datatype arm_result = Arm_armed | Arm_already_cancelled

record 'cb cancel_guard =
  g_scope :: scope_ptr
  g_cb :: "'cb option"
  g_prev :: "nat option"
  g_next :: "nat option"
  g_state :: guard_state

record cancel_scope =
  s_cancelled :: bool
  s_head :: "nat option"

record 'cb cancel_world =
  guards :: "nat \<Rightarrow> 'cb cancel_guard"
  scopes :: "nat \<Rightarrow> cancel_scope"

definition new_guard :: "scope_ptr \<Rightarrow> 'cb cancel_guard" where
  "new_guard s = \<lparr>g_scope = s, g_cb = None, g_prev = None, g_next = None, g_state = Idle\<rparr>"

definition new_scope :: cancel_scope where
  "new_scope = \<lparr>s_cancelled = False, s_head = None\<rparr>"

definition upd_guard ::
  "nat \<Rightarrow> ('cb cancel_guard \<Rightarrow> 'cb cancel_guard) \<Rightarrow> 'cb cancel_world \<Rightarrow> 'cb cancel_world" where
  "upd_guard g f w = w\<lparr>guards := (guards w)(g := f (guards w g))\<rparr>"

definition upd_scope ::
  "nat \<Rightarrow> (cancel_scope \<Rightarrow> cancel_scope) \<Rightarrow> 'cb cancel_world \<Rightarrow> 'cb cancel_world" where
  "upd_scope s f w = w\<lparr>scopes := (scopes w)(s := f (scopes w s))\<rparr>"

lemma upd_simps [simp]:
  "guards (upd_guard g f w) = (guards w)(g := f (guards w g))"
  "scopes (upd_guard g f w) = scopes w"
  "guards (upd_scope s k w) = guards w"
  "scopes (upd_scope s k w) = (scopes w)(s := k (scopes w s))"
  by (simp_all add: upd_guard_def upd_scope_def)

section \<open>Operations\<close>

definition link_locked :: "nat \<Rightarrow> nat \<Rightarrow> 'cb cancel_world \<Rightarrow> 'cb cancel_world" where
  "link_locked s g w =
     (let h = s_head (scopes w s);
          w1 = upd_guard g (\<lambda>r. r\<lparr>g_prev := None, g_next := h\<rparr>) w;
          w2 = (case h of None \<Rightarrow> w1 | Some y \<Rightarrow> upd_guard y (\<lambda>r. r\<lparr>g_prev := Some g\<rparr>) w1)
      in upd_scope s (\<lambda>r. r\<lparr>s_head := Some g\<rparr>) w2)"

definition unlink_locked :: "nat \<Rightarrow> nat \<Rightarrow> 'cb cancel_world \<Rightarrow> 'cb cancel_world" where
  "unlink_locked s g w =
     (let w1 = (case g_prev (guards w g) of
                  Some a \<Rightarrow> upd_guard a (\<lambda>r. r\<lparr>g_next := g_next (guards w g)\<rparr>) w
                | None \<Rightarrow> upd_scope s (\<lambda>r. r\<lparr>s_head := g_next (guards w g)\<rparr>) w);
          w2 = (case g_next (guards w1 g) of
                  Some b \<Rightarrow> upd_guard b (\<lambda>r. r\<lparr>g_prev := g_prev (guards w1 g)\<rparr>) w1
                | None \<Rightarrow> w1)
      in upd_guard g (\<lambda>r. r\<lparr>g_prev := None, g_next := None\<rparr>) w2)"

definition bind :: "nat \<Rightarrow> scope_ptr \<Rightarrow> 'cb cancel_world \<Rightarrow> 'cb cancel_world option" where
  "bind g s w =
     (if g_state (guards w g) = Armed then None
      else Some (upd_guard g (\<lambda>r. r\<lparr>g_scope := s\<rparr>) w))"

definition arm :: "nat \<Rightarrow> 'cb \<Rightarrow> 'cb cancel_world \<Rightarrow> (arm_result \<times> 'cb cancel_world) option" where
  "arm g f w =
     (if g_state (guards w g) \<noteq> Idle then None
      else case g_scope (guards w g) of
        None \<Rightarrow> Some (Arm_armed, upd_guard g (\<lambda>r. r\<lparr>g_state := Armed\<rparr>) w)
      | Some s \<Rightarrow>
          if s_cancelled (scopes w s) then Some (Arm_already_cancelled, w)
          else
            let w1 = upd_guard g (\<lambda>r. r\<lparr>g_cb := Some f\<rparr>) w;
                w2 = link_locked s g w1
            in Some (Arm_armed, upd_guard g (\<lambda>r. r\<lparr>g_state := Armed\<rparr>) w2))"

definition disarm :: "nat \<Rightarrow> 'cb cancel_world \<Rightarrow> bool \<times> 'cb cancel_world" where
  "disarm g w =
     (case g_scope (guards w g) of
        None \<Rightarrow> (g_state (guards w g) = Armed, upd_guard g (\<lambda>r. r\<lparr>g_state := Disarmed\<rparr>) w)
      | Some s \<Rightarrow>
          if g_state (guards w g) \<noteq> Armed then (False, w)
          else
            let w1 = unlink_locked s g w;
                w2 = upd_guard g (\<lambda>r. r\<lparr>g_cb := None\<rparr>) w1
            in (True, upd_guard g (\<lambda>r. r\<lparr>g_state := Disarmed\<rparr>) w2))"

definition fired :: "nat \<Rightarrow> 'cb cancel_world \<Rightarrow> bool" where
  "fired g w \<longleftrightarrow> g_state (guards w g) = Fired"

definition cancelled :: "nat \<Rightarrow> 'cb cancel_world \<Rightarrow> bool" where
  "cancelled s w \<longleftrightarrow> s_cancelled (scopes w s)"

definition already_cancelled :: "scope_ptr \<Rightarrow> 'cb cancel_world \<Rightarrow> bool" where
  "already_cancelled s w = (case s of None \<Rightarrow> False | Some s \<Rightarrow> cancelled s w)"

text \<open>
  The body of \<^verbatim>\<open>while (head_)\<close> takes the first guard out, marks it fired, moves its
  callback out and calls it.
\<close>

partial_function (option) cancel_loop ::
  "('cb \<Rightarrow> 'u \<Rightarrow> 'u) \<Rightarrow> nat \<Rightarrow> 'cb cancel_world \<Rightarrow> 'u \<Rightarrow> ('cb cancel_world \<times> 'u) option" where
  "cancel_loop run s w u =
     (case s_head (scopes w s) of
        None \<Rightarrow> Some (w, u)
      | Some g \<Rightarrow>
          let w1 = unlink_locked s g w;
              w2 = upd_guard g (\<lambda>r. r\<lparr>g_state := Fired\<rparr>) w1;
              cb = g_cb (guards w2 g);
              w3 = upd_guard g (\<lambda>r. r\<lparr>g_cb := None\<rparr>) w2
          in (case cb of None \<Rightarrow> None | Some f \<Rightarrow> cancel_loop run s w3 (run f u)))"

declare cancel_loop.simps [code]

text \<open>
  \<^verbatim>\<open>cancel()\<close> reads the flag without the lock and again, by \<^verbatim>\<open>exchange\<close>, with it;
  \<open>cancel_locked\<close> is the part under the lock. The destructor of a scope is
  \<^verbatim>\<open>cancel()\<close>, the destructor of a guard is \<^verbatim>\<open>disarm()\<close>.
\<close>

definition cancel_locked ::
  "('cb \<Rightarrow> 'u \<Rightarrow> 'u) \<Rightarrow> nat \<Rightarrow> 'cb cancel_world \<Rightarrow> 'u \<Rightarrow> ('cb cancel_world \<times> 'u) option" where
  "cancel_locked run s w u =
     (let old = s_cancelled (scopes w s);
          w1 = upd_scope s (\<lambda>r. r\<lparr>s_cancelled := True\<rparr>) w
      in if old then Some (w1, u) else cancel_loop run s w1 u)"

definition cancel ::
  "('cb \<Rightarrow> 'u \<Rightarrow> 'u) \<Rightarrow> nat \<Rightarrow> 'cb cancel_world \<Rightarrow> 'u \<Rightarrow> ('cb cancel_world \<times> 'u) option" where
  "cancel run s w u = (if cancelled s w then Some (w, u) else cancel_locked run s w u)"

definition move_construct :: "nat \<Rightarrow> nat \<Rightarrow> 'cb cancel_world \<Rightarrow> 'cb cancel_world option" where
  "move_construct d o' w =
     (if g_state (guards w o') = Armed then None
      else
        let w1 = upd_guard d (\<lambda>r. (new_guard (g_scope (guards w o')))) w;
            w2 = upd_guard o' (\<lambda>r. r\<lparr>g_scope := None\<rparr>) w1
        in Some (upd_guard d (\<lambda>r. r\<lparr>g_state := g_state (guards w2 o')\<rparr>) w2))"

definition move_assign :: "nat \<Rightarrow> nat \<Rightarrow> 'cb cancel_world \<Rightarrow> 'cb cancel_world option" where
  "move_assign d o' w =
     (if d = o' then Some w
      else
        let w0 = snd (disarm d w) in
        if g_state (guards w0 o') = Armed then None
        else
          let w1 = upd_guard d (\<lambda>r. r\<lparr>g_scope := g_scope (guards w0 o')\<rparr>) w0;
              w2 = upd_guard o' (\<lambda>r. r\<lparr>g_scope := None\<rparr>) w1
          in Some (upd_guard d (\<lambda>r. r\<lparr>g_state := g_state (guards w2 o')\<rparr>) w2))"

section \<open>The list of armed guards\<close>

definition scope_chain :: "nat \<Rightarrow> 'cb cancel_world \<Rightarrow> nat list \<Rightarrow> bool" where
  "scope_chain s w xs \<longleftrightarrow>
     dll (\<lambda>g. g_next (guards w g)) (\<lambda>g. g_prev (guards w g))
       (s_head (scopes w s)) (last_ptr xs) xs"

text \<open>
  The invariant: the list of a scope holds exactly the guards that are armed on it, each
  with a callback, and the list of a cancelled scope is empty.
\<close>

definition armed_on :: "nat \<Rightarrow> 'cb cancel_world \<Rightarrow> nat set" where
  "armed_on s w = {g. g_state (guards w g) = Armed \<and> g_scope (guards w g) = Some s}"

definition scope_ok :: "nat \<Rightarrow> 'cb cancel_world \<Rightarrow> bool" where
  "scope_ok s w \<longleftrightarrow>
     (\<exists>xs. scope_chain s w xs \<and> set xs = armed_on s w \<and>
       (s_cancelled (scopes w s) \<longrightarrow> xs = [])) \<and>
     (\<forall>g \<in> armed_on s w. g_cb (guards w g) \<noteq> None)"

definition cancel_inv :: "'cb cancel_world \<Rightarrow> bool" where
  "cancel_inv w \<longleftrightarrow> (\<forall>s. scope_ok s w)"

lemma scope_chain_cong:
  assumes "s_head (scopes w s) = s_head (scopes w' s)"
    and "\<And>g. g \<in> set xs \<Longrightarrow> g_next (guards w g) = g_next (guards w' g)"
    and "\<And>g. g \<in> set xs \<Longrightarrow> g_prev (guards w g) = g_prev (guards w' g)"
  shows "scope_chain s w xs = scope_chain s w' xs"
  unfolding scope_chain_def assms(1) by (rule dll_cong) (use assms in auto)

lemma link_fields [step_simps]:
  "(\<lambda>x. g_next (guards (link_locked s g w) x)) = (\<lambda>x. g_next (guards w x))(g := s_head (scopes w s))"
  "(\<lambda>x. g_prev (guards (link_locked s g w) x)) =
     front_prev (\<lambda>x. g_prev (guards w x)) (s_head (scopes w s)) g"
  "s_head (scopes (link_locked s g w) s) = Some g"
  by (auto simp: link_locked_def Let_def front_prev_def fun_eq_iff split: option.splits)

lemma link_frame [simp]:
  "g_state (guards (link_locked s g w) x) = g_state (guards w x)"
  "g_scope (guards (link_locked s g w) x) = g_scope (guards w x)"
  "g_cb (guards (link_locked s g w) x) = g_cb (guards w x)"
  "s_cancelled (scopes (link_locked s g w) s') = s_cancelled (scopes w s')"
  "s' \<noteq> s \<Longrightarrow> scopes (link_locked s g w) s' = scopes w s'"
  by (auto simp: link_locked_def Let_def split: option.splits)

lemma link_other:
  "x \<noteq> g \<Longrightarrow> s_head (scopes w s) \<noteq> Some x \<Longrightarrow> guards (link_locked s g w) x = guards w x"
  by (auto simp: link_locked_def Let_def split: option.splits)

lemma unlink_fields [step_simps]:
  assumes "g_prev (guards w g) \<noteq> Some g" and "g_next (guards w g) \<noteq> Some g"
  shows "(\<lambda>x. g_next (guards (unlink_locked s g w) x)) =
      (unlink_next (\<lambda>x. g_next (guards w x)) (\<lambda>x. g_prev (guards w x)) g)(g := None)"
    and "(\<lambda>x. g_prev (guards (unlink_locked s g w) x)) =
      (unlink_prev (\<lambda>x. g_next (guards w x)) (\<lambda>x. g_prev (guards w x)) g)(g := None)"
    and "s_head (scopes (unlink_locked s g w) s) =
      unlink_head (\<lambda>x. g_next (guards w x)) (\<lambda>x. g_prev (guards w x)) g (s_head (scopes w s))"
  using assms
  by (auto simp: unlink_locked_def Let_def unlink_defs fun_eq_iff split: option.splits)

lemma unlink_frame [simp]:
  "g_state (guards (unlink_locked s g w) x) = g_state (guards w x)"
  "g_scope (guards (unlink_locked s g w) x) = g_scope (guards w x)"
  "g_cb (guards (unlink_locked s g w) x) = g_cb (guards w x)"
  "s_cancelled (scopes (unlink_locked s g w) s') = s_cancelled (scopes w s')"
  "s' \<noteq> s \<Longrightarrow> scopes (unlink_locked s g w) s' = scopes w s'"
  by (auto simp: unlink_locked_def Let_def split: option.splits)

lemma unlink_other:
  assumes "x \<noteq> g" and "g_prev (guards w g) \<noteq> Some x" and "g_next (guards w g) \<noteq> Some x"
    and "g_prev (guards w g) \<noteq> Some g"
  shows "guards (unlink_locked s g w) x = guards w x"
  using assms by (auto simp: unlink_locked_def Let_def split: option.splits)

lemma scope_chain_unique: "scope_chain s w xs \<Longrightarrow> scope_chain s w ys \<Longrightarrow> xs = ys"
  unfolding scope_chain_def by (rule dll_unique)

lemma scope_chain_link:
  assumes "scope_chain s w xs" and "g \<notin> set xs"
  shows "scope_chain s (link_locked s g w) (g # xs)"
  using dll_push_front [OF assms(1)[unfolded scope_chain_def] assms(2)]
  by (simp add: scope_chain_def step_simps)

lemma scope_chain_unlink:
  assumes "scope_chain s w xs" and "g \<in> set xs"
  shows "scope_chain s (unlink_locked s g w) (remove1 g xs)"
proof -
  have d: "dll (\<lambda>g. g_next (guards w g)) (\<lambda>g. g_prev (guards w g))
      (s_head (scopes w s)) (last_ptr xs) xs"
    using assms(1) by (simp add: scope_chain_def)
  have n: "g_prev (guards w g) \<noteq> Some g" "g_next (guards w g) \<noteq> Some g"
    using dll_no_self [OF d assms(2)] by auto
  have "g \<notin> set (remove1 g xs)"
    using dll_distinct [OF d] by simp
  with dll_unlink [OF d assms(2)] have *: "dll (\<lambda>x. g_next (guards (unlink_locked s g w) x))
      (\<lambda>x. g_prev (guards (unlink_locked s g w) x)) (s_head (scopes (unlink_locked s g w) s))
      (unlink_tail (\<lambda>x. g_next (guards w x)) (\<lambda>x. g_prev (guards w x)) g (last_ptr xs))
      (remove1 g xs)"
    by (simp add: unlink_fields [OF n])
  with dll_tail [OF *] show ?thesis by (simp add: scope_chain_def)
qed

text \<open>The guards of a scope are an intrusive list, linked at the front.\<close>

interpretation guard_list: intrusive_list "scope_chain s" "link_locked s" "unlink_locked s" "(#)"
  for s
proof unfold_locales
  show "scope_chain s w xs \<Longrightarrow> distinct xs" for w :: "'cb cancel_world" and xs
    unfolding scope_chain_def by (rule dll_distinct)
qed (auto intro: scope_chain_link scope_chain_unlink dest: scope_chain_unique)

section \<open>What cancelling does\<close>

text \<open>
  The abstract effect of draining a list \<open>xs\<close> of guards: each is marked fired and loses
  its callback and its links, and the list is empty.
\<close>

definition fire_all :: "nat \<Rightarrow> nat list \<Rightarrow> 'cb cancel_world \<Rightarrow> 'cb cancel_world" where
  "fire_all s xs w = w\<lparr>
     guards := (\<lambda>g. if g \<in> set xs
       then (guards w g)\<lparr>g_prev := None, g_next := None, g_state := Fired, g_cb := None\<rparr>
       else guards w g),
     scopes := (scopes w)(s := (scopes w s)\<lparr>s_head := None\<rparr>)\<rparr>"

definition callbacks :: "nat list \<Rightarrow> 'cb cancel_world \<Rightarrow> 'cb list" where
  "callbacks xs w = map (\<lambda>g. the (g_cb (guards w g))) xs"

lemma unlink_head_world:
  assumes "g_prev (guards w g) = None" and "g_next (guards w g) \<noteq> Some g"
  shows "guards (unlink_locked s g w) x =
      (if x = g then (guards w g)\<lparr>g_prev := None, g_next := None\<rparr>
       else if g_next (guards w g) = Some x then (guards w x)\<lparr>g_prev := None\<rparr>
       else guards w x)"
    and "scopes (unlink_locked s g w) =
      (scopes w)(s := (scopes w s)\<lparr>s_head := g_next (guards w g)\<rparr>)"
  using assms by (auto simp: unlink_locked_def Let_def split: option.splits)

text \<open>One turn of the loop: the first guard is unlinked, fired, and its callback runs.\<close>

definition fire_first :: "nat \<Rightarrow> nat \<Rightarrow> 'cb cancel_world \<Rightarrow> 'cb cancel_world" where
  "fire_first s g w = upd_guard g (\<lambda>r. r\<lparr>g_cb := None\<rparr>)
     (upd_guard g (\<lambda>r. r\<lparr>g_state := Fired\<rparr>) (unlink_locked s g w))"

lemma cancel_loop_turn:
  assumes "scope_chain s w (g # ys)" and "g_cb (guards w g) = Some f"
  shows "cancel_loop run s w u = cancel_loop run s (fire_first s g w) (run f u)"
    and "scope_chain s (fire_first s g w) ys"
    and "x \<noteq> g \<Longrightarrow> g_cb (guards (fire_first s g w) x) = g_cb (guards w x)"
    and "fire_all s ys (fire_first s g w) = fire_all s (g # ys) w"
proof -
  have d: "dll (\<lambda>g. g_next (guards w g)) (\<lambda>g. g_prev (guards w g))
      (s_head (scopes w s)) (last_ptr (g # ys)) (g # ys)"
    using assms(1) by (simp add: scope_chain_def)
  have hd: "s_head (scopes w s) = Some g" and prev: "g_prev (guards w g) = None"
    and g: "g \<notin> set ys" and nx: "g_next (guards w g) = head_ptr ys"
    using d by (auto simp: dll_def) (cases ys; auto)
  have nself: "g_next (guards w g) \<noteq> Some g"
    using dll_no_self [OF d] by simp
  show "cancel_loop run s w u = cancel_loop run s (fire_first s g w) (run f u)"
    by (subst cancel_loop.simps) (simp add: hd assms(2) fire_first_def Let_def)
  have "scope_chain s (unlink_locked s g w) ys"
    using scope_chain_unlink [OF assms(1), of g] by simp
  then show "scope_chain s (fire_first s g w) ys"
    using g by (subst scope_chain_cong [where w' = "unlink_locked s g w"]) (auto simp: fire_first_def)
  show "x \<noteq> g \<Longrightarrow> g_cb (guards (fire_first s g w) x) = g_cb (guards w x)"
    by (simp add: fire_first_def)
  have "guards (fire_all s ys (fire_first s g w)) x = guards (fire_all s (g # ys) w) x" for x
    using nx g by (cases ys)
      (auto simp: fire_all_def fire_first_def unlink_head_world [OF prev nself])
  then show "fire_all s ys (fire_first s g w) = fire_all s (g # ys) w"
    by (simp add: fire_all_def fire_first_def unlink_head_world(2) [OF prev nself] fun_eq_iff)
qed

lemma cancel_loop_drains:
  assumes "scope_chain s w xs" and "\<forall>g \<in> set xs. g_cb (guards w g) \<noteq> None"
  shows "cancel_loop run s w u = Some (fire_all s xs w, fold run (callbacks xs w) u)"
  using assms
proof (induction xs arbitrary: w u)
  case Nil
  then show ?case
    by (subst cancel_loop.simps)
      (simp add: scope_chain_def fire_all_def callbacks_def fun_upd_idem)
next
  case (Cons g ys)
  obtain f where f: "g_cb (guards w g) = Some f"
    using Cons.prems(2) by auto
  note turn = cancel_loop_turn [OF Cons.prems(1) f]
  have "g \<notin> set ys"
    using guard_list.chain_distinct [OF Cons.prems(1)] by simp
  then have cbs: "x \<in> set ys \<Longrightarrow> g_cb (guards (fire_first s g w) x) = g_cb (guards w x)" for x
    using turn(3) [of x] by auto
  have "cancel_loop run s (fire_first s g w) (run f u) =
      Some (fire_all s ys (fire_first s g w), fold run (callbacks ys (fire_first s g w)) (run f u))"
    using Cons.prems(2) cbs by (intro Cons.IH [OF turn(2)]) auto
  moreover have "callbacks (g # ys) w = f # callbacks ys (fire_first s g w)"
    using cbs f by (simp add: callbacks_def)
  ultimately show ?case
    using turn(1) [of run u] turn(4) by simp
qed

lemma cancel_locked_drains:
  assumes "cancel_inv w" and "\<not> cancelled s w"
  obtains xs where "scope_chain s w xs" "set xs = armed_on s w"
    "cancel_locked run s w u =
       Some (fire_all s xs (upd_scope s (\<lambda>r. r\<lparr>s_cancelled := True\<rparr>) w),
             fold run (callbacks xs w) u)"
proof -
  from assms(1) obtain xs where xs: "scope_chain s w xs" "set xs = armed_on s w"
    and cb: "\<forall>g \<in> armed_on s w. g_cb (guards w g) \<noteq> None"
    unfolding cancel_inv_def scope_ok_def by blast
  let ?w = "upd_scope s (\<lambda>r. r\<lparr>s_cancelled := True\<rparr>) w"
  have "scope_chain s ?w xs"
    using xs(1) by (subst scope_chain_cong [where w' = w]) auto
  then have "cancel_loop run s ?w u = Some (fire_all s xs ?w, fold run (callbacks xs ?w) u)"
    using xs(2) cb by (intro cancel_loop_drains) auto
  moreover have "callbacks xs ?w = callbacks xs w"
    by (simp add: callbacks_def)
  ultimately show thesis
    using that [OF xs] assms(2) by (simp add: cancel_locked_def cancelled_def Let_def)
qed

section \<open>The invariant is kept\<close>

lemma scope_ok_frame:
  assumes "scope_ok s w" and "armed_on s w' = armed_on s w"
    and "scopes w' s = scopes w s"
    and "\<And>g. g \<in> armed_on s w \<Longrightarrow> g_next (guards w' g) = g_next (guards w g) \<and>
           g_prev (guards w' g) = g_prev (guards w g) \<and> g_cb (guards w' g) = g_cb (guards w g)"
  shows "scope_ok s w'"
proof -
  from assms(1) obtain xs where xs: "scope_chain s w xs" "set xs = armed_on s w"
    "s_cancelled (scopes w s) \<Longrightarrow> xs = []" and cb: "\<forall>g \<in> armed_on s w. g_cb (guards w g) \<noteq> None"
    unfolding scope_ok_def by blast
  have "scope_chain s w' xs"
    using xs(1,2) assms(3,4) by (subst scope_chain_cong [where w' = w]) auto
  with xs cb assms show ?thesis
    unfolding scope_ok_def by force
qed

lemma chain_members:
  assumes "scope_ok s w"
  shows "s_head (scopes w s) = Some h \<Longrightarrow> h \<in> armed_on s w"
    and "g \<in> armed_on s w \<Longrightarrow> g_prev (guards w g) = Some a \<Longrightarrow> a \<in> armed_on s w"
    and "g \<in> armed_on s w \<Longrightarrow> g_next (guards w g) = Some b \<Longrightarrow> b \<in> armed_on s w"
    and "g \<in> armed_on s w \<Longrightarrow> g_prev (guards w g) \<noteq> Some g \<and> g_next (guards w g) \<noteq> Some g"
proof -
  from assms obtain xs where d: "dll (\<lambda>g. g_next (guards w g)) (\<lambda>g. g_prev (guards w g))
      (s_head (scopes w s)) (last_ptr xs) xs" and xs: "set xs = armed_on s w"
    unfolding scope_ok_def scope_chain_def by blast
  show "h \<in> armed_on s w" if "s_head (scopes w s) = Some h"
    using that d dll_first xs by fastforce
  show "a \<in> armed_on s w" if "g \<in> armed_on s w" "g_prev (guards w g) = Some a"
    using dll_neighbours(1) [OF d] that xs by auto
  show "b \<in> armed_on s w" if "g \<in> armed_on s w" "g_next (guards w g) = Some b"
    using dll_neighbours(2) [OF d] that xs by auto
  show "g_prev (guards w g) \<noteq> Some g \<and> g_next (guards w g) \<noteq> Some g" if "g \<in> armed_on s w"
    using dll_no_self [OF d] that xs by auto
qed

lemma armed_on_disjoint: "s \<noteq> s' \<Longrightarrow> g \<in> armed_on s w \<Longrightarrow> g \<notin> armed_on s' w"
  by (auto simp: armed_on_def)

lemma bind_inv [preserves]:
  assumes "cancel_inv w" and "bind g s w = Some w'"
  shows "cancel_inv w'"
proof -
  have na: "g_state (guards w g) \<noteq> Armed" and w': "w' = upd_guard g (\<lambda>r. r\<lparr>g_scope := s\<rparr>) w"
    using assms(2) by (auto simp: bind_def split: if_splits)
  have "scope_ok s' w'" for s'
    using assms(1) na unfolding cancel_inv_def
    by (intro scope_ok_frame [of s' w w']) (auto simp: w' armed_on_def)
  then show ?thesis by (simp add: cancel_inv_def)
qed

text \<open>
  An operation on one scope leaves the guards armed on the others alone; so it keeps the
  invariant once its own scope is in order again.
\<close>

lemma cancel_inv_one_scope:
  assumes inv: "cancel_inv w" and own: "scope_ok s w'"
    and sets: "\<And>s'. s' \<noteq> s \<Longrightarrow> armed_on s' w' = armed_on s' w \<and> scopes w' s' = scopes w s'"
    and guards: "\<And>s' x. s' \<noteq> s \<Longrightarrow> x \<in> armed_on s' w \<Longrightarrow> guards w' x = guards w x"
  shows "cancel_inv w'"
  unfolding cancel_inv_def
proof
  fix s'
  show "scope_ok s' w'"
  proof (cases "s' = s")
    case False
    with inv sets guards show ?thesis
      by (intro scope_ok_frame [of s' w w']) (simp_all add: cancel_inv_def)
  qed (use own in simp)
qed

lemma arm_linked:
  assumes inv: "cancel_inv w" and idle: "g_state (guards w g) = Idle"
    and s: "g_scope (guards w g) = Some s" "\<not> s_cancelled (scopes w s)"
    and w': "w' = upd_guard g (\<lambda>r. r\<lparr>g_state := Armed\<rparr>)
      (link_locked s g (upd_guard g (\<lambda>r. r\<lparr>g_cb := Some f\<rparr>) w))"
  shows "scope_ok s w'"
proof -
  let ?w1 = "upd_guard g (\<lambda>r. r\<lparr>g_cb := Some f\<rparr>) w"
  obtain xs where xs: "scope_chain s w xs" "set xs = armed_on s w"
    and cb: "\<forall>g \<in> armed_on s w. g_cb (guards w g) \<noteq> None"
    using inv unfolding cancel_inv_def scope_ok_def by blast
  have "scope_chain s ?w1 xs"
    using xs(1) by (subst scope_chain_cong [where w' = w]) auto
  moreover have "g \<notin> set xs"
    using xs(2) idle by (simp add: armed_on_def)
  ultimately have "scope_chain s (link_locked s g ?w1) (g # xs)"
    by (rule scope_chain_link)
  then have "scope_chain s w' (g # xs)"
    by (subst scope_chain_cong [where w' = "link_locked s g ?w1"]) (auto simp: w')
  moreover have "armed_on s w' = insert g (armed_on s w)"
    using s(1) by (auto simp: armed_on_def w')
  ultimately show ?thesis
    using xs(2) cb s(2) unfolding scope_ok_def
    by (intro conjI exI [of _ "g # xs"]) (auto simp: w')
qed

lemma arm_inv [preserves]:
  assumes inv: "cancel_inv w" and arm: "arm g f w = Some (r, w')"
  shows "cancel_inv w'"
proof -
  have idle: "g_state (guards w g) = Idle"
    using arm by (simp add: arm_def split: if_splits)
  consider (none) "g_scope (guards w g) = None"
    | (late) s where "g_scope (guards w g) = Some s" "s_cancelled (scopes w s)"
    | (live) s where "g_scope (guards w g) = Some s" "\<not> s_cancelled (scopes w s)"
    by blast
  then show ?thesis
  proof cases
    case none
    then have "w' = upd_guard g (\<lambda>r. r\<lparr>g_state := Armed\<rparr>) w"
      using arm by (auto simp: arm_def split: if_splits)
    then have "scope_ok s' w'" for s'
      using inv none idle unfolding cancel_inv_def
      by (intro scope_ok_frame [of s' w w']) (auto simp: armed_on_def)
    then show ?thesis by (simp add: cancel_inv_def)
  next
    case late
    with inv arm show ?thesis by (auto simp: arm_def split: if_splits)
  next
    case live
    have w': "w' = upd_guard g (\<lambda>r. r\<lparr>g_state := Armed\<rparr>)
        (link_locked s g (upd_guard g (\<lambda>r. r\<lparr>g_cb := Some f\<rparr>) w))"
      using arm live idle by (simp add: arm_def Let_def)
    show ?thesis
    proof (rule cancel_inv_one_scope [OF inv arm_linked [OF inv idle live w']])
      fix s' x assume "s' \<noteq> s" "x \<in> armed_on s' w"
      then have "x \<noteq> g" and "s_head (scopes w s) \<noteq> Some x"
        using idle inv chain_members(1) [of s w x] by (auto simp: armed_on_def cancel_inv_def)
      then show "guards w' x = guards w x"
        by (simp add: w' link_other)
    qed (use live idle in \<open>auto simp: armed_on_def w'\<close>)
  qed
qed

lemma disarm_unlinked:
  assumes inv: "cancel_inv w" and g: "g \<in> armed_on s w"
    and w': "w' = upd_guard g (\<lambda>r. r\<lparr>g_state := Disarmed\<rparr>)
        (upd_guard g (\<lambda>r. r\<lparr>g_cb := None\<rparr>) (unlink_locked s g w))"
  shows "scope_ok s w'"
proof -
  obtain xs where xs: "scope_chain s w xs" "set xs = armed_on s w"
      "s_cancelled (scopes w s) \<Longrightarrow> xs = []"
    and cb: "\<forall>g \<in> armed_on s w. g_cb (guards w g) \<noteq> None"
    using inv unfolding cancel_inv_def scope_ok_def by blast
  have "scope_chain s (unlink_locked s g w) (remove1 g xs)"
    using scope_chain_unlink [OF xs(1)] g xs(2) by simp
  then have "scope_chain s w' (remove1 g xs)"
    by (subst scope_chain_cong [where w' = "unlink_locked s g w"]) (auto simp: w')
  moreover have "armed_on s w' = armed_on s w - {g}"
    by (auto simp: armed_on_def w')
  moreover have "set (remove1 g xs) = set xs - {g}"
    by (rule set_remove1_eq [OF guard_list.chain_distinct [OF xs(1)]])
  ultimately show ?thesis
    using xs(2,3) cb unfolding scope_ok_def
    by (intro conjI exI [of _ "remove1 g xs"]) (auto simp: w')
qed

lemma disarm_inv [preserves]:
  assumes inv: "cancel_inv w"
  shows "cancel_inv (snd (disarm g w))"
proof (cases "g_scope (guards w g)")
  case None
  then have "scope_ok s' (snd (disarm g w))" for s'
    using assms unfolding cancel_inv_def
    by (intro scope_ok_frame [of s' w "snd (disarm g w)"]) (auto simp: disarm_def armed_on_def)
  then show ?thesis by (simp add: cancel_inv_def)
next
  case (Some s)
  show ?thesis
  proof (cases "g_state (guards w g) = Armed")
    case False
    with assms Some show ?thesis by (simp add: disarm_def)
  next
    case True
    define w' where "w' = snd (disarm g w)"
    have w': "w' = upd_guard g (\<lambda>r. r\<lparr>g_state := Disarmed\<rparr>)
        (upd_guard g (\<lambda>r. r\<lparr>g_cb := None\<rparr>) (unlink_locked s g w))"
      using Some True by (simp add: w'_def disarm_def Let_def)
    have g: "g \<in> armed_on s w"
      using Some True by (simp add: armed_on_def)
    have "cancel_inv w'"
    proof (rule cancel_inv_one_scope [OF inv disarm_unlinked [OF inv g w']])
      fix s' x assume "s' \<noteq> s" "x \<in> armed_on s' w"
      then have "x \<notin> armed_on s w"
        by (auto simp: armed_on_def)
      then have "x \<noteq> g" "g_prev (guards w g) \<noteq> Some x" "g_next (guards w g) \<noteq> Some x"
          "g_prev (guards w g) \<noteq> Some g"
        using inv g chain_members(2-4) [of s w, OF _ g] by (auto simp: cancel_inv_def)
      then show "guards w' x = guards w x"
        by (simp add: w' unlink_other)
    qed (use Some in \<open>auto simp: armed_on_def w'\<close>)
    then show ?thesis by (simp add: w'_def)
  qed
qed

lemma fire_all_inv:
  assumes "cancel_inv w" and "set xs = armed_on s w"
  shows "cancel_inv (fire_all s xs (upd_scope s (\<lambda>r. r\<lparr>s_cancelled := True\<rparr>) w))"
    (is "cancel_inv ?w")
proof -
  have "armed_on s ?w = {}"
    using assms(2) by (auto simp: armed_on_def fire_all_def)
  then have "scope_ok s ?w"
    by (simp add: scope_ok_def scope_chain_def fire_all_def)
  moreover have "scope_ok s' ?w" if "s' \<noteq> s" for s'
    using assms that unfolding cancel_inv_def
    by (intro scope_ok_frame [of s' w ?w]) (auto simp: armed_on_def fire_all_def)
  ultimately have "scope_ok s' ?w" for s'
    by (cases "s' = s") auto
  then show ?thesis by (simp add: cancel_inv_def)
qed

text \<open>\<^verbatim>\<open>cancel()\<close> always returns, and keeps the invariant.\<close>

lemma cancel_total:
  assumes "cancel_inv w"
  obtains w' u' where "cancel run s w u = Some (w', u')" "cancel_inv w'"
proof (cases "cancelled s w")
  case True
  with assms that show thesis by (simp add: cancel_def)
next
  case False
  obtain xs where "set xs = armed_on s w" and "cancel_locked run s w u =
       Some (fire_all s xs (upd_scope s (\<lambda>r. r\<lparr>s_cancelled := True\<rparr>) w), fold run (callbacks xs w) u)"
    by (rule cancel_locked_drains [OF assms False, where run = run and u = u])
  with False that fire_all_inv [OF assms, of xs s] show thesis
    by (simp add: cancel_def)
qed

lemma cancel_inv_step [preserves]:
  "cancel_inv w \<Longrightarrow> cancel run s w u = Some (w', u') \<Longrightarrow> cancel_inv w'"
  using cancel_total [of w run s u] by force

lemma move_construct_inv [preserves]:
  assumes "cancel_inv w" and "g_state (guards w d) \<noteq> Armed"
    and "move_construct d o' w = Some w'"
  shows "cancel_inv w'"
proof -
  have "scope_ok s' w'" for s'
    using assms unfolding cancel_inv_def
    by (intro scope_ok_frame [of s' w w'])
      (auto simp: move_construct_def armed_on_def new_guard_def Let_def split: if_splits)
  then show ?thesis by (simp add: cancel_inv_def)
qed

lemma disarm_not_armed: "g_state (guards (snd (disarm g w)) g) \<noteq> Armed"
  by (auto simp: disarm_def Let_def split: option.splits)

lemma move_assign_inv [preserves]:
  assumes "cancel_inv w" and "move_assign d o' w = Some w'"
  shows "cancel_inv w'"
proof (cases "d = o'")
  case True
  with assms show ?thesis by (simp add: move_assign_def)
next
  case False
  let ?w0 = "snd (disarm d w)"
  have inv0: "cancel_inv ?w0"
    using assms(1) by (rule disarm_inv)
  have "scope_ok s' w'" for s'
    using inv0 assms(2) False disarm_not_armed [of d w] unfolding cancel_inv_def
    by (intro scope_ok_frame [of s' ?w0 w'])
      (auto simp: move_assign_def armed_on_def Let_def split: if_splits)
  then show ?thesis by (simp add: cancel_inv_def)
qed

section \<open>Histories of a set of guards\<close>

text \<open>
  A history is a sequence of operations on any number of guards and scopes, in the order
  in which they take the locks. The callback of guard \<open>g\<close> is \<open>g\<close> itself, so the log says
  whose callback ran; it also says which calls of \<^verbatim>\<open>disarm\<close> returned true. A failed
  assertion ends the program, so a history is a run that had none.
\<close>

datatype guard_op = Op_bind nat scope_ptr | Op_arm nat | Op_disarm nat | Op_cancel nat

datatype guard_event = Ran nat | Disarmed_true nat

type_synonym guard_log = "guard_event list"

fun guard_step ::
  "guard_op \<Rightarrow> nat cancel_world \<times> guard_log \<Rightarrow> (nat cancel_world \<times> guard_log) option" where
  "guard_step (Op_bind g s) (w, l) = map_option (\<lambda>w'. (w', l)) (bind g s w)"
| "guard_step (Op_arm g) (w, l) = map_option (\<lambda>(_, w'). (w', l)) (arm g g w)"
| "guard_step (Op_disarm g) (w, l) =
     (case disarm g w of (r, w') \<Rightarrow> Some (w', if r then l @ [Disarmed_true g] else l))"
| "guard_step (Op_cancel s) (w, l) = cancel (\<lambda>g l. l @ [Ran g]) s w l"

fun guard_run ::
  "guard_op list \<Rightarrow> nat cancel_world \<times> guard_log \<Rightarrow> (nat cancel_world \<times> guard_log) option" where
  "guard_run [] c = Some c"
| "guard_run (x # xs) c = (case guard_step x c of None \<Rightarrow> None | Some c' \<Rightarrow> guard_run xs c')"

definition fresh_world :: "'cb cancel_world \<Rightarrow> bool" where
  "fresh_world w \<longleftrightarrow> (\<forall>g. guards w g = new_guard (g_scope (guards w g))) \<and>
     (\<forall>s. scopes w s = new_scope)"

lemma fresh_guard:
  assumes "fresh_world w"
  shows "g_state (guards w g) = Idle" and "g_cb (guards w g) = None"
proof -
  from assms have *: "guards w g = new_guard (g_scope (guards w g))"
    by (simp only: fresh_world_def)
  show "g_state (guards w g) = Idle" "g_cb (guards w g) = None"
    by (subst *, simp add: new_guard_def)+
qed

lemma fresh_world_inv:
  assumes "fresh_world w"
  shows "cancel_inv w"
proof -
  have "scopes w s = new_scope" for s
    using assms by (simp only: fresh_world_def)
  then show ?thesis
    by (simp add: cancel_inv_def scope_ok_def scope_chain_def armed_on_def
        fresh_guard [OF assms] new_scope_def)
qed

text \<open>
  The history invariant: an armed guard's callback, if it has one, is its own, and what the
  log says of a guard agrees with its state.
\<close>

definition resolutions :: "guard_log \<Rightarrow> nat \<Rightarrow> nat" where
  "resolutions l g = count_list l (Ran g) + count_list l (Disarmed_true g)"

definition history_inv :: "nat cancel_world \<times> guard_log \<Rightarrow> bool" where
  "history_inv c \<longleftrightarrow> (case c of (w, l) \<Rightarrow>
     cancel_inv w \<and>
     (\<forall>g. g_cb (guards w g) \<in> {None, Some g}) \<and>
     (\<forall>g. g_state (guards w g) = Fired \<longrightarrow> count_list l (Ran g) = 1) \<and>
     (\<forall>g. resolutions l g \<le> (if g_state (guards w g) \<in> {Fired, Disarmed} then 1 else 0)))"

lemma bind_guards:
  "bind g s w = Some w' \<Longrightarrow> g_state (guards w' x) = g_state (guards w x) \<and>
     g_cb (guards w' x) = g_cb (guards w x)"
  by (auto simp: bind_def split: if_splits)

lemma arm_guards:
  assumes "arm g f w = Some (r, w')"
  shows "g_state (guards w' x) =
      (if x = g \<and> r = Arm_armed then Armed else g_state (guards w x))"
    and "g_cb (guards w' x) \<in> {g_cb (guards w x), if x = g then Some f else g_cb (guards w x)}"
    and "g_state (guards w g) = Idle"
  using assms by (auto simp: arm_def Let_def split: if_splits option.splits)

lemma disarm_guards:
  assumes "disarm g w = (r, w')"
  shows "x \<noteq> g \<Longrightarrow> g_state (guards w' x) = g_state (guards w x)"
    and "g_cb (guards w' x) \<in> {None, g_cb (guards w x)}"
    and "r \<longleftrightarrow> g_state (guards w g) = Armed"
    and "g_state (guards w' g) \<in> {g_state (guards w g), Disarmed}"
    and "r \<Longrightarrow> g_state (guards w' g) = Disarmed"
  using assms by (auto simp: disarm_def Let_def split: if_splits option.splits)

lemma fold_log: "fold (\<lambda>g l. l @ [Ran g]) xs l = l @ map Ran xs"
  by (induction xs arbitrary: l) auto

lemma count_list_map_Ran: "count_list (map Ran xs) (Ran g) = count_list xs g"
  by (induction xs) auto

lemma count_list_map_Ran2: "count_list (map Ran xs) (Disarmed_true g) = 0"
  by (induction xs) auto

lemma count_list_distinct: "distinct xs \<Longrightarrow> count_list xs g = (if g \<in> set xs then 1 else 0)"
  by (induction xs) auto

lemma cancel_history:
  assumes inv: "history_inv (w, l)" and nc: "\<not> cancelled s w"
  obtains xs where "distinct xs" "set xs = armed_on s w"
    "cancel (\<lambda>g l. l @ [Ran g]) s w l =
       Some (fire_all s xs (upd_scope s (\<lambda>r. r\<lparr>s_cancelled := True\<rparr>) w), l @ map Ran xs)"
proof -
  have ci: "cancel_inv w" using inv by (simp add: history_inv_def)
  obtain xs where xs: "scope_chain s w xs" "set xs = armed_on s w"
    and c: "cancel_locked (\<lambda>g l. l @ [Ran g]) s w l =
       Some (fire_all s xs (upd_scope s (\<lambda>r. r\<lparr>s_cancelled := True\<rparr>) w),
             fold (\<lambda>g l. l @ [Ran g]) (callbacks xs w) l)"
    by (rule cancel_locked_drains [OF ci nc])
  have "the (g_cb (guards w g)) = g" if "g \<in> set xs" for g
  proof -
    have "g_cb (guards w g) \<noteq> None"
      using ci that xs(2) by (auto simp: cancel_inv_def scope_ok_def)
    moreover have "g_cb (guards w g) \<in> {None, Some g}"
      using inv by (simp add: history_inv_def)
    ultimately show ?thesis by auto
  qed
  then have "callbacks xs w = xs"
    by (simp add: callbacks_def map_idI)
  moreover have "distinct xs"
    by (rule guard_list.chain_distinct [OF xs(1)])
  ultimately show thesis
    using that [of xs] xs(2) c nc by (simp add: cancel_def fold_log)
qed

lemma history_arm:
  assumes inv: "history_inv (w, l)" and arm: "arm g g w = Some (r, w')"
  shows "history_inv (w', l)"
proof -
  have res: "resolutions l y \<le> (if g_state (guards w y) \<in> {Fired, Disarmed} then 1 else 0)" for y
    using inv by (simp add: history_inv_def)
  have "g_cb (guards w' y) \<in> {None, Some y}" for y
    using inv arm_guards(2) [OF arm, of y] by (auto simp: history_inv_def split: if_splits)
  moreover have "resolutions l y \<le> (if g_state (guards w' y) \<in> {Fired, Disarmed} then 1 else 0)" for y
    using res [of y] arm_guards(1,3) [OF arm] by (cases "y = g") auto
  moreover have "g_state (guards w' y) = Fired \<Longrightarrow> count_list l (Ran y) = 1" for y
    using inv arm_guards(1) [OF arm, of y] by (auto simp: history_inv_def split: if_splits)
  ultimately show ?thesis
    using inv arm_inv [OF _ arm] by (simp add: history_inv_def)
qed

lemma history_disarm:
  assumes inv: "history_inv (w, l)" and d: "disarm g w = (r, w')"
    and l': "l' = (if r then l @ [Disarmed_true g] else l)"
  shows "history_inv (w', l')"
proof -
  note d' = disarm_guards [OF d]
  have res: "resolutions l y \<le> (if g_state (guards w y) \<in> {Fired, Disarmed} then 1 else 0)"
    and ran: "g_state (guards w y) = Fired \<Longrightarrow> count_list l (Ran y) = 1"
    and cb: "g_cb (guards w y) \<in> {None, Some y}" for y
    using inv by (simp_all add: history_inv_def)
  have "g_cb (guards w' y) \<in> {None, Some y}" for y
    using d'(2) [of y] cb [of y] by auto
  moreover have "resolutions l' y \<le>
      (if g_state (guards w' y) \<in> {Fired, Disarmed} then 1 else 0)" for y
    using res [of y] d'(1) [of y] d'(3-5) l'
    by (cases "y = g") (auto simp: resolutions_def split: if_splits)
  moreover have "g_state (guards w' y) = Fired \<Longrightarrow> count_list l' (Ran y) = 1" for y
    using ran [of y] d'(1) [of y] d'(3-5) l' by (cases "y = g") (auto split: if_splits)
  moreover have "cancel_inv w'"
    using disarm_inv [of w g] inv d by (simp add: history_inv_def)
  ultimately show ?thesis by (simp add: history_inv_def)
qed

lemma history_cancel:
  assumes inv: "history_inv (w, l)"
    and c: "cancel (\<lambda>g l. l @ [Ran g]) s w l = Some (w', l')"
  shows "history_inv (w', l')"
proof (cases "cancelled s w")
  case True
  with inv c show ?thesis by (simp add: cancel_def)
next
  case False
  have ci: "cancel_inv w" and cb: "g_cb (guards w y) \<in> {None, Some y}"
    and ran: "g_state (guards w y) = Fired \<Longrightarrow> count_list l (Ran y) = 1"
    and res: "resolutions l y \<le> (if g_state (guards w y) \<in> {Fired, Disarmed} then 1 else 0)" for y
    using inv by (simp_all add: history_inv_def)
  obtain xs where xs: "distinct xs" "set xs = armed_on s w"
    and w': "w' = fire_all s xs (upd_scope s (\<lambda>r. r\<lparr>s_cancelled := True\<rparr>) w)"
    and l': "l' = l @ map Ran xs"
    using cancel_history [OF inv False] c by (metis option.inject prod.inject)
  have cnt: "count_list l' (Ran y) = count_list l (Ran y) + (if y \<in> armed_on s w then 1 else 0)" for y
    using xs by (simp add: l' count_list_map_Ran count_list_distinct)
  have st: "g_state (guards w' y) = (if y \<in> armed_on s w then Fired else g_state (guards w y))" for y
    using xs(2) by (simp add: w' fire_all_def)
  have zero: "y \<in> armed_on s w \<Longrightarrow> resolutions l y = 0" for y
    using res [of y] by (simp add: armed_on_def)
  have "cancel_inv w'"
    using fire_all_inv [OF ci xs(2)] by (simp add: w')
  moreover have "g_cb (guards w' y) \<in> {None, Some y}" for y
    using cb [of y] by (simp add: w' fire_all_def)
  moreover have "g_state (guards w' y) = Fired \<Longrightarrow> count_list l' (Ran y) = 1" for y
    using ran [of y] zero [of y] cnt [of y] st [of y]
    by (auto simp: resolutions_def split: if_splits)
  moreover have "resolutions l' y \<le> (if g_state (guards w' y) \<in> {Fired, Disarmed} then 1 else 0)" for y
    using res [of y] zero [of y] cnt [of y] st [of y]
    by (auto simp: l' resolutions_def count_list_map_Ran2 split: if_splits)
  ultimately show ?thesis by (simp add: history_inv_def)
qed

lemma history_step:
  assumes "history_inv c" and "guard_step x c = Some c'"
  shows "history_inv c'"
proof (cases c)
  case c: (Pair w l)
  show ?thesis
  proof (cases x)
    case (Op_bind g s)
    then obtain w' where w': "bind g s w = Some w'" "c' = (w', l)"
      using assms(2) c by auto
    then show ?thesis
      using bind_inv [OF _ w'(1)] bind_guards [OF w'(1)] assms(1) c
      by (simp add: history_inv_def)
  next
    case (Op_arm g)
    with assms c show ?thesis by (auto intro: history_arm)
  next
    case (Op_disarm g)
    obtain r w' where "disarm g w = (r, w')" by (cases "disarm g w")
    with Op_disarm assms c show ?thesis by (auto intro: history_disarm)
  next
    case (Op_cancel s)
    with assms c show ?thesis by (cases c') (auto intro: history_cancel)
  qed
qed

lemma history_run: "history_inv c \<Longrightarrow> guard_run xs c = Some c' \<Longrightarrow> history_inv c'"
  by (induction xs arbitrary: c) (auto split: option.splits intro: history_step)

lemma fresh_history:
  assumes "fresh_world w"
  shows "history_inv (w, [])"
  using fresh_world_inv [OF assms] by (simp add: history_inv_def resolutions_def fresh_guard [OF assms])

section \<open>Properties\<close>

text \<open>Two guards bound to one scope, for the examples.\<close>

definition demo_world :: "nat cancel_world" where
  "demo_world = \<lparr>guards = (\<lambda>g. new_guard (if g \<le> 2 then Some 0 else None)), scopes = (\<lambda>_. new_scope)\<rparr>"

lemma demo_fresh: "fresh_world demo_world"
  by (simp add: fresh_world_def demo_world_def new_guard_def)

text \<open>The same world after both have been armed.\<close>

definition demo_armed :: "nat cancel_world" where
  "demo_armed = snd (the (arm 2 2 (snd (the (arm 1 1 demo_world)))))"

lemma demo_armed_inv: "cancel_inv demo_armed"
proof -
  have 1: "arm 1 1 demo_world = Some (Arm_armed, snd (the (arm 1 1 demo_world)))"
    by (simp add: arm_def demo_world_def new_guard_def new_scope_def Let_def)
  have "cancel_inv (snd (the (arm 1 1 demo_world)))"
    by (rule arm_inv [OF fresh_world_inv [OF demo_fresh] 1])
  moreover have "arm 2 2 (snd (the (arm 1 1 demo_world))) = Some (Arm_armed, demo_armed)"
    by (simp add: demo_armed_def arm_def demo_world_def new_guard_def new_scope_def Let_def
        link_locked_def)
  ultimately show ?thesis by (rule arm_inv)
qed

lemma demo_chain: "scope_chain 0 demo_armed [2, 1]"
  by code_simp

lemma cancelled_step:
  assumes "guard_step x c = Some c'" and "cancelled s (fst c)" and "cancel_inv (fst c)"
  shows "cancelled s (fst c')"
proof -
  obtain w l where c: "c = (w, l)" by (cases c)
  show ?thesis
  proof (cases x)
    case (Op_cancel s')
    show ?thesis
    proof (cases "cancelled s' w")
      case True
      with assms c Op_cancel show ?thesis by (auto simp: cancel_def)
    next
      case False
      have inv: "cancel_inv w" using assms(3) c by simp
      obtain xs where "cancel_locked (\<lambda>g l. l @ [Ran g]) s' w l = Some (fire_all s' xs
          (upd_scope s' (\<lambda>r. r\<lparr>s_cancelled := True\<rparr>) w), fold (\<lambda>g l. l @ [Ran g]) (callbacks xs w) l)"
        by (rule cancel_locked_drains [OF inv False])
      with assms c Op_cancel False show ?thesis
        by (auto simp: cancel_def cancelled_def fire_all_def)
    qed
  qed (use assms c in \<open>auto simp: cancelled_def bind_def arm_def disarm_def Let_def
        split: if_splits option.splits\<close>)
qed

lemma cancelled_run:
  "guard_run xs c = Some c' \<Longrightarrow> history_inv c \<Longrightarrow> cancelled s (fst c) \<Longrightarrow> cancelled s (fst c')"
proof (induction xs arbitrary: c)
  case Nil
  then show ?case by simp
next
  case (Cons x xs)
  then obtain c1 where c1: "guard_step x c = Some c1" "guard_run xs c1 = Some c'"
    by (auto split: option.splits)
  have "cancel_inv (fst c)"
    using Cons.prems(2) by (auto simp: history_inv_def split: prod.splits)
  then have "cancelled s (fst c1)"
    using cancelled_step [OF c1(1) Cons.prems(3)] by simp
  with Cons.IH [OF c1(2) history_step [OF Cons.prems(2) c1(1)]] show ?case by simp
qed

text \<open>
  C9. \<^verbatim>\<open>cancel()\<close> on a scope that is not cancelled returns, and what it does is exactly
  this: it takes the armed guards of that scope in list order (the latest armed first), marks
  each fired, removes it and its callback, runs each callback exactly once in that order, and
  leaves the scope cancelled with an empty list; no other guard or scope changes.
\<close>

theorem cancel_runs_each_armed_guard_once:
  assumes "cancel_inv w" and "\<not> cancelled s w"
  shows "\<exists>xs. distinct xs \<and> set xs = armed_on s w \<and> scope_chain s w xs \<and>
    cancel run s w u =
      Some (w\<lparr>guards := (\<lambda>g. if g \<in> armed_on s w
                 then (guards w g)\<lparr>g_prev := None, g_next := None, g_state := Fired, g_cb := None\<rparr>
                 else guards w g),
              scopes := (scopes w)(s := \<lparr>s_cancelled = True, s_head = None\<rparr>)\<rparr>,
            fold (\<lambda>g. run (the (g_cb (guards w g)))) xs u)"
proof -
  obtain xs where xs: "scope_chain s w xs" "set xs = armed_on s w" and
    c: "cancel_locked run s w u =
       Some (fire_all s xs (upd_scope s (\<lambda>r. r\<lparr>s_cancelled := True\<rparr>) w), fold run (callbacks xs w) u)"
    by (rule cancel_locked_drains [OF assms])
  have "fire_all s xs (upd_scope s (\<lambda>r. r\<lparr>s_cancelled := True\<rparr>) w) =
      w\<lparr>guards := (\<lambda>g. if g \<in> armed_on s w
           then (guards w g)\<lparr>g_prev := None, g_next := None, g_state := Fired, g_cb := None\<rparr>
           else guards w g),
        scopes := (scopes w)(s := \<lparr>s_cancelled = True, s_head = None\<rparr>)\<rparr>"
    by (cases "scopes w s") (simp add: fire_all_def upd_scope_def xs(2) cong: if_cong)
  moreover have "fold run (callbacks xs w) u = fold (\<lambda>g. run (the (g_cb (guards w g)))) xs u"
    by (simp add: callbacks_def fold_map comp_def)
  ultimately show ?thesis
    using xs c assms(2) guard_list.chain_distinct [OF xs(1)]
    by (intro exI [of _ xs]) (simp add: cancel_def)
qed

theorem cancel_runs_each_armed_guard_once_witness:
  "\<exists>w'. cancel (\<lambda>g l. l @ [g]) 0 demo_armed [] = Some (w', [2, 1])"
proof -
  have "\<not> cancelled 0 demo_armed"
    by code_simp
  from cancel_runs_each_armed_guard_once [OF demo_armed_inv this, of "\<lambda>g l. l @ [g]" "[]"]
  obtain xs w' where xs: "scope_chain 0 demo_armed xs" and
    c: "cancel (\<lambda>g l. l @ [g]) 0 demo_armed [] =
      Some (w', fold (\<lambda>g l. l @ [the (g_cb (guards demo_armed g))]) xs [])"
    by blast
  have "xs = [2, 1]"
    using xs demo_chain by (rule scope_chain_unique)
  moreover have "g_cb (guards demo_armed 2) = Some 2" "g_cb (guards demo_armed 1) = Some 1"
    by code_simp+
  ultimately show ?thesis using c by simp
qed

text \<open>
  C10. In every history of binds, arms, disarms and cancels on fresh guards, each guard is
  resolved at most once: its callback runs at most once, \<^verbatim>\<open>disarm()\<close> returns true for it
  at most once, and never both. A guard whose state is \<^verbatim>\<open>fired\<close> has had its callback run
  exactly once, and a guard that is still idle or armed has not been resolved.
\<close>

theorem guard_resolved_at_most_once:
  assumes "fresh_world w0" and "guard_run ops (w0, []) = Some (w, l)"
  shows "count_list l (Ran g) + count_list l (Disarmed_true g) \<le> 1 \<and>
    (fired g w \<longrightarrow> count_list l (Ran g) = 1) \<and>
    (g_state (guards w g) \<in> {Idle, Armed} \<longrightarrow> Ran g \<notin> set l \<and> Disarmed_true g \<notin> set l)"
proof (intro conjI impI)
  have h: "history_inv (w, l)"
    by (rule history_run [OF fresh_history [OF assms(1)] assms(2)])
  then have r: "resolutions l g \<le> (if g_state (guards w g) \<in> {Fired, Disarmed} then 1 else 0)"
    by (simp add: history_inv_def)
  then show "count_list l (Ran g) + count_list l (Disarmed_true g) \<le> 1"
    by (auto simp: resolutions_def split: if_splits)
  show "count_list l (Ran g) = 1" if "fired g w"
    using h that by (simp add: history_inv_def fired_def)
  show "Ran g \<notin> set l" "Disarmed_true g \<notin> set l" if "g_state (guards w g) \<in> {Idle, Armed}"
    using r that by (auto simp: resolutions_def count_list_0_iff)
qed

theorem guard_resolved_at_most_once_witness:
  "\<exists>w l. guard_run [Op_arm 1, Op_arm 2, Op_disarm 1, Op_cancel 0, Op_disarm 2] (demo_world, []) =
       Some (w, l) \<and> l = [Disarmed_true 1, Ran 2] \<and>
     count_list l (Ran 2) + count_list l (Disarmed_true 2) \<le> 1"
proof -
  have "map_option snd (guard_run [Op_arm 1, Op_arm 2, Op_disarm 1, Op_cancel 0, Op_disarm 2]
      (demo_world, [])) = Some [Disarmed_true 1, Ran 2]"
    by code_simp
  then obtain w where w: "guard_run [Op_arm 1, Op_arm 2, Op_disarm 1, Op_cancel 0, Op_disarm 2]
      (demo_world, []) = Some (w, [Disarmed_true 1, Ran 2])"
    by auto
  show ?thesis
    using w guard_resolved_at_most_once [OF demo_fresh w, of 2] by blast
qed

text \<open>
  Cancellation is permanent: once a scope is cancelled it stays cancelled along every
  history, a further \<^verbatim>\<open>cancel()\<close> changes nothing and runs nothing, and arming an idle guard
  on it returns \<^verbatim>\<open>already_cancelled\<close> and leaves everything as it was, the callback not
  stored.
\<close>

lemma cancelled_scope_is_final:
  assumes "fresh_world w0" and "guard_run before (w0, []) = Some c1" and "cancelled s (fst c1)"
    and "guard_run later c1 = Some (w, l)"
  shows "cancelled s w \<and> cancel run s w u = Some (w, u) \<and>
    (g_state (guards w g) = Idle \<and> g_scope (guards w g) = Some s \<longrightarrow>
      arm g f w = Some (Arm_already_cancelled, w))"
proof (intro conjI impI)
  show c: "cancelled s w"
    using cancelled_run [OF assms(4) history_run [OF fresh_history [OF assms(1)] assms(2)] assms(3)]
    by simp
  show "cancel run s w u = Some (w, u)"
    using c by (simp add: cancel_def)
  show "arm g f w = Some (Arm_already_cancelled, w)"
    if "g_state (guards w g) = Idle \<and> g_scope (guards w g) = Some s"
    using c that by (simp add: arm_def cancelled_def)
qed

lemma cancelled_scope_is_final_witness:
  "\<exists>w. guard_run [Op_cancel 0] (demo_world, []) = Some (w, []) \<and>
     arm 1 1 w = Some (Arm_already_cancelled, w)"
proof -
  have "map_option (\<lambda>(w, l). (cancelled 0 w, g_state (guards w 1), g_scope (guards w 1), l))
      (guard_run [Op_cancel 0] (demo_world, [])) = Some (True, Idle, Some 0, [])"
    by code_simp
  then obtain w where w: "guard_run [Op_cancel 0] (demo_world, []) = Some (w, [])"
    "cancelled 0 w" "g_state (guards w 1) = Idle" "g_scope (guards w 1) = Some 0"
    by auto
  have "cancelled 0 (fst (w, [] :: guard_log))"
    using w(2) by simp
  from cancelled_scope_is_final [OF demo_fresh w(1) this guard_run.simps(1),
      of "\<lambda>g l. g # l" "[] :: nat list" 1 1]
  show ?thesis using w by auto
qed

end
