(* ===== verification/Await_Cancel.thy ===== *)
theory Await_Cancel
  imports Cancel_Scope
begin

text \<open>
  A scope as one awaiter sees it: what arming its guard does, and what \<^verbatim>\<open>cancel()\<close> does to
  a scope on which that guard, or none, is armed. Shared by the awaiters that take part in
  cancellation.
\<close>

lemma arm_idle:
  assumes "g_state (guards w g) = Idle" and "g_scope (guards w g) = Some sc"
    and "\<not> cancelled sc w" and "cancel_inv w" and "armed_on sc w = {}"
  shows "\<exists>w'. arm g f w = Some (Arm_armed, w') \<and> cancel_inv w' \<and>
    armed_on sc w' = {g} \<and> g_cb (guards w' g) = Some f \<and>
    g_scope (guards w' g) = Some sc \<and> \<not> cancelled sc w'"
proof -
  obtain w' where arm: "arm g f w = Some (Arm_armed, w')"
    using assms(1-3) by (simp add: arm_def cancelled_def Let_def)
  have "cancel_inv w'"
    using assms(4) arm by (rule arm_inv)
  moreover have "g_cb (guards w' g) = Some f"
      "g_scope (guards w' x) = g_scope (guards w x)" "\<not> cancelled sc w'" for x
    using arm assms(1-3) by (auto simp: arm_def cancelled_def Let_def)
  moreover have "armed_on sc w' = {g}"
    using assms(2,5) calculation(3) arm_guards(1) [OF arm]
    by (auto simp: armed_on_def split: if_splits)
  ultimately show ?thesis
    using arm assms(2) by auto
qed

lemma cancel_none:
  assumes "cancel_inv w" and "\<not> cancelled s w" and "armed_on s w = {}"
  shows "\<exists>w'. cancel rn s w u = Some (w', u) \<and> guards w' = guards w \<and> cancelled s w'"
proof -
  obtain xs where xs: "scope_chain s w xs" "set xs = armed_on s w" and
    c: "cancel_locked rn s w u =
       Some (fire_all s xs (upd_scope s (\<lambda>r. r\<lparr>s_cancelled := True\<rparr>) w), fold rn (callbacks xs w) u)"
    by (rule cancel_locked_drains [OF assms(1,2)])
  with assms show ?thesis
    by (auto simp: cancel_def fire_all_def callbacks_def cancelled_def)
qed

lemma cancel_single:
  assumes "cancel_inv w" and "\<not> cancelled s w" and "armed_on s w = {g}" and "g_cb (guards w g) = Some f"
  shows "\<exists>w'. cancel rn s w u = Some (w', rn f u) \<and> cancelled s w' \<and>
    g_scope (guards w' g) = g_scope (guards w g) \<and> g_state (guards w' g) = Fired"
proof -
  obtain xs where xs: "scope_chain s w xs" "set xs = armed_on s w" and
    c: "cancel_locked rn s w u =
       Some (fire_all s xs (upd_scope s (\<lambda>r. r\<lparr>s_cancelled := True\<rparr>) w), fold rn (callbacks xs w) u)"
    by (rule cancel_locked_drains [OF assms(1,2)])
  have "distinct xs"
    by (rule guard_list.chain_distinct [OF xs(1)])
  with xs(2) assms(3) have "xs = [g]"
    by (simp add: distinct_set_singleton)
  with c assms show ?thesis
    by (auto simp: cancel_def fire_all_def callbacks_def cancelled_def)
qed

text \<open>What becomes of the scope does not depend on the state the callback acts on.\<close>

lemma cancel_single_uniform:
  assumes "cancel_inv w" and "\<not> cancelled s w" and "armed_on s w = {g}" and "g_cb (guards w g) = Some f"
  shows "\<exists>w'. \<forall>u. cancel rn s w u = Some (w', rn f u) \<and> cancelled s w'"
proof -
  obtain xs where xs: "scope_chain s w xs" "set xs = armed_on s w"
    by (rule cancel_locked_drains [OF assms(1,2)])
  have "cancel rn s w u = Some (fire_all s xs (upd_scope s (\<lambda>r. r\<lparr>s_cancelled := True\<rparr>) w), rn f u)" for u
  proof -
    obtain ys where ys: "scope_chain s w ys" "set ys = armed_on s w" and
      c: "cancel_locked rn s w u =
         Some (fire_all s ys (upd_scope s (\<lambda>r. r\<lparr>s_cancelled := True\<rparr>) w), fold rn (callbacks ys w) u)"
      by (rule cancel_locked_drains [OF assms(1,2)])
    have "ys = xs" by (rule scope_chain_unique [OF ys(1) xs(1)])
    have g: "ys = [g]"
      using ys assms(3) guard_list.chain_distinct [OF ys(1)] by (simp add: distinct_set_singleton)
    have "fold rn (callbacks ys w) u = rn f u"
      using assms(4) by (simp add: g callbacks_def)
    with c show ?thesis
      using assms(2) by (simp add: cancel_def \<open>ys = xs\<close>)
  qed
  moreover have "cancelled s (fire_all s xs (upd_scope s (\<lambda>r. r\<lparr>s_cancelled := True\<rparr>) w))"
    by (auto simp: cancelled_def fire_all_def)
  ultimately show ?thesis by blast
qed

lemma cancel_none_uniform:
  assumes "cancel_inv w" and "\<not> cancelled s w" and "armed_on s w = {}"
  shows "\<exists>w'. \<forall>u. cancel rn s w u = Some (w', u)"
proof -
  have "cancel rn s w u = Some (fire_all s [] (upd_scope s (\<lambda>r. r\<lparr>s_cancelled := True\<rparr>) w), u)" for u
  proof -
    obtain xs where xs: "scope_chain s w xs" "set xs = armed_on s w" and
      c: "cancel_locked rn s w u =
         Some (fire_all s xs (upd_scope s (\<lambda>r. r\<lparr>s_cancelled := True\<rparr>) w), fold rn (callbacks xs w) u)"
      by (rule cancel_locked_drains [OF assms(1,2)])
    have e: "xs = []" using xs(2) assms(3) by simp
    with c assms(2) show ?thesis by (simp add: cancel_def callbacks_def)
  qed
  then show ?thesis by blast
qed

text \<open>A scope with one guard bound to it, for the examples.\<close>

definition demo_scope :: "'cb cancel_world" where
  "demo_scope = \<lparr>guards = (\<lambda>_. new_guard (Some 0)), scopes = (\<lambda>_. new_scope)\<rparr>"

lemma demo_scope_facts [simp]:
  "cancel_inv demo_scope" "\<not> cancelled s demo_scope" "armed_on s demo_scope = {}"
  "g_state (guards demo_scope g) = Idle" "g_scope (guards demo_scope g) = Some 0"
proof -
  have "fresh_world demo_scope"
    by (simp add: fresh_world_def demo_scope_def new_guard_def)
  then show "cancel_inv demo_scope" by (rule fresh_world_inv)
qed (auto simp: cancelled_def demo_scope_def new_scope_def armed_on_def new_guard_def)

end
