(* ===== verification/Wake_Once.thy ===== *)
theory Wake_Once
  imports Coasio_Prelude
begin

text \<open>
  The contract of everything a coroutine can be suspended on. A suspended coroutine is
  continued by pushing its handle on the run queue; pushing it twice resumes a coroutine
  that runs already or is gone, never pushing it leaves it suspended forever. So each
  primitive (the oneshot channel, the semaphore, the blocking pool, the run queue) must
  balance its books: a step wakes a waiting coroutine exactly when it stops being
  recorded as waiting. The interface \<open>wake_once\<close> states the balance of one step; what
  follows for whole histories is proved here once.
\<close>

section \<open>The interface\<close>

text \<open>
  \<open>step e s\<close> is the state after event \<open>e\<close> and the coroutines it wakes; \<open>waiting s k\<close> says
  that \<open>k\<close> is recorded as waiting; \<open>enrols\<close> and \<open>drops\<close> say that the event suspends \<open>k\<close>,
  or forgets it because its coroutine is being destroyed.
\<close>

locale wake_once =
  fixes step :: "'e \<Rightarrow> 's \<Rightarrow> 's \<times> 'k list"
    and inv :: "'s \<Rightarrow> bool"
    and ok :: "'e \<Rightarrow> 's \<Rightarrow> bool"
    and waiting :: "'s \<Rightarrow> 'k \<Rightarrow> bool"
    and enrols :: "'e \<Rightarrow> 's \<Rightarrow> 'k \<Rightarrow> bool"
    and drops :: "'e \<Rightarrow> 's \<Rightarrow> 'k \<Rightarrow> bool"
  assumes inv_step: "inv s \<Longrightarrow> ok e s \<Longrightarrow> inv (fst (step e s))"
    and balance: "inv s \<Longrightarrow> ok e s \<Longrightarrow>
      count_list (snd (step e s)) k + of_bool (waiting (fst (step e s)) k) + of_bool (drops e s k) =
      of_bool (waiting s k) + (of_bool (enrols e s k) :: nat)"

text \<open>Runs of a step function, with everything it wakes.\<close>

primrec run :: "('e \<Rightarrow> 's \<Rightarrow> 's \<times> 'k list) \<Rightarrow> 'e list \<Rightarrow> 's \<Rightarrow> 's \<times> 'k list" where
  "run f [] s = (s, [])"
| "run f (e # es) s = (let (s1, k1) = f e s; (s2, k2) = run f es s1 in (s2, k1 @ k2))"

primrec run_ok :: "('e \<Rightarrow> 's \<Rightarrow> 's \<times> 'k list) \<Rightarrow> ('e \<Rightarrow> 's \<Rightarrow> bool) \<Rightarrow> 'e list \<Rightarrow> 's \<Rightarrow> bool" where
  "run_ok f ok [] s \<longleftrightarrow> True"
| "run_ok f ok (e # es) s \<longleftrightarrow> ok e s \<and> run_ok f ok es (fst (f e s))"

text \<open>How many events of a run satisfy a predicate of the event and the state it meets.\<close>

primrec run_count ::
  "('e \<Rightarrow> 's \<Rightarrow> 's \<times> 'k list) \<Rightarrow> ('e \<Rightarrow> 's \<Rightarrow> bool) \<Rightarrow> 'e list \<Rightarrow> 's \<Rightarrow> nat" where
  "run_count f p [] s = 0"
| "run_count f p (e # es) s = of_bool (p e s) + run_count f p es (fst (f e s))"

lemma run_count_never [simp]: "run_count f (\<lambda>_ _. False) es s = 0"
  by (induction es arbitrary: s) simp_all

lemma fst_run_Cons [simp]: "fst (run f (e # es) s) = fst (run f es (fst (f e s)))"
  by (simp add: case_prod_beta)

lemma snd_run_Cons [simp]: "snd (run f (e # es) s) = snd (f e s) @ snd (run f es (fst (f e s)))"
  by (simp add: case_prod_beta)

declare run.simps(2) [simp del]

lemma run_append:
  "fst (run f (as @ bs) s) = fst (run f bs (fst (run f as s)))"
  "snd (run f (as @ bs) s) = snd (run f as s) @ snd (run f bs (fst (run f as s)))"
  by (induction as arbitrary: s) simp_all

lemma run_ok_append:
  "run_ok f ok (as @ bs) s \<longleftrightarrow> run_ok f ok as s \<and> run_ok f ok bs (fst (run f as s))"
  by (induction as arbitrary: s) simp_all

section \<open>Whole histories\<close>

context wake_once
begin

lemma inv_run: "inv s \<Longrightarrow> run_ok step ok es s \<Longrightarrow> inv (fst (run step es s))"
  by (induction es arbitrary: s) (auto intro: inv_step)

lemma run_balance:
  "inv s \<Longrightarrow> run_ok step ok es s \<Longrightarrow>
   count_list (snd (run step es s)) k + of_bool (waiting (fst (run step es s)) k) +
     run_count step (\<lambda>e s. drops e s k) es s =
   of_bool (waiting s k) + run_count step (\<lambda>e s. enrols e s k) es s"
proof (induction es arbitrary: s)
  case Nil
  then show ?case by simp
next
  case (Cons e es)
  let ?s = "fst (step e s)"
  have "inv ?s" using Cons.prems by (auto intro: inv_step)
  then have "count_list (snd (run step es ?s)) k + of_bool (waiting (fst (run step es ?s)) k) +
     run_count step (\<lambda>e s. drops e s k) es ?s =
     of_bool (waiting ?s k) + run_count step (\<lambda>e s. enrols e s k) es ?s"
    using Cons.IH [of ?s] Cons.prems by simp
  moreover have "count_list (snd (step e s)) k + of_bool (waiting ?s k) + of_bool (drops e s k) =
      of_bool (waiting s k) + (of_bool (enrols e s k) :: nat)"
    using Cons.prems by (intro balance) auto
  ultimately show ?case by simp
qed

text \<open>
  No coroutine is woken more often than it was suspended, and one that is no longer
  waiting, and was not dropped, has been woken exactly as often.
\<close>

lemma woken_at_most:
  "inv s \<Longrightarrow> run_ok step ok es s \<Longrightarrow>
   count_list (snd (run step es s)) k \<le>
     of_bool (waiting s k) + run_count step (\<lambda>e s. enrols e s k) es s"
  using run_balance [of s es k] by linarith

lemma woken_exactly:
  "inv s \<Longrightarrow> run_ok step ok es s \<Longrightarrow> \<not> waiting (fst (run step es s)) k \<Longrightarrow>
   run_count step (\<lambda>e s. drops e s k) es s = 0 \<Longrightarrow>
   count_list (snd (run step es s)) k =
     of_bool (waiting s k) + run_count step (\<lambda>e s. enrols e s k) es s"
  using run_balance [of s es k] by simp

lemma not_woken_spuriously:
  "inv s \<Longrightarrow> run_ok step ok es s \<Longrightarrow> \<not> waiting s k \<Longrightarrow>
   run_count step (\<lambda>e s. enrols e s k) es s = 0 \<Longrightarrow> k \<notin> set (snd (run step es s))"
  using run_balance [of s es k] by (auto simp: count_list_0_iff)

end

end
