(* ===== verification/Coasio_Error.thy ===== *)
theory Coasio_Error
  imports Coasio_Prelude
begin

text \<open>
  \<^verbatim>\<open>include/coasio/error.hpp\<close>: the error values of the library and their category.
  A \<^verbatim>\<open>std::error_code\<close> is a number and a category; categories are compared by address,
  so the library's own category, the generic category of \<^verbatim>\<open>std::errc\<close> and any other one
  (the system's, Asio's) are distinct values. The numbers of \<^verbatim>\<open>std::errc\<close> are those of the
  platform and enter as the argument \<open>errc\<close>.
\<close>

datatype error = Cancelled | Channel_closed | Semaphore_closed

text \<open>The enumerators count from 1.\<close>

fun error_value :: "error \<Rightarrow> int" where
  "error_value Cancelled = 1"
| "error_value Channel_closed = 2"
| "error_value Semaphore_closed = 3"

datatype category = Coasio_category | Generic_category | Other_category nat

record error_code =
  ec_value :: int
  ec_category :: category

record error_condition =
  econd_value :: int
  econd_category :: category

text \<open>\<^verbatim>\<open>std::errc\<close> enumerators the library uses.\<close>

datatype errc = Operation_canceled | Invalid_argument | Result_out_of_range

definition category_name :: string where
  "category_name = ''coasio''"

definition message :: "int \<Rightarrow> string" where
  "message ev =
     (if ev = error_value Cancelled then ''operation cancelled''
      else if ev = error_value Channel_closed then ''channel closed''
      else if ev = error_value Semaphore_closed then ''semaphore closed''
      else ''unknown coasio error'')"

definition default_error_condition :: "(errc \<Rightarrow> int) \<Rightarrow> int \<Rightarrow> error_condition" where
  "default_error_condition errc ev =
     (if ev = error_value Cancelled
      then \<lparr>econd_value = errc Operation_canceled, econd_category = Generic_category\<rparr>
      else \<lparr>econd_value = ev, econd_category = Coasio_category\<rparr>)"

definition make_error_code :: "error \<Rightarrow> error_code" where
  "make_error_code e = \<lparr>ec_value = error_value e, ec_category = Coasio_category\<rparr>"

text \<open>
  The default-constructed code and the conversion to \<^verbatim>\<open>bool\<close> of \<^verbatim>\<open>std::error_code\<close>, and
  \<^verbatim>\<open>std::make_error_code(std::errc)\<close>.
\<close>

definition no_error :: error_code where
  "no_error = \<lparr>ec_value = 0, ec_category = Other_category 0\<rparr>"

definition is_error :: "error_code \<Rightarrow> bool" where
  "is_error ec \<longleftrightarrow> ec_value ec \<noteq> 0"

definition make_errc_code :: "(errc \<Rightarrow> int) \<Rightarrow> errc \<Rightarrow> error_code" where
  "make_errc_code errc e = \<lparr>ec_value = errc e, ec_category = Generic_category\<rparr>"

lemma make_error_code_is_error [simp]: "is_error (make_error_code e)"
  by (cases e) (simp_all add: make_error_code_def is_error_def)

lemma no_error_not_error [simp]: "\<not> is_error no_error"
  by (simp add: no_error_def is_error_def)

lemma make_error_code_inj [simp]: "make_error_code a = make_error_code b \<longleftrightarrow> a = b"
  by (cases a; cases b) (simp_all add: make_error_code_def)

abbreviation err_cancelled :: error_code where
  "err_cancelled \<equiv> make_error_code Cancelled"

abbreviation err_channel_closed :: error_code where
  "err_channel_closed \<equiv> make_error_code Channel_closed"

end
