(* ===== verification/Semaphore.thy ===== *)
theory Semaphore
  imports Await_Cancel Wake_Once Coasio_Error
begin

text \<open>
  \<^verbatim>\<open>include/coasio/sync/semaphore.hpp\<close>: the counting semaphore with a first-in first-out
  queue of suspended coroutines. \<^verbatim>\<open>semaphore_detail::state\<close> is a record with a store of the
  waiters, which live inside the awaiters and are linked by their own pointers.

  The permit counter is atomic and \<^verbatim>\<open>release\<close> adds to it without the lock, so a
  \<^verbatim>\<open>compare_exchange_weak\<close> may fail because permits were added since the load, or for no
  reason. The functions with such a loop take the outcomes of its attempts as an argument:
  \<open>Cas_fails n\<close> is a failed attempt during which other threads released \<open>n\<close> permits, and
  when the list is exhausted the attempts succeed. Everything else happens under
  \<^verbatim>\<open>queue_mtx_\<close> and is one atomic step. A loop that does not end is \<^term>\<open>None\<close>.
\<close>

section \<open>State\<close>

record waiter =
  w_prev :: "nat option"
  w_next :: "nat option"
  w_handle :: handle
  w_rt :: runtime_ptr
  w_requested :: int
  w_acquired :: bool
  w_cancelled :: bool

record sem_state =
  sm_permits :: int
  sm_has_waiters :: bool
  sm_head :: "nat option"
  sm_tail :: "nat option"
  sm_waiters :: "nat \<Rightarrow> waiter"

definition MAX_PERMITS :: nat where
  "MAX_PERMITS = to_size ptrdiff_max"

text \<open>The constructor; the assertion bounds the initial count.\<close>

definition new_sem :: "nat \<Rightarrow> (nat \<Rightarrow> waiter) \<Rightarrow> sem_state option" where
  "new_sem initial ws =
     (if initial \<le> MAX_PERMITS
      then Some \<lparr>sm_permits = to_ptrdiff (int initial), sm_has_waiters = False, sm_head = None,
             sm_tail = None, sm_waiters = ws\<rparr>
      else None)"

definition upd_waiter :: "nat \<Rightarrow> (waiter \<Rightarrow> waiter) \<Rightarrow> sem_state \<Rightarrow> sem_state" where
  "upd_waiter w f s = s\<lparr>sm_waiters := (sm_waiters s)(w := f (sm_waiters s w))\<rparr>"

lemma upd_waiter_simps [simp]:
  "sm_waiters (upd_waiter w f s) = (sm_waiters s)(w := f (sm_waiters s w))"
  "sm_permits (upd_waiter w f s) = sm_permits s"
  "sm_has_waiters (upd_waiter w f s) = sm_has_waiters s"
  "sm_head (upd_waiter w f s) = sm_head s"
  "sm_tail (upd_waiter w f s) = sm_tail s"
  by (simp_all add: upd_waiter_def)

definition wake_of :: "sem_state \<Rightarrow> nat \<Rightarrow> wake" where
  "wake_of s w = (w_rt (sm_waiters s w), w_handle (sm_waiters s w))"

section \<open>The queue\<close>

definition link_tail :: "nat \<Rightarrow> sem_state \<Rightarrow> sem_state" where
  "link_tail w s =
     (let t = sm_tail s;
          s1 = upd_waiter w (\<lambda>r. r\<lparr>w_next := None, w_prev := t\<rparr>) s;
          s2 = (case t of Some y \<Rightarrow> upd_waiter y (\<lambda>r. r\<lparr>w_next := Some w\<rparr>) s1
                | None \<Rightarrow> s1\<lparr>sm_head := Some w\<rparr>)
      in s2\<lparr>sm_tail := Some w, sm_has_waiters := True\<rparr>)"

definition unlink :: "nat \<Rightarrow> sem_state \<Rightarrow> sem_state" where
  "unlink w s =
     (let s1 = (case w_prev (sm_waiters s w) of
                  Some a \<Rightarrow> upd_waiter a (\<lambda>r. r\<lparr>w_next := w_next (sm_waiters s w)\<rparr>) s
                | None \<Rightarrow> s\<lparr>sm_head := w_next (sm_waiters s w)\<rparr>);
          s2 = (case w_next (sm_waiters s1 w) of
                  Some b \<Rightarrow> upd_waiter b (\<lambda>r. r\<lparr>w_prev := w_prev (sm_waiters s1 w)\<rparr>) s1
                | None \<Rightarrow> s1\<lparr>sm_tail := w_prev (sm_waiters s1 w)\<rparr>);
          s3 = upd_waiter w (\<lambda>r. r\<lparr>w_prev := None, w_next := None\<rparr>) s2
      in if sm_head s3 = None then s3\<lparr>sm_has_waiters := False\<rparr> else s3)"

section \<open>Taking and giving permits\<close>

datatype cas = Cas_ok | Cas_fails int

fun next_cas :: "cas list \<Rightarrow> cas \<times> cas list" where
  "next_cas [] = (Cas_ok, [])"
| "next_cas (c # cs) = (c, cs)"

definition fetch_add :: "int \<Rightarrow> sem_state \<Rightarrow> sem_state" where
  "fetch_add n s = s\<lparr>sm_permits := to_ptrdiff (sm_permits s + n)\<rparr>"

fun try_acquire_loop :: "int \<Rightarrow> cas list \<Rightarrow> sem_state \<Rightarrow> bool \<times> sem_state" where
  "try_acquire_loop need (Cas_fails n # cs) s =
     (if sm_permits s < need then (False, s) else try_acquire_loop need cs (fetch_add n s))"
| "try_acquire_loop need cs s =
     (if sm_permits s < need then (False, s)
      else (True, s\<lparr>sm_permits := sm_permits s - need\<rparr>))"

definition try_acquire :: "cas list \<Rightarrow> nat \<Rightarrow> sem_state \<Rightarrow> bool \<times> sem_state" where
  "try_acquire cs n s =
     (if n = 0 then (True, s)
      else if sm_head s \<noteq> None then (False, s)
      else try_acquire_loop (to_ptrdiff (int n)) cs s)"

text \<open>
  \<^verbatim>\<open>grant_locked(out, cap, self)\<close>: \<open>out\<close> is the filled part of the buffer, \<open>now\<close> the
  coroutines scheduled on the spot because the buffer was full.
\<close>

partial_function (option) grant_locked ::
  "nat \<Rightarrow> nat option \<Rightarrow> cas list \<Rightarrow> wake list \<Rightarrow> wake list \<Rightarrow> sem_state \<Rightarrow>
   (wake list \<times> wake list \<times> sem_state) option" where
  "grant_locked cap self cs out now s =
     (case sm_head s of
        None \<Rightarrow> Some (out, now, s)
      | Some w \<Rightarrow>
          let need = w_requested (sm_waiters s w); cur = sm_permits s in
          if cur < need then Some (out, now, s)
          else (case next_cas cs of
              (Cas_fails n, cs') \<Rightarrow> grant_locked cap self cs' out now (fetch_add n s)
            | (Cas_ok, cs') \<Rightarrow>
                let s1 = s\<lparr>sm_permits := cur - need\<rparr>;
                    s2 = unlink w s1;
                    s3 = upd_waiter w (\<lambda>r. r\<lparr>w_acquired := True\<rparr>) s2;
                    k = wake_of s3 w
                in if self = Some w then grant_locked cap self cs' out now s3
                   else if length out < cap then grant_locked cap self cs' (out @ [k]) now s3
                   else grant_locked cap self cs' out (now @ [k]) s3))"

declare grant_locked.simps [code]

text \<open>
  The callers schedule the coroutines in the buffer after the lock is released, so those of
  \<open>now\<close> come first.
\<close>

definition grant_and_wake ::
  "nat option \<Rightarrow> cas list \<Rightarrow> sem_state \<Rightarrow> (sem_state \<times> wake list) option" where
  "grant_and_wake self cs s =
     map_option (\<lambda>(out, now, s'). (s', now @ out)) (grant_locked 16 self cs [] [] s)"

definition try_acquire_or_enqueue ::
  "cas list \<Rightarrow> nat \<Rightarrow> sem_state \<Rightarrow> (bool \<times> sem_state \<times> wake list) option" where
  "try_acquire_or_enqueue cs w s =
     map_option (\<lambda>(s', k). (w_acquired (sm_waiters s' w), s', k))
       (grant_and_wake (Some w) cs (link_tail w s))"

definition try_cancel_waiter :: "nat \<Rightarrow> sem_state \<Rightarrow> bool \<times> sem_state" where
  "try_cancel_waiter w s =
     (if w_acquired (sm_waiters s w) \<or> w_cancelled (sm_waiters s w) then (False, s)
      else (True, upd_waiter w (\<lambda>r. r\<lparr>w_cancelled := True\<rparr>) (unlink w s)))"

definition release :: "cas list \<Rightarrow> nat \<Rightarrow> sem_state \<Rightarrow> (sem_state \<times> wake list) option" where
  "release cs n s =
     (if n = 0 then Some (s, [])
      else
        let s1 = fetch_add (to_ptrdiff (int n)) s
        in if \<not> sm_has_waiters s1 then Some (s1, []) else grant_and_wake None cs s1)"

definition dequeue_or_return :: "cas list \<Rightarrow> nat \<Rightarrow> sem_state \<Rightarrow> (sem_state \<times> wake list) option" where
  "dequeue_or_return cs w s =
     (if w_cancelled (sm_waiters s w) then Some (s, [])
      else if \<not> w_acquired (sm_waiters s w) then Some (unlink w s, [])
      else grant_and_wake None cs (fetch_add (w_requested (sm_waiters s w)) s))"

definition available_permits :: "sem_state \<Rightarrow> nat" where
  "available_permits s = to_size (sm_permits s)"

section \<open>The queue as an intrusive list\<close>

definition waiter_chain :: "sem_state \<Rightarrow> nat list \<Rightarrow> bool" where
  "waiter_chain s xs \<longleftrightarrow>
     dll (\<lambda>w. w_next (sm_waiters s w)) (\<lambda>w. w_prev (sm_waiters s w)) (sm_head s) (sm_tail s) xs \<and>
     sm_has_waiters s = (xs \<noteq> [])"

lemma waiter_chain_cong:
  assumes "sm_head s = sm_head s'" "sm_tail s = sm_tail s'" "sm_has_waiters s = sm_has_waiters s'"
    and "\<And>w. w \<in> set xs \<Longrightarrow> w_next (sm_waiters s w) = w_next (sm_waiters s' w)"
    and "\<And>w. w \<in> set xs \<Longrightarrow> w_prev (sm_waiters s w) = w_prev (sm_waiters s' w)"
  shows "waiter_chain s xs = waiter_chain s' xs"
proof -
  have "dll (\<lambda>w. w_next (sm_waiters s w)) (\<lambda>w. w_prev (sm_waiters s w)) (sm_head s') (sm_tail s') xs =
      dll (\<lambda>w. w_next (sm_waiters s' w)) (\<lambda>w. w_prev (sm_waiters s' w)) (sm_head s') (sm_tail s') xs"
    by (rule dll_cong) (use assms(4,5) in auto)
  with assms(1-3) show ?thesis by (simp add: waiter_chain_def)
qed

lemma waiter_chain_head: "waiter_chain s xs \<Longrightarrow> sm_head s = head_ptr xs"
  unfolding waiter_chain_def by (blast dest: dll_head)

lemma link_tail_fields:
  "(\<lambda>x. w_next (sm_waiters (link_tail w s) x)) = back_next (\<lambda>x. w_next (sm_waiters s x)) (sm_tail s) w"
  if "sm_tail s \<noteq> Some w" for w s
  using that by (auto simp: link_tail_def Let_def back_next_def fun_eq_iff split: option.splits)

lemma link_tail_fields':
  "(\<lambda>x. w_prev (sm_waiters (link_tail w s) x)) = (\<lambda>x. w_prev (sm_waiters s x))(w := sm_tail s)"
  "sm_head (link_tail w s) = (case sm_tail s of None \<Rightarrow> Some w | Some _ \<Rightarrow> sm_head s)"
  "sm_tail (link_tail w s) = Some w"
  "sm_has_waiters (link_tail w s)"
  by (auto simp: link_tail_def Let_def fun_eq_iff split: option.splits)

lemma link_tail_frame [simp]:
  "sm_permits (link_tail w s) = sm_permits s"
  "w_handle (sm_waiters (link_tail w s) x) = w_handle (sm_waiters s x)"
  "w_rt (sm_waiters (link_tail w s) x) = w_rt (sm_waiters s x)"
  "w_requested (sm_waiters (link_tail w s) x) = w_requested (sm_waiters s x)"
  "w_acquired (sm_waiters (link_tail w s) x) = w_acquired (sm_waiters s x)"
  "w_cancelled (sm_waiters (link_tail w s) x) = w_cancelled (sm_waiters s x)"
  by (auto simp: link_tail_def Let_def split: option.splits)

lemma sem_unlink_frame [simp]:
  "sm_permits (unlink w s) = sm_permits s"
  "w_handle (sm_waiters (unlink w s) x) = w_handle (sm_waiters s x)"
  "w_rt (sm_waiters (unlink w s) x) = w_rt (sm_waiters s x)"
  "w_requested (sm_waiters (unlink w s) x) = w_requested (sm_waiters s x)"
  "w_acquired (sm_waiters (unlink w s) x) = w_acquired (sm_waiters s x)"
  "w_cancelled (sm_waiters (unlink w s) x) = w_cancelled (sm_waiters s x)"
  by (auto simp: unlink_def Let_def split: option.splits)

lemma sem_unlink_fields:
  assumes "w_prev (sm_waiters s w) \<noteq> Some w" and "w_next (sm_waiters s w) \<noteq> Some w"
  shows "(\<lambda>x. w_next (sm_waiters (unlink w s) x)) =
      (unlink_next (\<lambda>x. w_next (sm_waiters s x)) (\<lambda>x. w_prev (sm_waiters s x)) w)(w := None)"
    and "(\<lambda>x. w_prev (sm_waiters (unlink w s) x)) =
      (unlink_prev (\<lambda>x. w_next (sm_waiters s x)) (\<lambda>x. w_prev (sm_waiters s x)) w)(w := None)"
    and "sm_head (unlink w s) =
      unlink_head (\<lambda>x. w_next (sm_waiters s x)) (\<lambda>x. w_prev (sm_waiters s x)) w (sm_head s)"
    and "sm_tail (unlink w s) =
      unlink_tail (\<lambda>x. w_next (sm_waiters s x)) (\<lambda>x. w_prev (sm_waiters s x)) w (sm_tail s)"
    and "sm_has_waiters (unlink w s) = (sm_has_waiters s \<and> sm_head (unlink w s) \<noteq> None)"
  using assms by (auto simp: unlink_def Let_def unlink_defs fun_eq_iff split: option.splits)

lemma waiter_chain_link:
  assumes "waiter_chain s xs" and "w \<notin> set xs"
  shows "waiter_chain (link_tail w s) (xs @ [w])"
proof -
  have d: "dll (\<lambda>w. w_next (sm_waiters s w)) (\<lambda>w. w_prev (sm_waiters s w)) (sm_head s) (sm_tail s) xs"
    using assms(1) by (simp add: waiter_chain_def)
  have "sm_tail s \<noteq> Some w"
    using dll_tail [OF d] assms(2) by (auto simp: last_ptr_def split: if_splits)
  with dll_push_back [OF d assms(2)] show ?thesis
    by (simp add: waiter_chain_def link_tail_fields link_tail_fields')
qed

lemma waiter_chain_unlink:
  assumes "waiter_chain s xs" and "w \<in> set xs"
  shows "waiter_chain (unlink w s) (remove1 w xs)"
proof -
  have d: "dll (\<lambda>w. w_next (sm_waiters s w)) (\<lambda>w. w_prev (sm_waiters s w)) (sm_head s) (sm_tail s) xs"
    and h: "sm_has_waiters s = (xs \<noteq> [])"
    using assms(1) by (simp_all add: waiter_chain_def)
  have n: "w_prev (sm_waiters s w) \<noteq> Some w" "w_next (sm_waiters s w) \<noteq> Some w"
    using dll_no_self [OF d assms(2)] by auto
  have "w \<notin> set (remove1 w xs)"
    using dll_distinct [OF d] by simp
  then have *: "dll (\<lambda>x. w_next (sm_waiters (unlink w s) x)) (\<lambda>x. w_prev (sm_waiters (unlink w s) x))
      (sm_head (unlink w s)) (sm_tail (unlink w s)) (remove1 w xs)"
    using dll_unlink [OF d assms(2)] by (simp add: sem_unlink_fields [OF n])
  moreover have "sm_has_waiters (unlink w s) = (remove1 w xs \<noteq> [])"
    using dll_head [OF *] h assms(2) sem_unlink_fields(5) [OF n] by auto
  ultimately show ?thesis by (simp add: waiter_chain_def)
qed

interpretation waiter_list: intrusive_list waiter_chain link_tail unlink "\<lambda>x xs. xs @ [x]"
proof unfold_locales
  show "waiter_chain s xs \<Longrightarrow> waiter_chain s ys \<Longrightarrow> xs = ys" for s xs ys
    unfolding waiter_chain_def by (blast dest: dll_unique)
  show "waiter_chain s xs \<Longrightarrow> distinct xs" for s xs
    unfolding waiter_chain_def by (blast dest: dll_distinct)
qed (auto intro: waiter_chain_link waiter_chain_unlink simp: remove1_append)

section \<open>The abstract semaphore\<close>

text \<open>
  What granting promises: from the front of the queue, as long as the permits cover what the
  first waiter asks for, hand them over. \<open>spec_grant p q\<close> is the waiters served, the permits
  left and the queue left.
\<close>

fun spec_grant :: "int \<Rightarrow> (nat \<times> int) list \<Rightarrow> nat list \<times> int \<times> (nat \<times> int) list" where
  "spec_grant p [] = ([], p, [])"
| "spec_grant p ((w, n) # q) =
     (if p < n then ([], p, (w, n) # q)
      else case spec_grant (p - n) q of (g, p', q') \<Rightarrow> (w # g, p', q'))"

lemma spec_grant_split:
  "spec_grant p q = (g, p', q') \<Longrightarrow>
   (\<exists>served. q = served @ q' \<and> g = map fst served \<and> p = p' + sum_list (map snd served)) \<and>
   (q' = [] \<or> p' < snd (hd q'))"
proof (induction p q arbitrary: g rule: spec_grant.induct)
  case (1 p)
  then show ?case by simp
next
  case (2 p w n q)
  show ?case
  proof (cases "p < n")
    case True
    with "2.prems" show ?thesis by auto
  next
    case False
    obtain g1 where g: "g = w # g1" and "spec_grant (p - n) q = (g1, p', q')"
      using "2.prems" False by (auto split: prod.splits)
    from "2.IH" [OF False this(2)] obtain served
      where "q = served @ q'" "g1 = map fst served" "p - n = p' + sum_list (map snd served)"
        "q' = [] \<or> p' < snd (hd q')"
      by blast
    with g show ?thesis
      by (intro conjI exI [of _ "(w, n) # served"]) auto
  qed
qed

lemma spec_grant_nonneg:
  "spec_grant p q = (g, p', q') \<Longrightarrow> 0 \<le> p \<Longrightarrow> 0 \<le> p'"
  by (induction p q arbitrary: g rule: spec_grant.induct) (auto split: if_splits prod.splits)

text \<open>
  The permits that concurrent releases add during the failed attempts that a call really makes.
\<close>

fun cas_added :: "cas list \<Rightarrow> int \<Rightarrow> (nat \<times> int) list \<Rightarrow> int" where
  "cas_added [] p q = 0"
| "cas_added cs p [] = 0"
| "cas_added (Cas_fails m # cs) p ((w, n) # q) =
     (if p < n then 0 else m + cas_added cs (p + m) ((w, n) # q))"
| "cas_added (Cas_ok # cs) p ((w, n) # q) = (if p < n then 0 else cas_added cs (p - n) q)"

fun cas_total :: "cas list \<Rightarrow> int" where
  "cas_total [] = 0"
| "cas_total (Cas_fails m # cs) = m + cas_total cs"
| "cas_total (Cas_ok # cs) = cas_total cs"

definition cas_ok :: "cas list \<Rightarrow> bool" where
  "cas_ok cs \<longleftrightarrow> (\<forall>m. Cas_fails m \<in> set cs \<longrightarrow> 0 \<le> m)"

lemma cas_ok_simps [simp]:
  "cas_ok []" "cas_ok (Cas_ok # cs) = cas_ok cs"
  "cas_ok (Cas_fails m # cs) \<longleftrightarrow> 0 \<le> m \<and> cas_ok cs"
  by (auto simp: cas_ok_def)

lemma cas_total_nonneg: "cas_ok cs \<Longrightarrow> 0 \<le> cas_total cs"
  by (induction cs rule: cas_total.induct) auto

lemma cas_added_bounds: "cas_ok cs \<Longrightarrow> 0 \<le> cas_added cs p q \<and> cas_added cs p q \<le> cas_total cs"
  by (induction cs p q rule: cas_added.induct)
    (auto simp: cas_total_nonneg)

section \<open>Granting refines the abstract semaphore\<close>

definition requests :: "sem_state \<Rightarrow> nat list \<Rightarrow> (nat \<times> int) list" where
  "requests s xs = map (\<lambda>w. (w, w_requested (sm_waiters s w))) xs"

lemma requests_simps [simp]:
  "requests s [] = []" "requests s (x # xs) = (x, w_requested (sm_waiters s x)) # requests s xs"
  "requests s (xs @ ys) = requests s xs @ requests s ys"
  by (simp_all add: requests_def)

lemma map_fst_requests [simp]: "map fst (requests s xs) = xs"
  by (simp add: requests_def comp_def)

text \<open>
  What a grant leaves alone, and the one thing it changes in the waiters it serves.
\<close>

definition served :: "nat list \<Rightarrow> sem_state \<Rightarrow> sem_state \<Rightarrow> bool" where
  "served g s s' \<longleftrightarrow> (\<forall>w. wake_of s' w = wake_of s w \<and>
     w_requested (sm_waiters s' w) = w_requested (sm_waiters s w) \<and>
     w_cancelled (sm_waiters s' w) = w_cancelled (sm_waiters s w) \<and>
     w_acquired (sm_waiters s' w) = (w_acquired (sm_waiters s w) \<or> w \<in> set g))"

lemma served_Nil: "served [] s s"
  by (simp add: served_def)

lemma served_trans: "served g s s1 \<Longrightarrow> served h s1 s2 \<Longrightarrow> served (g @ h) s s2"
  by (auto simp: served_def)

lemma served_requests: "served g s s' \<Longrightarrow> requests s' xs = requests s xs"
  by (simp add: requests_def served_def)

lemma fetch_add_simps [simp]:
  "sm_waiters (fetch_add n s) = sm_waiters s" "sm_head (fetch_add n s) = sm_head s"
  "sm_tail (fetch_add n s) = sm_tail s" "sm_has_waiters (fetch_add n s) = sm_has_waiters s"
  "sm_permits (fetch_add n s) = to_ptrdiff (sm_permits s + n)"
  by (simp_all add: fetch_add_def)

lemma fetch_add_chain [simp]: "waiter_chain (fetch_add n s) xs = waiter_chain s xs"
  by (simp add: waiter_chain_def)

lemma fetch_add_requests [simp]: "requests (fetch_add n s) xs = requests s xs"
  by (simp add: requests_def)

lemma fetch_add_served: "served [] s (fetch_add n s)"
  by (simp add: served_def wake_of_def)

text \<open>One turn of the loop that serves the first waiter.\<close>

definition take_first :: "nat \<Rightarrow> sem_state \<Rightarrow> sem_state" where
  "take_first w s = upd_waiter w (\<lambda>r. r\<lparr>w_acquired := True\<rparr>)
     (unlink w (s\<lparr>sm_permits := sm_permits s - w_requested (sm_waiters s w)\<rparr>))"

lemma unlink_permits_update:
  "unlink w (s\<lparr>sm_permits := p\<rparr>) = (unlink w s)\<lparr>sm_permits := p\<rparr>"
  by (cases s) (auto simp: unlink_def Let_def upd_waiter_def split: option.splits)

lemma take_first_served: "served [w] s (take_first w s)"
  by (auto simp: served_def take_first_def wake_of_def)

lemma take_first_permits [simp]:
  "sm_permits (take_first w s) = sm_permits s - w_requested (sm_waiters s w)"
  by (simp add: take_first_def)

lemma take_first_chain:
  assumes "waiter_chain s (w # xs)"
  shows "waiter_chain (take_first w s) xs"
proof -
  have "waiter_chain (unlink w s) xs"
    using waiter_chain_unlink [OF assms, of w] by simp
  moreover have "w \<notin> set xs"
    using waiter_list.chain_distinct [OF assms] by simp
  ultimately show ?thesis
    by (subst waiter_chain_cong [where s' = "unlink w s"])
      (auto simp: take_first_def unlink_permits_update)
qed

lemma grant_step:
  assumes "waiter_chain s (w # xs)"
  shows "grant_locked cap self cs out now s =
    (if sm_permits s < w_requested (sm_waiters s w) then Some (out, now, s)
     else case next_cas cs of
         (Cas_fails n, cs') \<Rightarrow> grant_locked cap self cs' out now (fetch_add n s)
       | (Cas_ok, cs') \<Rightarrow>
           if self = Some w then grant_locked cap self cs' out now (take_first w s)
           else if length out < cap
             then grant_locked cap self cs' (out @ [wake_of s w]) now (take_first w s)
             else grant_locked cap self cs' out (now @ [wake_of s w]) (take_first w s))"
proof -
  have "wake_of (take_first w s) w = wake_of s w"
    using take_first_served by (simp add: served_def)
  then show ?thesis
    using waiter_chain_head [OF assms]
    by (subst grant_locked.simps) (simp add: Let_def take_first_def split: prod.splits cas.splits)
qed

lemma grant_done: "waiter_chain s [] \<Longrightarrow> grant_locked cap self cs out now s = Some (out, now, s)"
  using waiter_chain_head [of s "[]"] by (subst grant_locked.simps) simp

text \<open>
  The loop computes the abstract grant of the permits there are plus those that concurrent
  releases add while it runs; the buffer takes the first coroutines, up to its capacity, and
  the rest is scheduled on the spot. The first definition is the result the specification
  prescribes: which coroutines are served, what is left, and where the wake-ups go.
\<close>

definition grants_as ::
    "nat \<Rightarrow> nat option \<Rightarrow> sem_state \<Rightarrow> nat list \<times> int \<times> (nat \<times> int) list \<Rightarrow> wake list \<Rightarrow>
      wake list \<Rightarrow> (wake list \<times> wake list \<times> sem_state) option \<Rightarrow> bool" where
  "grants_as cap self s spec out now r \<longleftrightarrow> (case spec of (g, p', q') \<Rightarrow>
     let ks = map (wake_of s) (filter (\<lambda>w. self \<noteq> Some w) g)
     in \<exists>s'. r = Some (out @ take (cap - length out) ks, now @ drop (cap - length out) ks, s') \<and>
          waiter_chain s' (map fst q') \<and> sm_permits s' = p' \<and> served g s s')"

definition grant_total :: "cas list \<Rightarrow> sem_state \<Rightarrow> nat list \<Rightarrow> int" where
  "grant_total cs s xs = sm_permits s + cas_added cs (sm_permits s) (requests s xs)"

text \<open>Permits that a concurrent release adds do not change what remains to be shown.\<close>

lemma grants_as_fetch_add:
  "grants_as cap self (fetch_add m s) spec out now r \<Longrightarrow> grants_as cap self s spec out now r"
proof -
  have "wake_of (fetch_add m s) = wake_of s" by (simp add: wake_of_def fun_eq_iff)
  moreover have "served g (fetch_add m s) s' \<Longrightarrow> served g s s'" for g s'
    using served_trans [OF fetch_add_served, of g m s s'] by simp
  ultimately show "grants_as cap self (fetch_add m s) spec out now r \<Longrightarrow> ?thesis"
    by (fastforce simp: grants_as_def Let_def split: prod.splits)
qed

text \<open>Serving the first waiter turns the result for the rest into the result for all.\<close>

lemma grants_as_take_first:
  assumes "grants_as cap self (take_first w s) (g, p', q') out' now' r"
    and "(out', now') =
      (if self = Some w then (out, now)
       else if length out < cap then (out @ [wake_of s w], now) else (out, now @ [wake_of s w]))"
  shows "grants_as cap self s (w # g, p', q') out now r"
proof -
  have sv: "served [w] s (take_first w s)" by (rule take_first_served)
  then have wo: "wake_of (take_first w s) = wake_of s" by (simp add: served_def fun_eq_iff)
  have whole: "served (w # g) s s'" if "served g (take_first w s) s'" for s'
    using served_trans [OF sv that] by simp
  consider "self = Some w" | "self \<noteq> Some w" "length out < cap" | "self \<noteq> Some w" "\<not> length out < cap"
    by blast
  then show ?thesis
  proof cases
    case 1
    with assms wo whole show ?thesis by (auto simp: grants_as_def Let_def)
  next
    case 2
    with assms wo whole show ?thesis
      by (auto simp: grants_as_def Let_def Suc_diff_Suc take_Cons' drop_Cons' Suc_le_eq)
  next
    case 3
    with assms wo whole show ?thesis by (auto simp: grants_as_def Let_def)
  qed
qed

lemma grant_total_stop: "sm_permits s < w_requested (sm_waiters s w) \<Longrightarrow>
    grant_total cs s (w # ws) = sm_permits s"
  by (cases cs rule: cas_total.cases) (auto simp: grant_total_def)

lemma grant_total_fails:
  assumes "\<not> sm_permits s < w_requested (sm_waiters s w)"
    and "sm_permits (fetch_add m s) = sm_permits s + m"
  shows "grant_total cs (fetch_add m s) (w # ws) = grant_total (Cas_fails m # cs) s (w # ws)"
  using assms by (simp add: grant_total_def add.assoc)

lemma grant_total_ok:
  assumes "\<not> sm_permits s < w_requested (sm_waiters s w)" and "cas_ok cs"
    and "\<nexists>m cs'. cs = Cas_fails m # cs'"
  obtains cs' where "next_cas cs = (Cas_ok, cs')" "length cs' \<le> length cs"
    "cas_total cs' = cas_total cs" "cas_ok cs'"
    "grant_total cs s (w # ws) = w_requested (sm_waiters s w) + grant_total cs' (take_first w s) ws"
proof -
  let ?n = "w_requested (sm_waiters s w)"
  have "requests (take_first w s) ws = requests s ws"
    by (rule served_requests [OF take_first_served])
  moreover obtain cs' where "next_cas cs = (Cas_ok, cs')" "length cs' \<le> length cs"
      "cas_total cs' = cas_total cs" "cas_ok cs'"
      "cas_added cs (sm_permits s) (requests s (w # ws)) =
        cas_added cs' (sm_permits s - ?n) (requests s ws)"
    using assms by (cases cs rule: cas_total.cases) auto
  ultimately show thesis
    using that by (simp add: grant_total_def)
qed

lemma spec_grant_first:
  "n \<le> n + p \<Longrightarrow> spec_grant (n + p) ((w, n) # q) = (case spec_grant p q of (g, r) \<Rightarrow> (w # g, r))"
  by (simp split: prod.splits)

lemma grant_refines:
  assumes "waiter_chain s xs" and "cas_ok cs"
    and "\<forall>w \<in> set xs. 0 \<le> w_requested (sm_waiters s w)"
    and "0 \<le> sm_permits s" and "sm_permits s + cas_total cs \<le> ptrdiff_max"
  shows "grants_as cap self s (spec_grant (grant_total cs s xs) (requests s xs)) out now
    (grant_locked cap self cs out now s)"
  using assms
proof (induction "length cs + length xs" arbitrary: cs xs s out now rule: less_induct)
  case less
  show ?case
  proof (cases xs)
    case Nil
    with less.prems show ?thesis
      by (cases cs) (auto simp: grant_done served_Nil grants_as_def grant_total_def)
  next
    case (Cons w ws)
    let ?n = "w_requested (sm_waiters s w)"
    have chain: "waiter_chain s (w # ws)" and pos: "0 \<le> ?n"
      using less.prems(1,3) Cons by simp_all
    note step = grant_step [OF chain, of cap self cs out now]
    consider (stop) "sm_permits s < ?n"
      | (fails) m cs' where "\<not> sm_permits s < ?n" "cs = Cas_fails m # cs'"
      | (ok) "\<not> sm_permits s < ?n" "\<nexists>m cs'. cs = Cas_fails m # cs'"
      by blast
    then show ?thesis
    proof cases
      case stop
      with less.prems(1) step Cons show ?thesis
        by (auto simp: served_Nil grants_as_def grant_total_stop)
    next
      case fails
      have m: "0 \<le> m" "cas_ok cs'" "0 \<le> cas_total cs'"
        using less.prems(2) fails(2) cas_total_nonneg [of cs'] by auto
      then have p: "sm_permits (fetch_add m s) = sm_permits s + m"
        using less.prems(4,5) fails(2) by (simp add: fits_ptrdiff_def ptrdiff_max_def)
      have "grants_as cap self (fetch_add m s) (spec_grant (grant_total cs' (fetch_add m s) xs)
          (requests (fetch_add m s) xs)) out now (grant_locked cap self cs' out now (fetch_add m s))"
        using less.prems m fails(2) p by (intro less.hyps) auto
      with step fails p Cons show ?thesis
        using grant_total_fails [OF fails(1) p, of cs' ws] by (auto dest: grants_as_fetch_add)
    next
      case ok
      from ok(1) less.prems(2) ok(2) obtain cs' where nc: "next_cas cs = (Cas_ok, cs')"
          "length cs' \<le> length cs" "cas_total cs' = cas_total cs" "cas_ok cs'"
          "grant_total cs s (w # ws) = ?n + grant_total cs' (take_first w s) ws"
        by (rule grant_total_ok)
      note sv = take_first_served [of w s]
      obtain g p' q' where sp: "spec_grant (grant_total cs' (take_first w s) ws)
          (requests (take_first w s) ws) = (g, p', q')"
        by (cases "spec_grant (grant_total cs' (take_first w s) ws) (requests (take_first w s) ws)")
      have IH: "grants_as cap self (take_first w s) (g, p', q') out' now'
          (grant_locked cap self cs' out' now' (take_first w s))" for out' now'
        unfolding sp [symmetric] using less.prems Cons nc pos ok(1) sv take_first_chain [OF chain]
        by (intro less.hyps) (auto simp: served_def)
      have "0 \<le> grant_total cs' (take_first w s) ws"
        using cas_added_bounds [OF nc(4)] ok(1) by (simp add: grant_total_def)
      then have "spec_grant (grant_total cs s xs) (requests s xs) = (w # g, p', q')"
        using nc(5) Cons sp served_requests [OF sv] spec_grant_first by simp
      then show ?thesis
        using step ok(1) nc(1) grants_as_take_first [OF IH, where out = out and now = now]
        by (cases "self = Some w") simp_all
    qed
  qed
qed

section \<open>The invariant\<close>

definition sem_inv_on :: "nat list \<Rightarrow> sem_state \<Rightarrow> bool" where
  "sem_inv_on xs s \<longleftrightarrow> waiter_chain s xs \<and>
     (\<forall>w \<in> set xs. \<not> w_acquired (sm_waiters s w) \<and> \<not> w_cancelled (sm_waiters s w) \<and>
        0 \<le> w_requested (sm_waiters s w)) \<and>
     distinct (map (wake_of s) xs) \<and> 0 \<le> sm_permits s \<and> sm_permits s \<le> ptrdiff_max"

definition sem_inv :: "sem_state \<Rightarrow> bool" where
  "sem_inv s \<longleftrightarrow> (\<exists>xs. sem_inv_on xs s)"

definition queued :: "sem_state \<Rightarrow> nat \<Rightarrow> bool" where
  "queued s w \<longleftrightarrow> (\<exists>xs. waiter_chain s xs \<and> w \<in> set xs)"

lemma queued_iff: "waiter_chain s xs \<Longrightarrow> queued s w \<longleftrightarrow> w \<in> set xs"
  unfolding queued_def using waiter_list.chain_unique by blast

text \<open>A semaphore is settled when it does not keep a waiter it could serve.\<close>

definition settled_on :: "nat list \<Rightarrow> sem_state \<Rightarrow> bool" where
  "settled_on xs s \<longleftrightarrow> xs = [] \<or> sm_permits s < w_requested (sm_waiters s (hd xs))"

definition settled :: "sem_state \<Rightarrow> bool" where
  "settled s \<longleftrightarrow> (case sm_head s of None \<Rightarrow> True | Some w \<Rightarrow> sm_permits s < w_requested (sm_waiters s w))"

lemma settled_iff: "waiter_chain s xs \<Longrightarrow> settled s = settled_on xs s"
  using waiter_chain_head [of s xs] by (cases xs) (simp_all add: settled_def settled_on_def)

definition needs :: "sem_state \<Rightarrow> nat list \<Rightarrow> int" where
  "needs s g = sum_list (map (\<lambda>w. w_requested (sm_waiters s w)) g)"

lemma requests_append_inv:
  assumes "requests s xs = sv @ q'"
  shows "\<exists>g rest. xs = g @ rest \<and> map fst sv = g \<and> map fst q' = rest \<and>
    sum_list (map snd sv) = needs s g \<and> q' = requests s rest"
proof -
  obtain g rest where "xs = g @ rest" "sv = requests s g" "q' = requests s rest"
    using assms unfolding requests_def by (auto simp: map_eq_append_conv)
  then show ?thesis
    by (auto simp: requests_def needs_def comp_def)
qed

text \<open>
  Everything the callers of the grant loop need: it returns, it serves a prefix of the queue
  in order, it stops at a waiter it cannot serve, the permits add up, and it wakes exactly
  those it served, the caller's own waiter excepted.
\<close>

lemma grant_and_wake_result:
  assumes "waiter_chain s xs" and "cas_ok cs"
    and "\<forall>w \<in> set xs. 0 \<le> w_requested (sm_waiters s w)"
    and "0 \<le> sm_permits s" and "sm_permits s + cas_total cs \<le> ptrdiff_max"
  obtains g rest s' ks where
    "xs = g @ rest" "ks = map (wake_of s) (filter (\<lambda>w. self \<noteq> Some w) g)"
    "grant_and_wake self cs s = Some (s', drop 16 ks @ take 16 ks)"
    "waiter_chain s' rest" "served g s s'" "settled_on rest s'"
    "sm_permits s' + needs s g = sm_permits s + cas_added cs (sm_permits s) (requests s xs)"
    "0 \<le> sm_permits s'" "sm_permits s' \<le> ptrdiff_max"
proof -
  let ?p = "sm_permits s + cas_added cs (sm_permits s) (requests s xs)"
  obtain g p' q' where sp: "spec_grant ?p (requests s xs) = (g, p', q')"
    by (cases "spec_grant ?p (requests s xs)") auto
  obtain sv where sv: "requests s xs = sv @ q'" "g = map fst sv" "?p = p' + sum_list (map snd sv)"
      and st: "q' = [] \<or> p' < snd (hd q')"
    using spec_grant_split [OF sp] by blast
  obtain rest where rest: "xs = g @ rest" "map fst q' = rest" "sum_list (map snd sv) = needs s g"
      "q' = requests s rest"
    using requests_append_inv [OF sv(1)] sv(2) by auto
  define ks where "ks = map (wake_of s) (filter (\<lambda>w. self \<noteq> Some w) g)"
  obtain s' where s': "grant_locked 16 self cs [] [] s = Some (take 16 ks, drop 16 ks, s')"
      "waiter_chain s' rest" "sm_permits s' = p'" "served g s s'"
    using grant_refines [OF assms, of 16 self "[]" "[]"] sp rest(2)
    by (auto simp: grants_as_def grant_total_def ks_def Let_def)
  have "settled_on rest s'"
    using st rest(4) s'(3,4) by (cases rest) (auto simp: settled_on_def served_def)
  moreover have bound: "0 \<le> cas_added cs (sm_permits s) (requests s xs)"
      "cas_added cs (sm_permits s) (requests s xs) \<le> cas_total cs"
    using cas_added_bounds [OF assms(2)] by auto
  moreover have "0 \<le> p'"
    using spec_grant_nonneg [OF sp] assms(4) bound(1) by simp
  moreover have "0 \<le> needs s g"
    using assms(3) rest(1) by (auto simp: needs_def intro!: sum_list_nonneg)
  ultimately show thesis
    using that [OF rest(1) ks_def _ s'(2,4)] s' sv(3) rest(3) assms(5)
    by (simp add: grant_and_wake_def)
qed

lemma count_drop_take: "count_list (drop n ks) k + count_list (take n ks) k = count_list ks k"
  by (metis append_take_drop_id count_list_append add.commute)

lemma count_list_distinct_map:
  "distinct (map f xs) \<Longrightarrow> count_list (map f xs) k = of_bool (k \<in> f ` set xs)"
  by (induction xs) (auto simp: image_iff)

section \<open>Histories of one semaphore\<close>

text \<open>
  What can happen to a semaphore: somebody tries to acquire, releases, an awaiter enqueues
  its waiter, the callback of an awaiter's guard runs, an awaiter is destroyed while it is
  enqueued. The callback schedules the coroutine if it has cancelled the waiter.
\<close>

datatype sem_op =
    S_try nat "cas list"
  | S_release nat "cas list"
  | S_enqueue nat "cas list"
  | S_cancel nat
  | S_destroy nat "cas list"

fun sem_exec :: "sem_op \<Rightarrow> sem_state \<Rightarrow> (sem_state \<times> wake list) option" where
  "sem_exec (S_try n cs) s = Some (snd (try_acquire cs n s), [])"
| "sem_exec (S_release n cs) s = release cs n s"
| "sem_exec (S_enqueue w cs) s = map_option snd (try_acquire_or_enqueue cs w s)"
| "sem_exec (S_cancel w) s =
     (case try_cancel_waiter w s of (b, s') \<Rightarrow> Some (s', if b then [wake_of s' w] else []))"
| "sem_exec (S_destroy w cs) s = dequeue_or_return cs w s"

definition sem_step :: "sem_op \<Rightarrow> sem_state \<Rightarrow> sem_state \<times> wake list" where
  "sem_step e s = (case sem_exec e s of Some r \<Rightarrow> r | None \<Rightarrow> (s, []))"

text \<open>
  The circumstances under which the operations are called: the count never passes
  \<open>ptrdiff_max\<close>, a waiter is enqueued once and its coroutine waits for nothing else, and the
  callback and the destructor find their waiter enqueued or already resolved. The last does not always
  hold of the callback: it can run after the guard was armed and before the waiter is linked, and what comes of it is
  in the corners of \<open>Acquire\<close> and \<open>Semaphore_Laws\<close> (\<open>cancel_before_enqueue_resumes_twice\<close>,
  \<open>cancel_before_enqueue_empties_queue\<close>).
  Histories with such a callback are not among those of \<open>sem_ok\<close>.
\<close>

definition no_overflow :: "int \<Rightarrow> cas list \<Rightarrow> sem_state \<Rightarrow> bool" where
  "no_overflow n cs s \<longleftrightarrow> cas_ok cs \<and> 0 \<le> n \<and> sm_permits s + n + cas_total cs \<le> ptrdiff_max"

definition linked_or_resolved :: "nat \<Rightarrow> sem_state \<Rightarrow> bool" where
  "linked_or_resolved w s \<longleftrightarrow>
     queued s w \<or> w_acquired (sm_waiters s w) \<or> w_cancelled (sm_waiters s w)"

fun sem_ok :: "sem_op \<Rightarrow> sem_state \<Rightarrow> bool" where
  "sem_ok (S_try n cs) s \<longleftrightarrow> no_overflow 0 cs s \<and> int n \<le> ptrdiff_max"
| "sem_ok (S_release n cs) s \<longleftrightarrow> no_overflow (int n) cs s"
| "sem_ok (S_enqueue w cs) s \<longleftrightarrow> no_overflow 0 cs s \<and> \<not> linked_or_resolved w s \<and>
     0 \<le> w_requested (sm_waiters s w) \<and> (\<forall>v. queued s v \<longrightarrow> wake_of s v \<noteq> wake_of s w)"
| "sem_ok (S_cancel w) s \<longleftrightarrow> linked_or_resolved w s"
| "sem_ok (S_destroy w cs) s \<longleftrightarrow> linked_or_resolved w s \<and>
     no_overflow (w_requested (sm_waiters s w)) cs s"

fun sem_enrols :: "sem_op \<Rightarrow> sem_state \<Rightarrow> wake \<Rightarrow> bool" where
  "sem_enrols (S_enqueue w cs) s k \<longleftrightarrow>
     k = wake_of s w \<and> map_option fst (try_acquire_or_enqueue cs w s) = Some False"
| "sem_enrols _ s k \<longleftrightarrow> False"

fun sem_drops :: "sem_op \<Rightarrow> sem_state \<Rightarrow> wake \<Rightarrow> bool" where
  "sem_drops (S_destroy w cs) s k \<longleftrightarrow> queued s w \<and> k = wake_of s w"
| "sem_drops _ s k \<longleftrightarrow> False"

definition sem_waiting :: "sem_state \<Rightarrow> wake \<Rightarrow> bool" where
  "sem_waiting s k \<longleftrightarrow> (\<exists>w. queued s w \<and> wake_of s w = k)"

lemma sem_waiting_iff: "waiter_chain s xs \<Longrightarrow> sem_waiting s k \<longleftrightarrow> k \<in> wake_of s ` set xs"
  by (auto simp: sem_waiting_def queued_iff)

section \<open>What each operation does\<close>

lemma fits_range: "0 \<le> n \<Longrightarrow> n \<le> ptrdiff_max \<Longrightarrow> fits_ptrdiff n"
  by (simp add: fits_ptrdiff_def ptrdiff_max_def)

lemma served_sem_inv:
  assumes "sem_inv_on (g @ rest) s" and "served g s s'" and "waiter_chain s' rest"
    and "0 \<le> sm_permits s'" and "sm_permits s' \<le> ptrdiff_max"
  shows "sem_inv_on rest s'"
proof -
  have d: "distinct (g @ rest)"
    using assms(1) waiter_list.chain_distinct [of s "g @ rest"] by (simp add: sem_inv_on_def)
  have "wake_of s' = wake_of s"
    using assms(2) by (auto simp: served_def)
  then show ?thesis
    using assms d by (auto simp: sem_inv_on_def served_def)
qed

lemma sem_inv_link:
  assumes "sem_inv_on xs s" and "\<not> linked_or_resolved w s" and "0 \<le> w_requested (sm_waiters s w)"
    and "\<forall>v. queued s v \<longrightarrow> wake_of s v \<noteq> wake_of s w"
  shows "sem_inv_on (xs @ [w]) (link_tail w s)"
proof -
  have c: "waiter_chain s xs" using assms(1) by (simp add: sem_inv_on_def)
  have w: "w \<notin> set xs"
    using assms(2) queued_iff [OF c] by (simp add: linked_or_resolved_def)
  have "wake_of (link_tail w s) = wake_of s"
    by (simp add: wake_of_def fun_eq_iff)
  then show ?thesis
    using assms w waiter_chain_link [OF c w] queued_iff [OF c]
    by (auto simp: sem_inv_on_def linked_or_resolved_def)
qed

lemma sem_inv_unlink:
  assumes "sem_inv_on xs s" and "w \<in> set xs"
  shows "sem_inv_on (remove1 w xs) (unlink w s)"
proof -
  have c: "waiter_chain s xs" using assms(1) by (simp add: sem_inv_on_def)
  have "wake_of (unlink w s) = wake_of s"
    by (simp add: wake_of_def fun_eq_iff)
  moreover have "distinct (map (wake_of s) (remove1 w xs))"
    using assms(1) by (auto simp: sem_inv_on_def distinct_map inj_on_def dest: notin_set_remove1 set_remove1_subset [THEN subsetD])
  ultimately show ?thesis
    using assms waiter_chain_unlink [OF c assms(2)] set_remove1_subset [of w xs]
    by (auto simp: sem_inv_on_def)
qed

lemma fetch_add_sem_inv:
  assumes "sem_inv_on xs s" and "0 \<le> n" and "sm_permits s + n \<le> ptrdiff_max"
  shows "sem_inv_on xs (fetch_add n s)" and "sm_permits (fetch_add n s) = sm_permits s + n"
proof -
  show p: "sm_permits (fetch_add n s) = sm_permits s + n"
    using assms by (simp add: fits_range sem_inv_on_def)
  then show "sem_inv_on xs (fetch_add n s)"
    using assms by (simp add: sem_inv_on_def wake_of_def fun_eq_iff del: fetch_add_simps(5))
      (simp add: wake_of_def [abs_def])
qed

lemma grant_effect:
  assumes "sem_inv_on xs s" and "cas_ok cs" and "sm_permits s + cas_total cs \<le> ptrdiff_max"
  obtains g rest s' ks where
    "xs = g @ rest" "ks = map (wake_of s) (filter (\<lambda>w. self \<noteq> Some w) g)"
    "grant_and_wake self cs s = Some (s', drop 16 ks @ take 16 ks)"
    "sem_inv_on rest s'" "served g s s'" "settled_on rest s'"
    "sm_permits s' + needs s g = sm_permits s + cas_added cs (sm_permits s) (requests s xs)"
proof -
  have p: "waiter_chain s xs" "\<forall>w \<in> set xs. 0 \<le> w_requested (sm_waiters s w)" "0 \<le> sm_permits s"
    using assms(1) by (simp_all add: sem_inv_on_def)
  obtain g rest s' ks where r: "xs = g @ rest"
      "ks = map (wake_of s) (filter (\<lambda>w. self \<noteq> Some w) g)"
      "grant_and_wake self cs s = Some (s', drop 16 ks @ take 16 ks)"
      "waiter_chain s' rest" "served g s s'" "settled_on rest s'"
      "sm_permits s' + needs s g = sm_permits s + cas_added cs (sm_permits s) (requests s xs)"
      "0 \<le> sm_permits s'" "sm_permits s' \<le> ptrdiff_max"
    by (rule grant_and_wake_result [OF p(1) assms(2) p(2,3) assms(3)])
  have "sem_inv_on rest s'"
    using assms(1) r(1) by (intro served_sem_inv [OF _ r(5,4,8,9)]) simp
  with r show thesis using that by blast
qed

text \<open>
  One statement for the four operations that can grant: the queue before the grant is the
  list \<open>ys\<close>, of which a prefix \<open>g\<close> is served.
\<close>

definition grants :: "nat option \<Rightarrow> nat list \<Rightarrow> sem_state \<Rightarrow> sem_state \<times> wake list \<Rightarrow> nat list \<Rightarrow> nat list \<Rightarrow> bool" where
  "grants self ys s r g rest \<longleftrightarrow> (case r of (s', k) \<Rightarrow>
     ys = g @ rest \<and> sem_inv_on rest s' \<and> served g s s' \<and>
     k = drop 16 (map (wake_of s) (filter (\<lambda>w. self \<noteq> Some w) g)) @
         take 16 (map (wake_of s) (filter (\<lambda>w. self \<noteq> Some w) g)))"

lemma grants_balance:
  assumes "grants self ys s (s', k) g rest" and "distinct (map (wake_of s) ys)"
  shows "count_list k x + of_bool (sem_waiting s' x) =
    of_bool (x \<in> wake_of s ` (set ys - (case self of None \<Rightarrow> {} | Some w \<Rightarrow> {w} \<inter> set g)))"
proof -
  have ys: "ys = g @ rest" and inv: "sem_inv_on rest s'" and sv: "served g s s'"
    and k: "count_list k x = count_list (map (wake_of s) (filter (\<lambda>w. self \<noteq> Some w) g)) x"
    using assms(1) by (auto simp: grants_def count_drop_take)
  have d: "inj_on (wake_of s) (set ys)" "distinct ys"
    using assms(2) by (auto simp: distinct_map)
  have "wake_of s' = wake_of s"
    using sv by (auto simp: served_def)
  then have w: "sem_waiting s' x \<longleftrightarrow> x \<in> wake_of s ` set rest"
    using inv by (simp add: sem_waiting_iff [of s' rest] sem_inv_on_def)
  have "distinct (map (wake_of s) (filter (\<lambda>w. self \<noteq> Some w) g))"
    using d ys by (auto simp: distinct_map inj_on_def)
  then have c: "count_list k x = of_bool (x \<in> wake_of s ` {w \<in> set g. self \<noteq> Some w})"
    using k by (simp add: count_list_distinct_map)
  show ?thesis
    using w c d ys by (cases self) (auto simp: inj_on_def of_bool_def image_iff)
qed

lemma release_unlocked:
  assumes inv: "sem_inv_on xs s" and ok: "no_overflow (int n) cs s" and n: "0 < n"
  shows "release cs n s = (if xs = [] then Some (fetch_add (int n) s, [])
      else grant_and_wake None cs (fetch_add (int n) s))"
    and "sem_inv_on xs (fetch_add (int n) s)" and "sm_permits (fetch_add (int n) s) = sm_permits s + int n"
proof -
  have b: "0 \<le> cas_total cs" "sm_permits s + int n + cas_total cs \<le> ptrdiff_max" "0 \<le> sm_permits s"
    using ok inv cas_total_nonneg by (auto simp: no_overflow_def sem_inv_on_def)
  then have "to_ptrdiff (int n) = int n"
    by (intro to_ptrdiff_id fits_range) auto
  then show "release cs n s = (if xs = [] then Some (fetch_add (int n) s, [])
      else grant_and_wake None cs (fetch_add (int n) s))"
    using inv n by (auto simp: release_def sem_inv_on_def waiter_chain_def Let_def)
  show "sem_inv_on xs (fetch_add (int n) s)" "sm_permits (fetch_add (int n) s) = sm_permits s + int n"
    using fetch_add_sem_inv [OF inv, of "int n"] b by auto
qed

lemma release_effect:
  assumes inv: "sem_inv_on xs s" and ok: "no_overflow (int n) cs s"
  shows "\<exists>r g rest a. release cs n s = Some r \<and> grants None xs s r g rest \<and> 0 \<le> a \<and>
    a \<le> cas_total cs \<and>
    sm_permits (fst r) + needs s g = sm_permits s + int n + a \<and>
    (settled_on xs s \<or> 0 < n \<longrightarrow> settled_on rest (fst r))"
proof -
  have cs: "cas_ok cs" "0 \<le> cas_total cs" "sm_permits s + int n + cas_total cs \<le> ptrdiff_max"
    using ok cas_total_nonneg by (auto simp: no_overflow_def)
  let ?s = "fetch_add (int n) s"
  have same: "wake_of ?s = wake_of s" "\<And>g. needs ?s g = needs s g" "\<And>g s'. served g ?s s' = served g s s'"
    by (auto simp: wake_of_def needs_def served_def fun_eq_iff)
  consider "n = 0" | "0 < n" "xs = []" | "0 < n" "xs \<noteq> []" by blast
  then show ?thesis
  proof cases
    case 1
    with inv cs(2) show ?thesis
      by (intro exI [of _ "(s, [])"] exI [of _ "[]"] exI [of _ xs] exI [of _ 0])
        (auto simp: release_def grants_def served_Nil needs_def)
  next
    case 2
    note s1 = release_unlocked [OF inv ok 2(1)]
    from 2 s1 cs(2) show ?thesis
      using served_trans [OF served_Nil fetch_add_served]
      by (intro exI [of _ "(?s, [])"] exI [of _ "[]"] exI [of _ "[]"] exI [of _ 0])
        (auto simp: grants_def needs_def settled_on_def)
  next
    case 3
    note s1 = release_unlocked [OF inv ok 3(1)]
    have "sm_permits ?s + cas_total cs \<le> ptrdiff_max" using s1(3) cs(3) by simp
    from grant_effect [OF s1(2) cs(1) this, of None] obtain g rest s' ks where r:
      "xs = g @ rest" "ks = map (wake_of ?s) (filter (\<lambda>w. None \<noteq> Some w) g)"
      "grant_and_wake None cs ?s = Some (s', drop 16 ks @ take 16 ks)"
      "sem_inv_on rest s'" "served g ?s s'" "settled_on rest s'"
      "sm_permits s' + needs ?s g = sm_permits ?s + cas_added cs (sm_permits ?s) (requests ?s xs)"
      by metis
    then show ?thesis
      using 3 s1(1,3) same cas_added_bounds [OF cs(1)]
      by (intro exI [of _ "(s', drop 16 ks @ take 16 ks)"] exI [of _ g] exI [of _ rest]
            exI [of _ "cas_added cs (sm_permits ?s) (requests ?s xs)"])
        (auto simp: grants_def)
  qed
qed

lemma enqueue_effect:
  assumes inv: "sem_inv_on xs s" and ok: "sem_ok (S_enqueue w cs) s"
  shows "\<exists>r g rest a. try_acquire_or_enqueue cs w s = Some (w \<in> set g, r) \<and>
    grants (Some w) (xs @ [w]) s r g rest \<and> 0 \<le> a \<and> a \<le> cas_total cs \<and>
    sm_permits (fst r) + needs s g = sm_permits s + a \<and> settled_on rest (fst r)"
proof -
  let ?s = "link_tail w s"
  have link: "sem_inv_on (xs @ [w]) ?s"
    using inv ok by (intro sem_inv_link) auto
  have cs: "cas_ok cs" "sm_permits ?s + cas_total cs \<le> ptrdiff_max"
    using ok by (simp_all add: no_overflow_def)
  from grant_effect [OF link cs, of "Some w"] obtain g rest s' ks where r:
    "xs @ [w] = g @ rest" "ks = map (wake_of ?s) (filter (\<lambda>v. Some w \<noteq> Some v) g)"
    "grant_and_wake (Some w) cs ?s = Some (s', drop 16 ks @ take 16 ks)"
    "sem_inv_on rest s'" "served g ?s s'" "settled_on rest s'"
    "sm_permits s' + needs ?s g = sm_permits ?s + cas_added cs (sm_permits ?s) (requests ?s (xs @ [w]))"
    by metis
  have same: "wake_of ?s = wake_of s" "needs ?s g = needs s g" "served g s s'"
    using r(5) by (auto simp: wake_of_def needs_def served_def fun_eq_iff)
  have "w_acquired (sm_waiters s' w) = (w \<in> set g)"
    using r(5) ok by (auto simp: served_def linked_or_resolved_def)
  with r same cas_added_bounds [OF cs(1)] show ?thesis
    by (intro exI [of _ "(s', drop 16 ks @ take 16 ks)"] exI [of _ g] exI [of _ rest]
          exI [of _ "cas_added cs (sm_permits ?s) (requests ?s (xs @ [w]))"])
      (auto simp: try_acquire_or_enqueue_def grants_def)
qed

lemma destroy_acquired_effect:
  assumes inv: "sem_inv_on xs s" and ok: "sem_ok (S_destroy w cs) s"
    and acq: "w_acquired (sm_waiters s w)" "\<not> w_cancelled (sm_waiters s w)"
  shows "\<exists>r g rest a. dequeue_or_return cs w s = Some r \<and> grants None xs s r g rest \<and> 0 \<le> a \<and>
    a \<le> cas_total cs \<and>
    sm_permits (fst r) + needs s g = sm_permits s + w_requested (sm_waiters s w) + a \<and>
    settled_on rest (fst r)"
proof -
  let ?n = "w_requested (sm_waiters s w)"
  let ?s = "fetch_add ?n s"
  have n: "cas_ok cs" "0 \<le> cas_total cs" "sm_permits s + ?n + cas_total cs \<le> ptrdiff_max" "0 \<le> ?n"
    using ok cas_total_nonneg by (auto simp: no_overflow_def)
  have s1: "sem_inv_on xs ?s" "sm_permits ?s = sm_permits s + ?n"
    using fetch_add_sem_inv [OF inv n(4)] n by auto
  have same: "wake_of ?s = wake_of s" "\<And>g. needs ?s g = needs s g" "\<And>g s'. served g ?s s' = served g s s'"
    by (auto simp: wake_of_def needs_def served_def fun_eq_iff)
  have "sm_permits ?s + cas_total cs \<le> ptrdiff_max" using s1 n by simp
  from grant_effect [OF s1(1) n(1) this, of None] obtain g rest s' ks where r:
    "xs = g @ rest" "ks = map (wake_of ?s) (filter (\<lambda>w. None \<noteq> Some w) g)"
    "grant_and_wake None cs ?s = Some (s', drop 16 ks @ take 16 ks)"
    "sem_inv_on rest s'" "served g ?s s'" "settled_on rest s'"
    "sm_permits s' + needs ?s g = sm_permits ?s + cas_added cs (sm_permits ?s) (requests ?s xs)"
    by metis
  then show ?thesis
    using s1(2) same acq cas_added_bounds [OF n(1)]
    by (intro exI [of _ "(s', drop 16 ks @ take 16 ks)"] exI [of _ g] exI [of _ rest]
          exI [of _ "cas_added cs (sm_permits ?s) (requests ?s xs)"])
      (auto simp: dequeue_or_return_def grants_def)
qed

lemma try_acquire_loop_effect:
  assumes "sem_inv_on [] s" and "0 \<le> need" and "cas_ok cs"
    and "sm_permits s + cas_total cs \<le> ptrdiff_max" and "try_acquire_loop need cs s = (b, s')"
  shows "sem_inv_on [] s' \<and> wake_of s' = wake_of s \<and> sm_waiters s' = sm_waiters s \<and>
    (\<exists>a \<ge> 0. a \<le> cas_total cs \<and> sm_permits s' + (if b then need else 0) = sm_permits s + a)"
  using assms
proof (induction need cs s rule: try_acquire_loop.induct)
  case (1 need k cs s)
  show ?case
  proof (cases "sm_permits s < need")
    case True
    with "1.prems" show ?thesis by (auto intro!: exI [of _ 0] simp: cas_total_nonneg)
  next
    case False
    have k: "0 \<le> k" "cas_ok cs" "0 \<le> cas_total cs"
      using "1.prems"(3) cas_total_nonneg by auto
    note f = fetch_add_sem_inv [OF "1.prems"(1) k(1)]
    have p: "sm_permits s + k \<le> ptrdiff_max"
      using "1.prems"(4) k by simp
    have "sm_permits (fetch_add k s) + cas_total cs \<le> ptrdiff_max"
      using f(2) [OF p] "1.prems"(4) by simp
    moreover have "try_acquire_loop need cs (fetch_add k s) = (b, s')"
      using "1.prems"(5) False by simp
    ultimately obtain a where "sem_inv_on [] s'" "wake_of s' = wake_of (fetch_add k s)"
        "sm_waiters s' = sm_waiters s" "0 \<le> a" "a \<le> cas_total cs"
        "sm_permits s' + (if b then need else 0) = sm_permits (fetch_add k s) + a"
      using "1.IH" [OF False f(1) [OF p] "1.prems"(2) k(2)] by auto
    with f(2) [OF p] k show ?thesis
      by (auto simp: wake_of_def fun_eq_iff intro!: exI [of _ "k + a"])
  qed
qed (auto simp: sem_inv_on_def waiter_chain_def wake_of_def fun_eq_iff cas_total_nonneg
    split: if_splits intro!: exI [of _ 0])

lemma try_acquire_effect:
  assumes inv: "sem_inv_on xs s" and ok: "sem_ok (S_try n cs) s" and t: "try_acquire cs n s = (b, s')"
  shows "sem_inv_on xs s' \<and> wake_of s' = wake_of s \<and> sm_waiters s' = sm_waiters s \<and>
    (b \<and> 0 < n \<longrightarrow> xs = []) \<and> (settled_on xs s \<longrightarrow> settled_on xs s') \<and>
    (\<exists>a \<ge> 0. a \<le> cas_total cs \<and> sm_permits s' + (if b then int n else 0) = sm_permits s + a)"
proof -
  have c: "waiter_chain s xs" using inv by (simp add: sem_inv_on_def)
  have cs: "cas_ok cs" "sm_permits s + cas_total cs \<le> ptrdiff_max" "to_ptrdiff (int n) = int n"
      "0 \<le> cas_total cs"
    using ok cas_total_nonneg by (auto simp: no_overflow_def fits_range)
  show ?thesis
  proof (cases "n = 0 \<or> sm_head s \<noteq> None")
    case True
    with t inv cs(4) waiter_chain_head [OF c] show ?thesis
      by (auto simp: try_acquire_def split: if_splits intro!: exI [of _ 0])
  next
    case False
    then have "xs = []" using waiter_chain_head [OF c] by simp
    with try_acquire_loop_effect [of s "int n" cs b s'] t inv cs False show ?thesis
      by (auto simp: try_acquire_def settled_on_def)
  qed
qed

section \<open>The semaphore meets the wake-up contract\<close>

lemma cancel_effect:
  assumes inv: "sem_inv_on xs s" and ok: "linked_or_resolved w s"
  shows "(w \<in> set xs \<and> fst (try_cancel_waiter w s) \<and>
      sem_inv_on (remove1 w xs) (snd (try_cancel_waiter w s)) \<and>
      wake_of (snd (try_cancel_waiter w s)) = wake_of s \<and>
      sm_permits (snd (try_cancel_waiter w s)) = sm_permits s) \<or>
    (w \<notin> set xs \<and> try_cancel_waiter w s = (False, s))"
proof -
  have c: "waiter_chain s xs" using inv by (simp add: sem_inv_on_def)
  show ?thesis
  proof (cases "w \<in> set xs")
    case False
    with ok queued_iff [OF c] show ?thesis
      by (simp add: linked_or_resolved_def try_cancel_waiter_def)
  next
    case True
    have fresh: "\<not> w_acquired (sm_waiters s w)" "\<not> w_cancelled (sm_waiters s w)"
      using inv True by (auto simp: sem_inv_on_def)
    let ?u = "unlink w s" and ?s = "upd_waiter w (\<lambda>r. r\<lparr>w_cancelled := True\<rparr>) (unlink w s)"
    have u: "sem_inv_on (remove1 w xs) ?u"
      using inv True by (rule sem_inv_unlink)
    have w: "w \<notin> set (remove1 w xs)"
      using waiter_list.chain_distinct [OF c] by simp
    have "waiter_chain ?s (remove1 w xs)"
      using u by (subst waiter_chain_cong [where s' = ?u]) (auto simp: sem_inv_on_def)
    moreover have wo: "wake_of ?s = wake_of s" "wake_of ?u = wake_of s"
      by (auto simp: wake_of_def fun_eq_iff)
    ultimately have "sem_inv_on (remove1 w xs) ?s"
      using u w by (auto simp: sem_inv_on_def)
    with True fresh wo show ?thesis
      by (simp add: try_cancel_waiter_def)
  qed
qed

lemma destroy_cases:
  assumes inv: "sem_inv_on xs s" and ok: "linked_or_resolved w s"
  shows "(w \<in> set xs \<and> dequeue_or_return cs w s = Some (unlink w s, []) \<and>
       sem_inv_on (remove1 w xs) (unlink w s) \<and> wake_of (unlink w s) = wake_of s) \<or>
    (w \<notin> set xs \<and> w_cancelled (sm_waiters s w) \<and> dequeue_or_return cs w s = Some (s, [])) \<or>
    (w \<notin> set xs \<and> w_acquired (sm_waiters s w) \<and> \<not> w_cancelled (sm_waiters s w))"
proof -
  have c: "waiter_chain s xs" using inv by (simp add: sem_inv_on_def)
  show ?thesis
  proof (cases "w \<in> set xs")
    case True
    then have "dequeue_or_return cs w s = Some (unlink w s, [])"
      using inv by (auto simp: sem_inv_on_def dequeue_or_return_def)
    with sem_inv_unlink [OF inv True] True show ?thesis
      by (auto simp: wake_of_def fun_eq_iff)
  next
    case False
    with ok queued_iff [OF c] show ?thesis
      by (auto simp: linked_or_resolved_def dequeue_or_return_def)
  qed
qed

lemma grants_balance_None:
  assumes "grants None xs s r g rest" and "sem_inv_on xs s"
  shows "count_list (snd r) k + of_bool (sem_waiting (fst r) k) = of_bool (sem_waiting s k)"
    and "sem_inv (fst r)"
proof -
  have c: "waiter_chain s xs" "distinct (map (wake_of s) xs)" using assms(2) by (simp_all add: sem_inv_on_def)
  show "count_list (snd r) k + of_bool (sem_waiting (fst r) k) = of_bool (sem_waiting s k)"
    using grants_balance [of None xs s "fst r" "snd r" g rest k] assms(1) c sem_waiting_iff [OF c(1)] by simp
  show "sem_inv (fst r)"
    using assms(1) by (auto simp: grants_def sem_inv_def split: prod.splits)
qed

text \<open>What one operation owes the contract at one coroutine, proved operation by operation.\<close>

definition balanced :: "sem_op \<Rightarrow> sem_state \<Rightarrow> wake \<Rightarrow> bool" where
  "balanced e s k \<longleftrightarrow>
     count_list (snd (sem_step e s)) k + of_bool (sem_waiting (fst (sem_step e s)) k) +
       of_bool (sem_drops e s k) = of_bool (sem_waiting s k) + (of_bool (sem_enrols e s k) :: nat) \<and>
     sem_inv (fst (sem_step e s)) \<and> sem_exec e s \<noteq> None"

lemma sem_inv_on_facts:
  assumes "sem_inv_on xs s"
  shows "waiter_chain s xs" "inj_on (wake_of s) (set xs)" "distinct xs"
    "distinct (map (wake_of s) xs)" "sem_waiting s k \<longleftrightarrow> k \<in> wake_of s ` set xs"
    "queued s w \<longleftrightarrow> w \<in> set xs" "sem_inv s"
  using assms sem_waiting_iff [of s xs] queued_iff [of s xs]
  by (auto simp: sem_inv_on_def sem_inv_def distinct_map)

text \<open>A waiter that leaves the queue without being served takes its own wake-up with it.\<close>

lemma removed_waiting:
  assumes "sem_inv_on xs s" "sem_inv_on (remove1 w xs) s'" "wake_of s' = wake_of s" "w \<in> set xs"
  shows "sem_waiting s' k \<longleftrightarrow> sem_waiting s k \<and> k \<noteq> wake_of s w"
  using sem_inv_on_facts [OF assms(1)] sem_inv_on_facts(5) [OF assms(2)] assms(3,4)
  by (auto simp: inj_on_def)

lemma try_balanced:
  assumes inv: "sem_inv_on xs s" and ok: "sem_ok (S_try n cs) s"
  shows "balanced (S_try n cs) s k"
proof -
  obtain b s' where t: "try_acquire cs n s = (b, s')" by (cases "try_acquire cs n s")
  have s': "sem_inv_on xs s'" "wake_of s' = wake_of s"
    using try_acquire_effect [OF inv _ t] ok by auto
  then show ?thesis
    using t sem_inv_on_facts(5,7) [OF s'(1)] sem_inv_on_facts(5) [OF inv]
    by (simp add: balanced_def sem_step_def)
qed

lemma release_balanced:
  assumes inv: "sem_inv_on xs s" and ok: "sem_ok (S_release n cs) s"
  shows "balanced (S_release n cs) s k"
proof -
  obtain r g rest where r: "release cs n s = Some r" "grants None xs s r g rest"
    using release_effect [OF inv, of n cs] ok by auto
  with grants_balance_None [OF r(2) inv] show ?thesis
    by (simp add: balanced_def sem_step_def)
qed

lemma enqueue_balanced:
  assumes inv: "sem_inv_on xs s" and ok: "sem_ok (S_enqueue w cs) s"
  shows "balanced (S_enqueue w cs) s k"
proof -
  obtain r g rest where r: "try_acquire_or_enqueue cs w s = Some (w \<in> set g, r)"
      "grants (Some w) (xs @ [w]) s r g rest"
    using enqueue_effect [OF inv ok] by blast
  note f = sem_inv_on_facts [OF inv]
  have w: "w \<notin> set xs" "wake_of s w \<notin> wake_of s ` set xs"
    using ok f(6) by (auto simp: linked_or_resolved_def)
  have "distinct (map (wake_of s) (xs @ [w]))"
    using f(2-4) w by simp
  with grants_balance [of "Some w" "xs @ [w]" s "fst r" "snd r" g rest k] r(2)
  have "count_list (snd r) k + of_bool (sem_waiting (fst r) k) =
      of_bool (k \<in> wake_of s ` (set (xs @ [w]) - {w} \<inter> set g))" by simp
  moreover have "sem_inv (fst r)"
    using r(2) by (auto simp: grants_def sem_inv_def split: prod.splits)
  ultimately show ?thesis
    using r(1) w f(5)
    by (cases "w \<in> set g") (auto simp: balanced_def sem_step_def of_bool_def image_iff)
qed

lemma cancel_balanced:
  assumes inv: "sem_inv_on xs s" and ok: "sem_ok (S_cancel w) s"
  shows "balanced (S_cancel w) s k"
proof -
  note f = sem_inv_on_facts [OF inv]
  have "linked_or_resolved w s" using ok by simp
  from cancel_effect [OF inv this] show ?thesis
  proof (elim disjE conjE)
    assume w: "w \<in> set xs" "fst (try_cancel_waiter w s)"
      and i: "sem_inv_on (remove1 w xs) (snd (try_cancel_waiter w s))"
      and wo: "wake_of (snd (try_cancel_waiter w s)) = wake_of s"
    from removed_waiting [OF inv i wo w(1)] w wo sem_inv_on_facts(7) [OF i] f(5) show ?thesis
      by (auto simp: balanced_def sem_step_def case_prod_beta of_bool_def)
  next
    assume "w \<notin> set xs" "try_cancel_waiter w s = (False, s)"
    with f(7) show ?thesis by (simp add: balanced_def sem_step_def)
  qed
qed

lemma destroy_balanced:
  assumes inv: "sem_inv_on xs s" and ok: "sem_ok (S_destroy w cs) s"
  shows "balanced (S_destroy w cs) s k"
proof -
  note f = sem_inv_on_facts [OF inv]
  have "linked_or_resolved w s" using ok by simp
  from destroy_cases [OF inv this, of cs] show ?thesis
  proof (elim disjE conjE)
    assume w: "w \<in> set xs" and e: "dequeue_or_return cs w s = Some (unlink w s, [])"
      and i: "sem_inv_on (remove1 w xs) (unlink w s)" and wo: "wake_of (unlink w s) = wake_of s"
    from removed_waiting [OF inv i wo w] w e sem_inv_on_facts(7) [OF i] f(5,6) show ?thesis
      by (auto simp: balanced_def sem_step_def of_bool_def)
  next
    assume "w \<notin> set xs" "dequeue_or_return cs w s = Some (s, [])"
    with f(6,7) show ?thesis by (simp add: balanced_def sem_step_def)
  next
    assume w: "w \<notin> set xs" "w_acquired (sm_waiters s w)" "\<not> w_cancelled (sm_waiters s w)"
    obtain r g rest where r: "dequeue_or_return cs w s = Some r" "grants None xs s r g rest"
      using destroy_acquired_effect [OF inv _ w(2,3), of cs] ok by auto
    with grants_balance_None [OF r(2) inv] w(1) f(6) show ?thesis
      by (simp add: balanced_def sem_step_def)
  qed
qed

lemma sem_step_balance:
  assumes "sem_inv s" and "sem_ok e s"
  shows "count_list (snd (sem_step e s)) k + of_bool (sem_waiting (fst (sem_step e s)) k) +
      of_bool (sem_drops e s k) = of_bool (sem_waiting s k) + (of_bool (sem_enrols e s k) :: nat) \<and>
    sem_inv (fst (sem_step e s)) \<and> sem_exec e s \<noteq> None"
proof -
  obtain xs where "sem_inv_on xs s" using assms(1) by (auto simp: sem_inv_def)
  with assms(2) have "balanced e s k"
    by (cases e) (auto intro: try_balanced release_balanced enqueue_balanced cancel_balanced
      destroy_balanced simp del: sem_ok.simps)
  then show ?thesis by (simp add: balanced_def)
qed

interpretation sem: wake_once sem_step sem_inv sem_ok sem_waiting sem_enrols sem_drops
  by unfold_locales (use sem_step_balance in blast)+

end
