(* ===== verification/Semaphore_Laws.thy ===== *)
theory Semaphore_Laws
  imports Semaphore
begin

text \<open>
  What the semaphore's state promises: \<^verbatim>\<open>release\<close> implements the abstract grant, nobody
  overtakes the queue, permits are conserved, a suspended acquirer is continued exactly once,
  and no wake-up is lost between the permit counter, which is changed without the lock, and
  the queue. Ends with three corners where the code does not keep a promise.
\<close>

section \<open>Functional behaviour\<close>

text \<open>
  C13. \<^verbatim>\<open>release(n)\<close> refines the abstract semaphore: whatever the outcomes of its
  compare-and-swap attempts, it returns, serves from the front of the queue the longest
  run of waiters that the permits cover (those there were, the \<open>n\<close> new ones, and the ones
  other threads add while it loops), marks exactly these acquired, keeps the rest queued in
  order, and schedules exactly these, those beyond the sixteen of its buffer first.
\<close>

theorem release_serves_longest_prefix:
  assumes "sem_inv_on xs s" and "0 < n" and "no_overflow (int n) cs s"
    and "p = sm_permits s + int n"
    and "spec_grant (p + cas_added cs p (requests s xs)) (requests s xs) = (g, p', q')"
  shows "\<exists>s'. release cs n s = Some (s', drop 16 (map (wake_of s) g) @ take 16 (map (wake_of s) g)) \<and>
    waiter_chain s' (map fst q') \<and> sm_permits s' = p' \<and> served g s s'"
proof -
  have c: "waiter_chain s xs" "\<forall>w \<in> set xs. 0 \<le> w_requested (sm_waiters s w)" "0 \<le> sm_permits s"
    using assms(1) by (simp_all add: sem_inv_on_def)
  have n: "cas_ok cs" "0 \<le> cas_total cs" "sm_permits s + int n + cas_total cs \<le> ptrdiff_max"
    using assms(3) cas_total_nonneg by (auto simp: no_overflow_def)
  have casts: "to_ptrdiff (int n) = int n" "to_ptrdiff (sm_permits s + int n) = sm_permits s + int n"
    using n c(3) by (simp_all add: fits_range)
  let ?s = "fetch_add (int n) s"
  have wo: "wake_of ?s = wake_of s" by (simp add: wake_of_def fun_eq_iff)
  have sv: "served g ?s s' = served g s s'" for s'
    using wo by (simp add: served_def)
  show ?thesis
  proof (cases "xs = []")
    case True
    then have "g = []" "q' = []" "p' = p" using assms(5) by (cases cs; auto)+
    with True c(1) casts assms(2,4) show ?thesis
      using fetch_add_served by (simp add: release_def waiter_chain_def)
  next
    case False
    then have "sm_has_waiters s" using c(1) by (simp add: waiter_chain_def)
    moreover have "\<exists>s'. grant_locked 16 None cs [] [] ?s =
        Some (take 16 (map (wake_of s) g), drop 16 (map (wake_of s) g), s') \<and>
      waiter_chain s' (map fst q') \<and> sm_permits s' = p' \<and> served g s s'"
      using grant_refines [of ?s xs cs 16 None "[]" "[]"] c n casts assms(4,5)
      by (simp add: grants_as_def grant_total_def wo sv Let_def)
    ultimately show ?thesis
      using casts assms(2) by (auto simp: release_def grant_and_wake_def Let_def)
  qed
qed

text \<open>Two suspended acquirers for the examples: waiter 1 wants two permits, waiter 2 wants one.\<close>

definition demo_waiter :: "handle \<Rightarrow> int \<Rightarrow> waiter" where
  "demo_waiter h n = \<lparr>w_prev = None, w_next = None, w_handle = h, w_rt = Some 0, w_requested = n,
     w_acquired = False, w_cancelled = False\<rparr>"

definition demo_sem :: sem_state where
  "demo_sem = link_tail 2 (link_tail 1
     \<lparr>sm_permits = 0, sm_has_waiters = False, sm_head = None, sm_tail = None,
      sm_waiters = (\<lambda>w. demo_waiter (10 + w) (if w = 1 then 2 else 1))\<rparr>)"

lemma demo_sem_inv: "sem_inv_on [1, 2] demo_sem"
proof -
  let ?s = "\<lparr>sm_permits = 0, sm_has_waiters = False, sm_head = None, sm_tail = None,
      sm_waiters = (\<lambda>w. demo_waiter (10 + w) (if w = 1 then 2 else 1))\<rparr>"
  have c: "waiter_chain ?s []" by (simp add: waiter_chain_def dll_def)
  have "waiter_chain (link_tail 1 ?s) [1]" using waiter_chain_link [OF c, of 1] by simp
  from waiter_chain_link [OF this, of 2]
  show ?thesis
    by (simp add: demo_sem_def sem_inv_on_def wake_of_def demo_waiter_def ptrdiff_max_def)
qed

lemma demo_sem_fields:
  "sm_permits demo_sem = 0" "w_requested (sm_waiters demo_sem w) = (if w = 1 then 2 else 1)"
  "wake_of demo_sem w = (Some 0, 10 + w)" "w_acquired (sm_waiters demo_sem w) = False"
  "w_cancelled (sm_waiters demo_sem w) = False" "sm_head demo_sem = Some 1"
  by (simp_all add: demo_sem_def wake_of_def demo_waiter_def link_tail_fields')

theorem release_serves_longest_prefix_witness:
  "\<exists>s'. release [Cas_fails 0, Cas_ok, Cas_fails 1] 2 demo_sem = Some (s', [(Some 0, 11)]) \<and>
     waiter_chain s' [2] \<and> sm_permits s' = 0 \<and> served [1] demo_sem s'"
proof -
  let ?cs = "[Cas_fails 0, Cas_ok, Cas_fails 1]"
  have q: "requests demo_sem [1, 2] = [(1, 2), (2, 1)]"
    by (simp add: demo_sem_fields)
  have "spec_grant (2 + cas_added ?cs 2 (requests demo_sem [1, 2])) (requests demo_sem [1, 2]) =
      ([1], 0, [(2, 1)])"
    unfolding q by simp
  from release_serves_longest_prefix [OF demo_sem_inv _ _ _ this] show ?thesis
    by (simp add: demo_sem_fields no_overflow_def ptrdiff_max_def)
qed

text \<open>
  Nobody overtakes the queue: an awaiter that enqueues is let through at once only when
  every waiter before it has been served and scheduled, once, in the same step, and
  \<^verbatim>\<open>try_acquire\<close> of a positive count never takes permits while somebody is queued.
\<close>

lemma acquire_never_overtakes:
  assumes inv: "sem_inv_on xs s" and ok: "sem_ok (S_enqueue w cs) s"
    and r: "try_acquire_or_enqueue cs w s = Some (True, s', k)"
  shows "sm_head s' = None \<and>
    (\<forall>v \<in> set xs. w_acquired (sm_waiters s' v) \<and> count_list k (wake_of s v) = 1) \<and>
    (\<forall>n. 0 < n \<and> xs \<noteq> [] \<longrightarrow> try_acquire cs n s = (False, s))"
proof -
  have c: "waiter_chain s xs" "distinct (map (wake_of s) xs)"
    using inv by (simp_all add: sem_inv_on_def)
  obtain g rest where g: "w \<in> set g" "grants (Some w) (xs @ [w]) s (s', k) g rest"
    using enqueue_effect [OF inv ok] r by auto
  have w: "w \<notin> set xs"
    using ok queued_iff [OF c(1)] by (simp add: linked_or_resolved_def)
  have "g @ rest = xs @ [w]" using g(2) by (auto simp: grants_def)
  with g(1) w have ge: "g = xs @ [w]" "rest = []"
    by (cases rest rule: rev_cases; auto)+
  moreover from w have "filter (\<lambda>v. Some w \<noteq> Some v) (xs @ [w]) = xs"
    by (auto simp: filter_id_conv)
  ultimately have k: "k = drop 16 (map (wake_of s) xs) @ take 16 (map (wake_of s) xs)"
    and i: "sem_inv_on [] s'" and sv: "served (xs @ [w]) s s'"
    using g(2) by (auto simp: grants_def)
  have "count_list k (wake_of s v) = 1" if "v \<in> set xs" for v
    using that c(2) by (simp add: k count_drop_take count_list_distinct_map)
  moreover have "sm_head s' = None"
    using i waiter_chain_head [of s' "[]"] by (simp add: sem_inv_on_def)
  ultimately show ?thesis
    using sv waiter_chain_head [OF c(1)] by (auto simp: served_def try_acquire_def)
qed

lemma acquire_never_overtakes_witness:
  "\<exists>s' k. try_acquire_or_enqueue [Cas_fails 0] 3 (fetch_add 4 demo_sem) = Some (True, s', k) \<and>
     sm_head s' = None \<and> w_acquired (sm_waiters s' 1) \<and> w_acquired (sm_waiters s' 2) \<and>
     count_list k (Some 0, 11) = 1"
proof -
  let ?s = "fetch_add 4 demo_sem"
  have inv: "sem_inv_on [1, 2] ?s" and p: "sm_permits ?s = 4"
    using fetch_add_sem_inv [OF demo_sem_inv, of 4] by (simp_all add: demo_sem_fields ptrdiff_max_def)
  have wo: "wake_of ?s w = (Some 0, 10 + w)" for w
    using demo_sem_fields(3) by (simp add: wake_of_def)
  have ok: "sem_ok (S_enqueue 3 [Cas_fails 0]) ?s"
    using queued_iff [of ?s "[1, 2]"] inv p
    by (auto simp: sem_inv_on_def no_overflow_def linked_or_resolved_def demo_sem_fields wo ptrdiff_max_def
        simp del: fetch_add_simps(5))
  obtain g rest r where r: "try_acquire_or_enqueue [Cas_fails 0] 3 ?s = Some (3 \<in> set g, r)"
      "grants (Some 3) ([1, 2] @ [3]) ?s r g rest" "settled_on rest (fst r)"
      "sm_permits (fst r) + needs ?s g = 4"
    using enqueue_effect [OF inv ok] p by fastforce
  have e: "g @ rest = [1, 2, 3]" "\<forall>v. w_requested (sm_waiters (fst r) v) = w_requested (sm_waiters demo_sem v)"
    using r(2) by (auto simp: grants_def served_def)
  have "rest = []"
    using e r(3,4)
    by (auto simp: append_eq_Cons_conv settled_on_def needs_def demo_sem_fields)
  with e r(1) have "try_acquire_or_enqueue [Cas_fails 0] 3 ?s = Some (True, fst r, snd r)"
    by simp
  from acquire_never_overtakes [OF inv ok this] this show ?thesis
    by (intro exI [of _ "fst r"] exI [of _ "snd r"]) (auto simp: wo)
qed

section \<open>Every suspended acquirer is continued exactly once\<close>

text \<open>
  C16. Over any history of one semaphore in which no cancellation callback runs before its waiter is linked and
  no awaiter is destroyed while it is queued, a
  coroutine is scheduled as often as it was suspended, less one while it is still queued: by
  the release that serves it, the enqueuer that serves it on the way, or its cancellation,
  never by two of them. The first condition is \<open>sem_ok\<close> of a cancellation. The code does not ensure it: a callback
  that runs between the arming and the linking can have the coroutine resumed twice, or make the semaphore forget the
  waiters it has (\<open>cancel_before_enqueue_resumes_twice\<close>, \<open>cancel_before_enqueue_empties_queue\<close>).
\<close>

theorem acquirer_woken_exactly_once:
  assumes "sem_inv s" and "run_ok sem_step sem_ok es s"
    and "\<not> sem_waiting s k" and "run_count sem_step (\<lambda>e s. sem_drops e s k) es s = 0"
  shows "count_list (snd (run sem_step es s)) k + of_bool (sem_waiting (fst (run sem_step es s)) k) =
    run_count sem_step (\<lambda>e s. sem_enrols e s k) es s"
  using sem.run_balance [OF assms(1,2), of k] assms(3,4) by simp

definition idle_sem :: "int \<Rightarrow> sem_state" where
  "idle_sem n = \<lparr>sm_permits = n, sm_has_waiters = False, sm_head = None, sm_tail = None,
     sm_waiters = (\<lambda>w. demo_waiter (10 + w) (if w = 1 then 2 else 1))\<rparr>"

lemma idle_sem_chain [simp]: "waiter_chain (idle_sem n) []"
  by (simp add: idle_sem_def waiter_chain_def dll_def)

lemma idle_sem_inv: "0 \<le> n \<Longrightarrow> n \<le> ptrdiff_max \<Longrightarrow> sem_inv_on [] (idle_sem n)"
  by (simp add: sem_inv_on_def) (simp add: idle_sem_def)

lemma idle_sem_fields [simp]:
  "sm_permits (idle_sem n) = n" "w_requested (sm_waiters (idle_sem n) w) = (if w = 1 then 2 else 1)"
  "wake_of (idle_sem n) w = (Some 0, 10 + w)" "w_acquired (sm_waiters (idle_sem n) w) = False"
  "w_cancelled (sm_waiters (idle_sem n) w) = False" "sm_head (idle_sem n) = None"
  "sm_tail (idle_sem n) = None"
  by (simp_all add: idle_sem_def wake_of_def demo_waiter_def)

lemma idle_sem_queued [simp]: "\<not> queued (idle_sem n) w"
  using queued_iff [OF idle_sem_chain] by simp

lemma enqueue_idle:
  "try_acquire_or_enqueue cs 2 (idle_sem 0) = Some (False, link_tail 2 (idle_sem 0), [])"
proof -
  have c: "waiter_chain (link_tail 2 (idle_sem 0)) [2]"
    using waiter_chain_link [OF idle_sem_chain, of 2] by simp
  show ?thesis
    by (simp add: try_acquire_or_enqueue_def grant_and_wake_def grant_step [OF c])
qed

theorem acquirer_woken_exactly_once_witness:
  "count_list (snd (run sem_step [S_enqueue 2 [], S_release 2 []] (idle_sem 0))) (Some 0, 12) +
   of_bool (sem_waiting (fst (run sem_step [S_enqueue 2 [], S_release 2 []] (idle_sem 0))) (Some 0, 12)) =
   (1 :: nat)"
proof -
  have inv: "sem_inv (idle_sem 0)"
    using idle_sem_inv [of 0] by (auto simp: sem_inv_def ptrdiff_max_def)
  have e: "sem_step (S_enqueue 2 cs) (idle_sem 0) = (link_tail 2 (idle_sem 0), [])" for cs
    by (simp add: sem_step_def enqueue_idle)
  have "run_ok sem_step sem_ok [S_enqueue 2 [], S_release 2 []] (idle_sem 0)"
    by (simp add: e no_overflow_def linked_or_resolved_def ptrdiff_max_def)
  moreover have "\<not> sem_waiting (idle_sem 0) (Some 0, 12)"
    by (simp add: sem_waiting_def)
  ultimately show ?thesis
    using acquirer_woken_exactly_once [OF inv, of "[S_enqueue 2 [], S_release 2 []]" "(Some 0, 12)"]
    by (simp add: enqueue_idle ex_bool_eq)
qed

section \<open>Permits are conserved\<close>

text \<open>
  The books of one step: what it hands to waiters (or to the caller of \<^verbatim>\<open>try_acquire\<close>) and
  what it gives back. \<open>ws\<close> lists the waiters whose marks are counted.
\<close>

definition newly_served :: "nat list \<Rightarrow> sem_state \<Rightarrow> sem_state \<Rightarrow> int" where
  "newly_served ws s s' =
     needs s (filter (\<lambda>w. w_acquired (sm_waiters s' w) \<and> \<not> w_acquired (sm_waiters s w)) ws)"

fun sem_taken :: "nat list \<Rightarrow> sem_op \<Rightarrow> sem_state \<Rightarrow> int" where
  "sem_taken ws (S_try n cs) s = (if fst (try_acquire cs n s) then int n else 0)"
| "sem_taken ws e s = newly_served ws s (fst (sem_step e s))"

fun sem_given :: "sem_op \<Rightarrow> sem_state \<Rightarrow> int" where
  "sem_given (S_release n cs) s = int n"
| "sem_given (S_destroy w cs) s =
     (if w_acquired (sm_waiters s w) \<and> \<not> w_cancelled (sm_waiters s w)
      then w_requested (sm_waiters s w) else 0)"
| "sem_given _ s = 0"

text \<open>The permits that other threads release during the attempts of a step, at most.\<close>

fun sem_cas :: "sem_op \<Rightarrow> int" where
  "sem_cas (S_try n cs) = cas_total cs"
| "sem_cas (S_release n cs) = cas_total cs"
| "sem_cas (S_enqueue w cs) = cas_total cs"
| "sem_cas (S_cancel w) = 0"
| "sem_cas (S_destroy w cs) = cas_total cs"

primrec taken_total :: "nat list \<Rightarrow> sem_op list \<Rightarrow> sem_state \<Rightarrow> int" where
  "taken_total ws [] s = 0"
| "taken_total ws (e # es) s = sem_taken ws e s + taken_total ws es (fst (sem_step e s))"

primrec given_total :: "sem_op list \<Rightarrow> sem_state \<Rightarrow> int" where
  "given_total [] s = 0"
| "given_total (e # es) s = sem_given e s + given_total es (fst (sem_step e s))"

lemma needs_filter:
  assumes "distinct ws" and "distinct g" and "set g \<subseteq> set ws"
  shows "needs s (filter (\<lambda>w. w \<in> set g) ws) = needs s g"
proof -
  have "set (filter (\<lambda>w. w \<in> set g) ws) = set g" using assms(3) by auto
  with assms(1,2) show ?thesis
    by (simp add: needs_def sum_list_distinct_conv_sum_set)
qed

lemma newly_served_eq:
  assumes "served g s s'" and "distinct ws" and "set g \<subseteq> set ws" and "distinct g"
    and "\<forall>w \<in> set g. \<not> w_acquired (sm_waiters s w)"
  shows "newly_served ws s s' = needs s g"
proof -
  have "filter (\<lambda>w. w_acquired (sm_waiters s' w) \<and> \<not> w_acquired (sm_waiters s w)) ws =
      filter (\<lambda>w. w \<in> set g) ws"
    using assms(1,5) by (intro filter_cong) (auto simp: served_def)
  with needs_filter [OF assms(2,4,3)] show ?thesis
    by (simp add: newly_served_def)
qed

text \<open>The waiters that take part in a history are among \<open>ws\<close>.\<close>

definition enqueues_only :: "nat set \<Rightarrow> sem_op list \<Rightarrow> bool" where
  "enqueues_only W es \<longleftrightarrow> (\<forall>w cs. S_enqueue w cs \<in> set es \<longrightarrow> w \<in> W)"

lemma grants_newly_served:
  assumes "grants self ys s (s', k) g rest" and "distinct ys" and "distinct ws" and "set ys \<subseteq> set ws"
    and "\<forall>w \<in> set ys. \<not> w_acquired (sm_waiters s w)"
  shows "newly_served ws s s' = needs s g \<and> sem_inv_on rest s' \<and> set rest \<subseteq> set ws"
proof -
  have ys: "ys = g @ rest" and sv: "served g s s'" and i: "sem_inv_on rest s'"
    using assms(1) by (auto simp: grants_def)
  have "newly_served ws s s' = needs s g"
    by (rule newly_served_eq [OF sv assms(3)]) (use ys assms(2,4,5) in auto)
  with ys i assms(4) show ?thesis by auto
qed

text \<open>
  The balance of one operation, operation by operation: what it takes out and puts in, the
  permits a concurrent release adds meanwhile included.
\<close>

definition conserves :: "nat list \<Rightarrow> sem_op \<Rightarrow> sem_state \<Rightarrow> bool" where
  "conserves ws e s \<longleftrightarrow>
     (\<exists>ys a. sem_inv_on ys (fst (sem_step e s)) \<and> set ys \<subseteq> set ws \<and> 0 \<le> a \<and> a \<le> sem_cas e \<and>
       sm_permits (fst (sem_step e s)) + sem_taken ws e s = sm_permits s + sem_given e s + a)"

lemma try_conserves:
  assumes inv: "sem_inv_on xs s" and ok: "sem_ok (S_try n cs) s" and ws: "set xs \<subseteq> set ws"
  shows "conserves ws (S_try n cs) s"
  using try_acquire_effect [OF inv, of n cs] ok ws
  by (cases "try_acquire cs n s") (auto simp: sem_step_def conserves_def)

lemma release_conserves:
  assumes inv: "sem_inv_on xs s" and ok: "sem_ok (S_release n cs) s"
    and ws: "distinct ws" "set xs \<subseteq> set ws"
  shows "conserves ws (S_release n cs) s"
proof -
  obtain r g rest a where r: "release cs n s = Some r" "grants None xs s r g rest" "0 \<le> a"
      "a \<le> cas_total cs" "sm_permits (fst r) + needs s g = sm_permits s + int n + a"
    using release_effect [OF inv, of n cs] ok by auto
  with grants_newly_served [of None xs s "fst r" "snd r" g rest ws] inv sem_inv_on_facts(1,3) [OF inv] ws
  show ?thesis
    unfolding conserves_def
    by (intro exI [of _ rest] exI [of _ a]) (simp add: sem_step_def sem_inv_on_def)
qed

lemma enqueue_conserves:
  assumes inv: "sem_inv_on xs s" and ok: "sem_ok (S_enqueue w cs) s"
    and ws: "distinct ws" "set xs \<subseteq> set ws" "w \<in> set ws"
  shows "conserves ws (S_enqueue w cs) s"
proof -
  note f = sem_inv_on_facts [OF inv]
  obtain r g rest a where r: "try_acquire_or_enqueue cs w s = Some (w \<in> set g, r)"
      "grants (Some w) (xs @ [w]) s r g rest" "0 \<le> a" "a \<le> cas_total cs"
      "sm_permits (fst r) + needs s g = sm_permits s + a"
    using enqueue_effect [OF inv ok] by blast
  have "w \<notin> set xs" "\<not> w_acquired (sm_waiters s w)"
    using ok f(6) by (auto simp: linked_or_resolved_def)
  with grants_newly_served [of "Some w" "xs @ [w]" s "fst r" "snd r" g rest ws] r f(3) inv ws
  show ?thesis
    unfolding conserves_def
    by (intro exI [of _ rest] exI [of _ a]) (simp add: sem_step_def sem_inv_on_def)
qed

lemma cancel_conserves:
  assumes inv: "sem_inv_on xs s" and ok: "sem_ok (S_cancel w) s" and ws: "set xs \<subseteq> set ws"
  shows "conserves ws (S_cancel w) s"
proof -
  have "linked_or_resolved w s" using ok by simp
  note c = cancel_effect [OF inv this]
  have "newly_served ws s (snd (try_cancel_waiter w s)) = 0"
    by (simp add: newly_served_def needs_def try_cancel_waiter_def cong: conj_cong)
  moreover have "set (remove1 w xs) \<subseteq> set ws"
    using ws set_remove1_subset [of w xs] by blast
  ultimately show ?thesis
    using c inv ws by (auto simp: sem_step_def case_prod_beta conserves_def)
qed

lemma destroy_conserves:
  assumes inv: "sem_inv_on xs s" and ok: "sem_ok (S_destroy w cs) s"
    and ws: "distinct ws" "set xs \<subseteq> set ws"
  shows "conserves ws (S_destroy w cs) s"
proof -
  have lr: "linked_or_resolved w s" and a: "0 \<le> cas_total cs"
    using ok cas_total_nonneg by (auto simp: no_overflow_def)
  have c: "\<forall>w \<in> set xs. \<not> w_acquired (sm_waiters s w)"
    using inv by (simp add: sem_inv_on_def)
  have u: "newly_served ws s (unlink w s) = 0" "newly_served ws s s = 0"
    by (simp_all add: newly_served_def needs_def cong: conj_cong)
  from destroy_cases [OF inv lr, of cs] show ?thesis
  proof (elim disjE conjE)
    assume "w \<in> set xs" "dequeue_or_return cs w s = Some (unlink w s, [])"
      "sem_inv_on (remove1 w xs) (unlink w s)"
    with c u ws(2) set_remove1_subset [of w xs] a show ?thesis
      unfolding conserves_def
      by (intro exI [of _ "remove1 w xs"] exI [of _ 0]) (auto simp: sem_step_def)
  next
    assume "w_cancelled (sm_waiters s w)" "dequeue_or_return cs w s = Some (s, [])"
    with u inv ws(2) a show ?thesis
      unfolding conserves_def by (intro exI [of _ xs] exI [of _ 0]) (auto simp: sem_step_def)
  next
    assume w: "w_acquired (sm_waiters s w)" "\<not> w_cancelled (sm_waiters s w)"
    from destroy_acquired_effect [OF inv ok w] obtain r g rest a where
      r: "dequeue_or_return cs w s = Some r" "grants None xs s r g rest" "0 \<le> a" "a \<le> cas_total cs"
        "sm_permits (fst r) + needs s g = sm_permits s + w_requested (sm_waiters s w) + a"
      by blast
    with grants_newly_served [of None xs s "fst r" "snd r" g rest ws] inv sem_inv_on_facts(3) [OF inv] ws w
    show ?thesis
      unfolding conserves_def
      by (intro exI [of _ rest] exI [of _ a]) (simp add: sem_step_def sem_inv_on_def)
  qed
qed

lemma step_conserves:
  assumes inv: "sem_inv_on xs s" and ok: "sem_ok e s" and ws: "distinct ws" "set xs \<subseteq> set ws"
    and enq: "enqueues_only (set ws) [e]"
  shows "\<exists>ys a. sem_inv_on ys (fst (sem_step e s)) \<and> set ys \<subseteq> set ws \<and> 0 \<le> a \<and> a \<le> sem_cas e \<and>
    sm_permits (fst (sem_step e s)) + sem_taken ws e s = sm_permits s + sem_given e s + a"
proof -
  have "conserves ws e s"
    using assms by (cases e) (auto simp: enqueues_only_def simp del: sem_ok.simps intro: try_conserves
      release_conserves enqueue_conserves cancel_conserves destroy_conserves)
  then show ?thesis by (simp add: conserves_def)
qed

lemma run_conserves:
  assumes "sem_inv_on xs s" and "run_ok sem_step sem_ok es s" and "distinct ws" and "set xs \<subseteq> set ws"
    and "enqueues_only (set ws) es"
  shows "\<exists>a. 0 \<le> a \<and> a \<le> sum_list (map sem_cas es) \<and> 0 \<le> sm_permits (fst (run sem_step es s)) \<and>
    sm_permits (fst (run sem_step es s)) + taken_total ws es s =
      sm_permits s + given_total es s + a"
  using assms
proof (induction es arbitrary: s xs)
  case Nil
  then show ?case by (auto simp: sem_inv_on_def)
next
  case (Cons e es)
  let ?s = "fst (sem_step e s)"
  have ok: "sem_ok e s" "run_ok sem_step sem_ok es ?s" "enqueues_only (set ws) [e]"
      "enqueues_only (set ws) es"
    using Cons.prems by (auto simp: enqueues_only_def)
  obtain ys a where a: "sem_inv_on ys ?s" "set ys \<subseteq> set ws" "0 \<le> a" "a \<le> sem_cas e"
      "sm_permits ?s + sem_taken ws e s = sm_permits s + sem_given e s + a"
    using step_conserves [OF Cons.prems(1) ok(1) Cons.prems(3,4) ok(3)] by blast
  obtain b where "0 \<le> b" "b \<le> sum_list (map sem_cas es)" "0 \<le> sm_permits (fst (run sem_step es ?s))"
      "sm_permits (fst (run sem_step es ?s)) + taken_total ws es ?s = sm_permits ?s + given_total es ?s + b"
    using Cons.IH [OF a(1) ok(2) Cons.prems(3) a(2) ok(4)] by blast
  with a show ?case
    by (intro exI [of _ "a + b"]) simp
qed

text \<open>
  C15. Permits are conserved: after any history, the permits left plus those handed out are the
  permits at the start plus those given back (explicitly, or by destroying an awaiter that had
  been served) plus what other threads released during the failed compare-and-swap attempts;
  and the counter never goes below zero, so never more is handed out than there is.
\<close>

theorem permits_are_conserved:
  assumes "sem_inv_on xs s" and "run_ok sem_step sem_ok es s" and "distinct ws" and "set xs \<subseteq> set ws"
    and "enqueues_only (set ws) es"
  shows "\<exists>a. 0 \<le> a \<and> a \<le> sum_list (map sem_cas es) \<and> 0 \<le> sm_permits (fst (run sem_step es s)) \<and>
    sm_permits (fst (run sem_step es s)) + taken_total ws es s =
      sm_permits s + given_total es s + a"
  using assms by (rule run_conserves)

theorem permits_are_conserved_witness:
  "\<exists>a. 0 \<le> a \<and> a \<le> 0 \<and>
     0 \<le> sm_permits (fst (run sem_step [S_enqueue 2 [], S_release 5 [Cas_fails 0]] (idle_sem 0))) \<and>
     sm_permits (fst (run sem_step [S_enqueue 2 [], S_release 5 [Cas_fails 0]] (idle_sem 0))) +
       taken_total [2] [S_enqueue 2 [], S_release 5 [Cas_fails 0]] (idle_sem 0) = 0 + 5 + a"
proof -
  have inv: "sem_inv_on [] (idle_sem 0)"
    using idle_sem_inv [of 0] by (simp add: ptrdiff_max_def)
  have e: "sem_step (S_enqueue 2 cs) (idle_sem 0) = (link_tail 2 (idle_sem 0), [])" for cs
    by (simp add: sem_step_def enqueue_idle)
  have "run_ok sem_step sem_ok [S_enqueue 2 [], S_release 5 [Cas_fails 0]] (idle_sem 0)"
    by (simp add: e no_overflow_def linked_or_resolved_def ptrdiff_max_def)
  from permits_are_conserved [OF inv this, of "[2]"] show ?thesis
    by (simp add: enqueues_only_def)
qed

section \<open>No wake-up is lost\<close>

text \<open>
  \<^verbatim>\<open>release\<close> is not one atomic step: it adds the permits, reads \<^verbatim>\<open>has_waiters_\<close>, and only then,
  if the flag is set, takes the lock and grants. Here its three parts are steps of their own,
  with anything in between; \<open>rs_checks\<close> and \<open>rs_grants\<close> count the releasing threads before the
  second and before the third. The other operations change the queue under the lock.
\<close>

record racing_sem =
  rs_sem :: sem_state
  rs_checks :: nat
  rs_grants :: nat

datatype racing_op =
    R_add nat
  | R_check
  | R_grant "cas list"
  | R_other sem_op

fun racing_exec :: "racing_op \<Rightarrow> racing_sem \<Rightarrow> (racing_sem \<times> wake list) option" where
  "racing_exec (R_add n) r =
     Some (r\<lparr>rs_sem := fetch_add (to_ptrdiff (int n)) (rs_sem r), rs_checks := rs_checks r + 1\<rparr>, [])"
| "racing_exec R_check r =
     Some (if \<not> sm_has_waiters (rs_sem r) then r\<lparr>rs_checks := rs_checks r - 1\<rparr>
           else r\<lparr>rs_checks := rs_checks r - 1, rs_grants := rs_grants r + 1\<rparr>, [])"
| "racing_exec (R_grant cs) r =
     map_option (\<lambda>(s, k). (r\<lparr>rs_sem := s, rs_grants := rs_grants r - 1\<rparr>, k))
       (grant_and_wake None cs (rs_sem r))"
| "racing_exec (R_other e) r = map_option (\<lambda>(s, k). (r\<lparr>rs_sem := s\<rparr>, k)) (sem_exec e (rs_sem r))"

definition racing_step :: "racing_op \<Rightarrow> racing_sem \<Rightarrow> racing_sem \<times> wake list" where
  "racing_step e r = (case racing_exec e r of Some x \<Rightarrow> x | None \<Rightarrow> (r, []))"

text \<open>The parts of one release, played one after the other, are the release.\<close>

lemma release_in_parts:
  assumes "0 < n" and "rs_checks r = c" and "rs_grants r = d"
  shows "release cs n (rs_sem r) = Some (s', k) \<longleftrightarrow>
    (\<exists>r1 r2. racing_exec (R_add n) r = Some (r1, []) \<and> racing_exec R_check r1 = Some (r2, []) \<and>
      (if rs_grants r2 = d then s' = rs_sem r2 \<and> k = []
       else racing_exec (R_grant cs) r2 = Some (r\<lparr>rs_sem := s'\<rparr>, k)))"
  using assms by (cases r) (auto simp: release_def Let_def)

text \<open>
  The steps considered: everything but a cancellation or the destruction of a queued awaiter.
\<close>

fun racing_ok :: "racing_op \<Rightarrow> racing_sem \<Rightarrow> bool" where
  "racing_ok (R_add n) r \<longleftrightarrow> 0 < n \<and> no_overflow (int n) [] (rs_sem r)"
| "racing_ok R_check r \<longleftrightarrow> 0 < rs_checks r"
| "racing_ok (R_grant cs) r \<longleftrightarrow> 0 < rs_grants r \<and> no_overflow 0 cs (rs_sem r)"
| "racing_ok (R_other (S_release n cs)) r \<longleftrightarrow> False"
| "racing_ok (R_other (S_cancel w)) r \<longleftrightarrow> False"
| "racing_ok (R_other (S_destroy w cs)) r \<longleftrightarrow>
     sem_ok (S_destroy w cs) (rs_sem r) \<and> w_acquired (sm_waiters (rs_sem r) w) \<and>
     \<not> w_cancelled (sm_waiters (rs_sem r) w)"
| "racing_ok (R_other e) r \<longleftrightarrow> sem_ok e (rs_sem r)"

definition racing_inv :: "racing_sem \<Rightarrow> bool" where
  "racing_inv r \<longleftrightarrow> sem_inv (rs_sem r) \<and> (settled (rs_sem r) \<or> 0 < rs_checks r + rs_grants r)"

lemma racing_invI:
  "sem_inv_on xs (rs_sem r) \<Longrightarrow> settled_on xs (rs_sem r) \<or> 0 < rs_checks r + rs_grants r \<Longrightarrow> racing_inv r"
  using settled_iff [of "rs_sem r" xs] by (auto simp: racing_inv_def sem_inv_def sem_inv_on_def)

lemma grants_sem_inv: "grants self ys s r g rest \<Longrightarrow> sem_inv_on rest (fst r)"
  by (auto simp: grants_def)

lemma racing_inv_other:
  assumes xs: "sem_inv_on xs (rs_sem r)"
    and st: "settled_on xs (rs_sem r) \<or> 0 < rs_checks r + rs_grants r"
    and ok: "racing_ok (R_other e) r"
  shows "racing_inv (fst (racing_step (R_other e) r))"
proof (cases e)
  case (S_try n cs)
  obtain b s' where t: "try_acquire cs n (rs_sem r) = (b, s')" by fastforce
  with try_acquire_effect [OF xs _ t] S_try ok st show ?thesis
    by (intro racing_invI [of xs]) (auto simp: racing_step_def)
next
  case (S_enqueue w cs)
  then obtain g rest x where "try_acquire_or_enqueue cs w (rs_sem r) = Some (w \<in> set g, x)"
      "grants (Some w) (xs @ [w]) (rs_sem r) x g rest" "settled_on rest (fst x)"
    using enqueue_effect [OF xs, of w cs] ok by auto
  with grants_sem_inv [OF this(2)] S_enqueue show ?thesis
    by (intro racing_invI [of rest]) (auto simp: racing_step_def case_prod_beta)
next
  case (S_destroy w cs)
  then have "sem_ok (S_destroy w cs) (rs_sem r)" "w_acquired (sm_waiters (rs_sem r) w)"
      "\<not> w_cancelled (sm_waiters (rs_sem r) w)" using ok by simp_all
  from destroy_acquired_effect [OF xs this] obtain g rest x where
    "dequeue_or_return cs w (rs_sem r) = Some x" "grants None xs (rs_sem r) x g rest"
    "settled_on rest (fst x)" by blast
  with grants_sem_inv [OF this(2)] S_destroy show ?thesis
    by (intro racing_invI [of rest]) (auto simp: racing_step_def case_prod_beta)
qed (use ok in simp_all)

lemma racing_inv_step:
  assumes "racing_inv r" and "racing_ok e r"
  shows "racing_inv (fst (racing_step e r))"
proof -
  obtain xs where xs: "sem_inv_on xs (rs_sem r)"
    and st: "settled_on xs (rs_sem r) \<or> 0 < rs_checks r + rs_grants r"
    using assms(1) settled_iff by (auto simp: racing_inv_def sem_inv_def sem_inv_on_def)
  have c: "waiter_chain (rs_sem r) xs" using xs by (simp add: sem_inv_on_def)
  show ?thesis
  proof (cases e)
    case (R_add n)
    then have "int n + sm_permits (rs_sem r) \<le> ptrdiff_max" "0 \<le> sm_permits (rs_sem r)"
      using assms(2) xs by (auto simp: no_overflow_def sem_inv_on_def)
    with fetch_add_sem_inv(1) [OF xs, of "int n"] R_add show ?thesis
      by (intro racing_invI [of xs]) (simp_all add: racing_step_def fits_range del: fetch_add_simps)
  next
    case R_check
    with c xs st assms(2) show ?thesis
      by (intro racing_invI [of xs]) (auto simp: racing_step_def waiter_chain_def settled_on_def)
  next
    case (R_grant cs)
    then have "cas_ok cs" "sm_permits (rs_sem r) + cas_total cs \<le> ptrdiff_max"
      using assms(2) by (auto simp: no_overflow_def)
    from grant_effect [OF xs this, of None] obtain rest s' k where
      "grant_and_wake None cs (rs_sem r) = Some (s', k)" "sem_inv_on rest s'" "settled_on rest s'"
      by metis
    with R_grant show ?thesis
      by (intro racing_invI [of rest]) (simp_all add: racing_step_def)
  next
    case (R_other e')
    with racing_inv_other [OF xs st] assms(2) show ?thesis by simp
  qed
qed

text \<open>
  C14. No wake-up is lost between the permit counter and the queue: however the parts of
  releases interleave with one another, with acquirers that try, enqueue and grant, and with
  the destruction of served awaiters, when every release has finished the waiter at the front
  (if any) asks for more than the permits there are. This is what the order "publish the
  waiter, then read the permits" against "add the permits, then read the flag" is for.
\<close>

theorem no_lost_wakeup:
  assumes "sem_inv (rs_sem r)" and "settled (rs_sem r)" and "run_ok racing_step racing_ok es r"
    and "rs_checks (fst (run racing_step es r)) = 0" and "rs_grants (fst (run racing_step es r)) = 0"
  shows "case sm_head (rs_sem (fst (run racing_step es r))) of None \<Rightarrow> True
    | Some w \<Rightarrow> sm_permits (rs_sem (fst (run racing_step es r))) <
        w_requested (sm_waiters (rs_sem (fst (run racing_step es r))) w)"
proof -
  have "racing_inv r \<Longrightarrow> run_ok racing_step racing_ok es r \<Longrightarrow> racing_inv (fst (run racing_step es r))" for r
    by (induction es arbitrary: r) (auto intro: racing_inv_step)
  moreover have "racing_inv r" using assms(1,2) by (simp add: racing_inv_def)
  ultimately have "racing_inv (fst (run racing_step es r))" using assms(3) by blast
  with assms(4,5) show ?thesis
    by (simp add: racing_inv_def settled_def)
qed

theorem no_lost_wakeup_witness:
  "\<exists>r. run racing_step [R_add 1, R_check, R_other (S_enqueue 2 [])]
      \<lparr>rs_sem = idle_sem 0, rs_checks = 0, rs_grants = 0\<rparr> = r \<and>
    (case sm_head (rs_sem (fst r)) of None \<Rightarrow> True
     | Some w \<Rightarrow> sm_permits (rs_sem (fst r)) < w_requested (sm_waiters (rs_sem (fst r)) w))"
proof -
  let ?r = "\<lparr>rs_sem = idle_sem 0, rs_checks = 0, rs_grants = 0\<rparr>"
  let ?es = "[R_add 1, R_check, R_other (S_enqueue 2 [])]"
  have f: "sm_has_waiters (idle_sem 0) = False" "to_ptrdiff 1 = 1"
    by (simp_all add: idle_sem_def fits_ptrdiff_def)
  have inv: "sem_inv_on [] (fetch_add 1 (idle_sem 0))"
    using fetch_add_sem_inv(1) [OF idle_sem_inv, of 0 1] by (simp add: ptrdiff_max_def)
  have q: "\<not> queued (fetch_add 1 (idle_sem 0)) w" "wake_of (fetch_add 1 (idle_sem 0)) w = (Some 0, 10 + w)" for w
    using queued_iff [of "fetch_add 1 (idle_sem 0)" "[]"] inv idle_sem_fields(3)
    by (simp_all add: sem_inv_on_def wake_of_def)
  have ok: "sem_ok (S_enqueue 2 []) (fetch_add 1 (idle_sem 0))"
    by (simp add: no_overflow_def linked_or_resolved_def q f ptrdiff_max_def)
  obtain b x where x: "try_acquire_or_enqueue [] 2 (fetch_add 1 (idle_sem 0)) = Some (b, x)"
    using enqueue_effect [OF inv ok] by blast
  have "sem_inv (idle_sem 0)" "settled (idle_sem 0)"
    using idle_sem_inv [of 0] by (auto simp: sem_inv_def ptrdiff_max_def settled_def)
  moreover have "run_ok racing_step racing_ok ?es ?r"
    using ok by (simp add: racing_step_def f no_overflow_def ptrdiff_max_def)
  moreover have "rs_checks (fst (run racing_step ?es ?r)) = 0 \<and> rs_grants (fst (run racing_step ?es ?r)) = 0"
    by (simp add: racing_step_def f x case_prod_beta)
  ultimately show ?thesis
    using no_lost_wakeup [of ?r ?es] unfolding racing_sem.select_convs by blast
qed

section \<open>Corners the code leaves open\<close>

text \<open>
  Cancelling a waiter takes it out of the queue without granting: when the waiter at the front
  asked for more than there is and the next one for less, the next one stays suspended although
  its permits are there, until somebody releases again.
\<close>

lemma cancel_strands_next_waiter:
  assumes "sem_inv_on (w # v # xs) s" and "sm_permits s < w_requested (sm_waiters s w)"
    and "w_requested (sm_waiters s v) \<le> sm_permits s"
  shows "settled s \<and> fst (try_cancel_waiter w s) \<and> \<not> settled (snd (try_cancel_waiter w s))"
proof -
  have c: "waiter_chain s (w # v # xs)" using assms(1) by (simp add: sem_inv_on_def)
  have "linked_or_resolved w s" using queued_iff [OF c] by (simp add: linked_or_resolved_def)
  from cancel_effect [OF assms(1) this] have
    r: "fst (try_cancel_waiter w s)" "sem_inv_on (v # xs) (snd (try_cancel_waiter w s))"
      "sm_permits (snd (try_cancel_waiter w s)) = sm_permits s" by auto
  then have "\<not> settled (snd (try_cancel_waiter w s))"
    using assms(3) settled_iff [of "snd (try_cancel_waiter w s)" "v # xs"]
    by (auto simp: sem_inv_on_def settled_on_def try_cancel_waiter_def)
  with r(1) assms(2) settled_iff [OF c] show ?thesis
    by (simp add: settled_on_def)
qed

text \<open>
  The callback of an awaiter's guard can run after the guard is armed and before the awaiter is
  queued. It then unlinks a waiter that is in no queue, which empties the queue: everybody
  suspended on the semaphore is forgotten.
\<close>

lemma cancel_before_enqueue_empties_queue:
  assumes "\<not> w_acquired (sm_waiters s w)" "\<not> w_cancelled (sm_waiters s w)"
    and "w_prev (sm_waiters s w) = None" "w_next (sm_waiters s w) = None"
  shows "fst (try_cancel_waiter w s) \<and> sm_head (snd (try_cancel_waiter w s)) = None \<and>
    \<not> sm_has_waiters (snd (try_cancel_waiter w s))"
  using assms by (simp add: try_cancel_waiter_def unlink_def Let_def)

lemma cancel_before_enqueue_example:
  "sem_inv_on [1, 2] demo_sem \<and> sm_head (snd (try_cancel_waiter 3 demo_sem)) = None"
proof -
  have "w_prev (sm_waiters demo_sem 3) = None" "w_next (sm_waiters demo_sem 3) = None"
    by (simp_all add: demo_sem_def link_tail_def Let_def demo_waiter_def)
  with demo_sem_inv cancel_before_enqueue_empties_queue [of demo_sem 3] show ?thesis
    by (simp add: demo_sem_fields)
qed

end
