(* ===== verification/Acquire.thy ===== *)
theory Acquire
  imports Semaphore_Laws
begin

text \<open>
  The user's side of the semaphore: \<^verbatim>\<open>semaphore_permit\<close>, \<^verbatim>\<open>semaphore\<close> and its
  \<^verbatim>\<open>acquire_awaiter\<close> (\<^verbatim>\<open>include/coasio/sync/semaphore.hpp\<close>), and \<^verbatim>\<open>mutex\<close>
  (\<^verbatim>\<open>include/coasio/sync/mutex.hpp\<close>), a semaphore with one permit. Semaphore states
  are shared, so they live in a store; a permit, a semaphore and an awaiter hold the address of
  one. An awaiter's waiter lives in the waiter store of its semaphore.
\<close>

section \<open>Permits\<close>

type_synonym sems = "nat \<Rightarrow> sem_state"

record semaphore_permit =
  pm_sem :: "nat option"
  pm_count :: nat

definition permit_new :: "nat option \<Rightarrow> nat \<Rightarrow> semaphore_permit" where
  "permit_new sem count = \<lparr>pm_sem = sem, pm_count = count\<rparr>"

declare permit_new_def [simp]

definition release_at :: "cas list \<Rightarrow> nat \<Rightarrow> nat \<Rightarrow> sems \<Rightarrow> (sems \<times> wake list) option" where
  "release_at cs a n m = map_option (\<lambda>(s, k). (m(a := s), k)) (release cs n (m a))"

definition release_if_held :: "cas list \<Rightarrow> semaphore_permit \<Rightarrow> sems \<Rightarrow> (sems \<times> wake list) option" where
  "release_if_held cs p m =
     (case pm_sem p of
        Some a \<Rightarrow> if 0 < pm_count p then release_at cs a (pm_count p) m else Some (m, [])
      | None \<Rightarrow> Some (m, []))"

definition permit_move :: "semaphore_permit \<Rightarrow> semaphore_permit \<times> semaphore_permit" where
  "permit_move o' = (o', \<lparr>pm_sem = None, pm_count = 0\<rparr>)"

text \<open>\<open>same\<close> is the test \<^verbatim>\<open>this == &o\<close>.\<close>

definition permit_assign ::
  "cas list \<Rightarrow> bool \<Rightarrow> semaphore_permit \<Rightarrow> semaphore_permit \<Rightarrow> sems \<Rightarrow>
   (semaphore_permit \<times> semaphore_permit \<times> sems \<times> wake list) option" where
  "permit_assign cs same p o' m =
     (if same then Some (p, o', m, [])
      else map_option (\<lambda>(m', k). (o', \<lparr>pm_sem = None, pm_count = 0\<rparr>, m', k)) (release_if_held cs p m))"

definition permit_destroy :: "cas list \<Rightarrow> semaphore_permit \<Rightarrow> sems \<Rightarrow> (sems \<times> wake list) option" where
  "permit_destroy cs p m = release_if_held cs p m"

definition permit_forget :: "semaphore_permit \<Rightarrow> semaphore_permit" where
  "permit_forget p = p\<lparr>pm_count := 0\<rparr>"

text \<open>\<^verbatim>\<open>merge\<close> adds in \<^verbatim>\<open>size_t\<close>; permits of different semaphores fail the assertion.\<close>

definition permit_merge ::
  "semaphore_permit \<Rightarrow> semaphore_permit \<Rightarrow> (semaphore_permit \<times> semaphore_permit) option" where
  "permit_merge p other =
     (if pm_sem p \<noteq> pm_sem other then None
      else Some (p\<lparr>pm_count := to_size (int (pm_count p) + int (pm_count other))\<rparr>,
                 other\<lparr>pm_count := 0\<rparr>))"

definition permit_holds :: "semaphore_permit \<Rightarrow> bool" where
  "permit_holds p \<longleftrightarrow> 0 < pm_count p"

text \<open>\<^verbatim>\<open>count()\<close>.\<close>

definition permit_count :: "semaphore_permit \<Rightarrow> nat" where
  "permit_count p = pm_count p"

section \<open>The semaphore and its awaiter\<close>



definition semaphore_available_permits :: "nat \<Rightarrow> sems \<Rightarrow> nat" where
  "semaphore_available_permits a m = available_permits (m a)"

definition semaphore_release :: "cas list \<Rightarrow> nat \<Rightarrow> nat \<Rightarrow> sems \<Rightarrow> (sems \<times> wake list) option" where
  "semaphore_release cs a n m = release_at cs a n m"

text \<open>
  The callback an awaiter arms: cancel the waiter \<open>w\<close> of the semaphore \<open>a\<close> and schedule its
  coroutine if that succeeded.
\<close>

datatype acquire_cb = Cancel_acquire nat nat

fun run_acquire_cb :: "acquire_cb \<Rightarrow> sems \<times> wake list \<Rightarrow> sems \<times> wake list" where
  "run_acquire_cb (Cancel_acquire a w) (m, k) =
     (case try_cancel_waiter w (m a) of
        (b, s) \<Rightarrow> (m(a := s), if b then k @ [wake_of s w] else k))"

record acquire_awaiter =
  aq_st :: nat
  aq_w :: nat
  aq_scope :: scope_ptr
  aq_guard :: nat
  aq_enqueued :: bool

definition at_waiter :: "acquire_awaiter \<Rightarrow> (waiter \<Rightarrow> waiter) \<Rightarrow> sems \<Rightarrow> sems" where
  "at_waiter aw f m = m(aq_st aw := upd_waiter (aq_w aw) f (m (aq_st aw)))"

definition waiter_of :: "acquire_awaiter \<Rightarrow> sems \<Rightarrow> waiter" where
  "waiter_of aw m = sm_waiters (m (aq_st aw)) (aq_w aw)"

text \<open>
  \<^verbatim>\<open>semaphore::acquire(permits)\<close> and the constructor of the awaiter, with its waiter at the
  address \<open>w\<close> and its guard at \<open>g\<close>.
\<close>

definition semaphore_acquire ::
  "nat \<Rightarrow> nat \<Rightarrow> nat \<Rightarrow> nat \<Rightarrow> sems \<Rightarrow> (acquire_awaiter \<times> sems) option" where
  "semaphore_acquire a n w g m =
     (if n \<le> MAX_PERMITS then
        let aw = \<lparr>aq_st = a, aq_w = w, aq_scope = None, aq_guard = g, aq_enqueued = False\<rparr>
        in Some (aw, at_waiter aw (\<lambda>_. \<lparr>w_prev = None, w_next = None, w_handle = 0, w_rt = None,
             w_requested = to_ptrdiff (int n), w_acquired = False, w_cancelled = False\<rparr>) m)
      else None)"

definition acquire_set_cancel_scope ::
  "scope_ptr \<Rightarrow> acquire_awaiter \<Rightarrow> acquire_cb cancel_world \<Rightarrow>
   (acquire_awaiter \<times> acquire_cb cancel_world) option" where
  "acquire_set_cancel_scope s aw cw =
     map_option (\<lambda>cw'. (aw\<lparr>aq_scope := s\<rparr>, cw')) (bind (aq_guard aw) s cw)"

definition acquire_ready ::
  "cas list \<Rightarrow> acquire_awaiter \<Rightarrow> sems \<Rightarrow> acquire_cb cancel_world \<Rightarrow> bool \<times> sems" where
  "acquire_ready cs aw m cw =
     (if already_cancelled (aq_scope aw) cw then (True, m)
      else case try_acquire cs (to_size (w_requested (waiter_of aw m))) (m (aq_st aw)) of
          (True, s) \<Rightarrow> (True, at_waiter aw (\<lambda>r. r\<lparr>w_acquired := True\<rparr>) (m(aq_st aw := s)))
        | (False, s) \<Rightarrow> (False, m(aq_st aw := s)))"

text \<open>
  \<^verbatim>\<open>await_suspend\<close> in its three parts, between which other threads may act: record the
  coroutine and arm the guard; enqueue the waiter; look at the waiter's \<^verbatim>\<open>cancelled\<close>.
\<close>

definition acquire_arm ::
  "acquire_awaiter \<Rightarrow> runtime_ptr \<Rightarrow> handle \<Rightarrow> sems \<Rightarrow> acquire_cb cancel_world \<Rightarrow>
   (arm_result \<times> sems \<times> acquire_cb cancel_world) option" where
  "acquire_arm aw rt h m cw =
     map_option (\<lambda>(r, cw'). (r, at_waiter aw (\<lambda>r. r\<lparr>w_handle := h, w_rt := rt\<rparr>) m, cw'))
       (arm (aq_guard aw) (Cancel_acquire (aq_st aw) (aq_w aw)) cw)"

definition acquire_enqueue ::
  "cas list \<Rightarrow> acquire_awaiter \<Rightarrow> sems \<Rightarrow> (bool \<times> acquire_awaiter \<times> sems \<times> wake list) option" where
  "acquire_enqueue cs aw m =
     map_option (\<lambda>(b, s, k). (b, aw\<lparr>aq_enqueued := \<not> b\<rparr>, m(aq_st aw := s), k))
       (try_acquire_or_enqueue cs (aq_w aw) (m (aq_st aw)))"

definition acquire_recheck :: "acquire_awaiter \<Rightarrow> sems \<Rightarrow> bool \<times> acquire_awaiter" where
  "acquire_recheck aw m =
     (if w_cancelled (waiter_of aw m) then (False, aw\<lparr>aq_enqueued := False\<rparr>) else (True, aw))"

definition acquire_suspend ::
  "cas list \<Rightarrow> acquire_awaiter \<Rightarrow> runtime_ptr \<Rightarrow> handle \<Rightarrow> sems \<Rightarrow> acquire_cb cancel_world \<Rightarrow>
   (bool \<times> acquire_awaiter \<times> sems \<times> acquire_cb cancel_world \<times> wake list) option" where
  "acquire_suspend cs aw rt h m cw =
     (case acquire_arm aw rt h m cw of
        None \<Rightarrow> None
      | Some (Arm_already_cancelled, m1, cw1) \<Rightarrow> Some (False, aw, m1, cw1, [])
      | Some (Arm_armed, m1, cw1) \<Rightarrow>
          (case acquire_enqueue cs aw m1 of
             None \<Rightarrow> None
           | Some (True, aw2, m2, k) \<Rightarrow> Some (False, aw2, m2, cw1, k)
           | Some (False, aw2, m2, k) \<Rightarrow>
               (case acquire_recheck aw2 m2 of (b, aw3) \<Rightarrow> Some (b, aw3, m2, cw1, k))))"

definition acquire_resume ::
  "acquire_awaiter \<Rightarrow> sems \<Rightarrow> acquire_cb cancel_world \<Rightarrow>
   (error_code + semaphore_permit) \<times> acquire_awaiter \<times> acquire_cb cancel_world" where
  "acquire_resume aw m cw =
     (if w_acquired (waiter_of aw m)
      then Inr (permit_new (Some (aq_st aw)) (to_size (w_requested (waiter_of aw m))))
      else Inl err_cancelled,
      aw\<lparr>aq_enqueued := False\<rparr>, snd (disarm (aq_guard aw) cw))"

definition acquire_destroy ::
  "cas list \<Rightarrow> acquire_awaiter \<Rightarrow> sems \<Rightarrow> acquire_cb cancel_world \<Rightarrow>
   (sems \<times> acquire_cb cancel_world \<times> wake list) option" where
  "acquire_destroy cs aw m cw =
     (if aq_enqueued aw
      then map_option (\<lambda>(s, k). (m(aq_st aw := s), snd (disarm (aq_guard aw) cw), k))
             (dequeue_or_return cs (aq_w aw) (m (aq_st aw)))
      else Some (m, snd (disarm (aq_guard aw) cw), []))"

section \<open>The mutex\<close>

record mutex_guard =
  mg_permit :: semaphore_permit


definition mutex_lock :: "nat \<Rightarrow> nat \<Rightarrow> nat \<Rightarrow> sems \<Rightarrow> (acquire_awaiter \<times> sems) option" where
  "mutex_lock a w g m = semaphore_acquire a 1 w g m"


section \<open>Acquiring and releasing\<close>

lemma at_waiter_simps [simp]:
  "at_waiter aw f m (aq_st aw) = upd_waiter (aq_w aw) f (m (aq_st aw))"
  "waiter_of aw (at_waiter aw f m) = f (waiter_of aw m)"
  "b \<noteq> aq_st aw \<Longrightarrow> at_waiter aw f m b = m b"
  by (simp_all add: at_waiter_def waiter_of_def)

lemma MAX_PERMITS_eq: "MAX_PERMITS = 2 ^ 63 - 1"
  by (simp add: MAX_PERMITS_def to_size_nonneg ptrdiff_max_def)

lemma request_casts:
  "n \<le> MAX_PERMITS \<Longrightarrow> to_ptrdiff (int n) = int n"
  "n \<le> MAX_PERMITS \<Longrightarrow> to_size (int n) = n"
  by (simp_all add: MAX_PERMITS_eq fits_ptrdiff_def to_size_nonneg ptrdiff_max_def)

text \<open>Attempts that fail only spuriously, nobody else adding permits meanwhile.\<close>

definition spurious :: "cas list \<Rightarrow> bool" where
  "spurious cs \<longleftrightarrow> set cs \<subseteq> {Cas_ok, Cas_fails 0}"

lemma spurious_ok: "spurious cs \<Longrightarrow> cas_ok cs \<and> cas_total cs = 0"
  by (induction cs rule: cas_total.induct) (auto simp: spurious_def)

lemma fetch_add_zero: "fits_ptrdiff (sm_permits s) \<Longrightarrow> fetch_add 0 s = s"
  by (cases s) (simp add: fetch_add_def)

lemma try_acquire_loop_spurious:
  "spurious cs \<Longrightarrow> need \<le> sm_permits s \<Longrightarrow> fits_ptrdiff (sm_permits s) \<Longrightarrow>
   try_acquire_loop need cs s = (True, s\<lparr>sm_permits := sm_permits s - need\<rparr>)"
  by (induction need cs s rule: try_acquire_loop.induct) (auto simp: spurious_def fetch_add_zero)


lemma try_acquire_idle:
  assumes "spurious cs" and "sm_head s = None" and "n \<le> MAX_PERMITS"
    and "int n \<le> sm_permits s" and "sm_permits s \<le> ptrdiff_max"
  shows "try_acquire cs n s = (True, s\<lparr>sm_permits := sm_permits s - int n\<rparr>)"
proof -
  have "fits_ptrdiff (sm_permits s)" using assms(4,5) by (simp add: fits_range)
  then show ?thesis
    using assms try_acquire_loop_spurious [OF assms(1,4)] by (simp add: try_acquire_def request_casts)
qed

text \<open>
  On a semaphore with enough permits and an empty queue, \<^verbatim>\<open>co_await sem.acquire(n)\<close> does
  not suspend and yields a permit of \<open>n\<close>; meanwhile \<open>n\<close> permits fewer are available; and the
  destruction of the permit gives exactly those back and wakes nobody.
\<close>

lemma acquire_release_roundtrip:
  assumes "sem_inv_on [] (m a)" and "0 < n" and "int n \<le> sm_permits (m a)"
    and "spurious cs" and "semaphore_acquire a n w g m = Some (aw, m1)"
  shows "\<exists>m2 p m3. acquire_ready cs aw m1 cw = (True, m2) \<and>
    fst (acquire_resume aw m2 cw) = Inr p \<and> pm_count p = n \<and>
    int (available_permits (m2 a)) = int (available_permits (m a)) - int n \<and>
    permit_destroy cs2 p m2 = Some (m3, []) \<and> available_permits (m3 a) = available_permits (m a)"
proof -
  have aw: "aq_st aw = a" "aq_w aw = w" "aq_scope aw = None" and n: "n \<le> MAX_PERMITS"
    and req: "w_requested (waiter_of aw m1) = int n"
    and m1: "sm_permits (m1 a) = sm_permits (m a)" "sm_head (m1 a) = sm_head (m a)"
      "sm_has_waiters (m1 a) = sm_has_waiters (m a)"
    using assms(5) by (auto simp: semaphore_acquire_def Let_def request_casts at_waiter_def waiter_of_def
        split: if_splits)
  have p: "sm_permits (m a) \<le> ptrdiff_max" "0 \<le> sm_permits (m a)"
    and c: "waiter_chain (m a) []"
    using assms(1) by (simp_all add: sem_inv_on_def)
  have h: "sm_head (m1 a) = None" "\<not> sm_has_waiters (m1 a)"
    using c m1 waiter_chain_head [OF c] by (simp_all add: waiter_chain_def)
  let ?s = "(m1 a)\<lparr>sm_permits := sm_permits (m1 a) - int n\<rparr>"
  let ?m2 = "at_waiter aw (\<lambda>r. r\<lparr>w_acquired := True\<rparr>) (m1(a := ?s))"
  have t: "try_acquire cs n (m1 a) = (True, ?s)"
    using try_acquire_idle [OF assms(4) h(1) n] m1 p assms(3) by simp
  have same: "waiter_of aw (m1(a := ?s)) = waiter_of aw m1"
    by (simp add: waiter_of_def aw)
  have ready: "acquire_ready cs aw m1 cw = (True, ?m2)"
    by (simp add: acquire_ready_def already_cancelled_def aw req request_casts n t)
  have m2: "sm_permits (?m2 a) = sm_permits (m a) - int n" "\<not> sm_has_waiters (?m2 a)"
      "waiter_of aw ?m2 = (waiter_of aw m1)\<lparr>w_acquired := True\<rparr>"
    using h m1 aw by (auto simp: at_waiter_def waiter_of_def)
  let ?p = "\<lparr>pm_sem = Some a, pm_count = n\<rparr>"
  have res: "fst (acquire_resume aw ?m2 cw) = Inr ?p"
    by (simp add: acquire_resume_def m2(3) same req request_casts n aw)
  have rel: "release cs2 n (?m2 a) = Some (fetch_add (int n) (?m2 a), [])"
    using m2(2) assms(2) n by (simp add: release_def Let_def request_casts)
  have regained: "sm_permits (fetch_add (int n) (?m2 a)) = sm_permits (m a)"
    using m2(1) p by (simp add: fits_range)
  have av: "int (available_permits (?m2 a)) = int (available_permits (m a)) - int n"
    using m2(1) p assms(3) by (simp add: available_permits_def to_size_nonneg)
  show ?thesis
    by (intro exI [of _ ?m2] exI [of _ ?p] exI [of _ "?m2(a := fetch_add (int n) (?m2 a))"] conjI)
      (use ready res rel regained av assms(2) in \<open>simp_all add: permit_destroy_def release_if_held_def
        release_at_def available_permits_def del: fetch_add_simps(5)\<close>)
qed

lemma acquire_release_roundtrip_witness:
  "\<exists>aw m1 m2 p m3. semaphore_acquire 0 3 7 1 (\<lambda>_. idle_sem 5) = Some (aw, m1) \<and>
     acquire_ready [Cas_fails 0] aw m1 demo_scope = (True, m2) \<and>
     fst (acquire_resume aw m2 demo_scope) = Inr p \<and> pm_count p = 3 \<and>
     permit_destroy [] p m2 = Some (m3, []) \<and> available_permits (m3 0) = 5"
proof -
  have inv: "sem_inv_on [] (idle_sem 5)"
    by (rule idle_sem_inv) (simp_all add: ptrdiff_max_def)
  obtain aw m1 where a: "semaphore_acquire 0 3 7 1 (\<lambda>_. idle_sem 5) = Some (aw, m1)"
    by (simp add: semaphore_acquire_def MAX_PERMITS_eq Let_def)
  have "spurious [Cas_fails 0]" by (simp add: spurious_def)
  from acquire_release_roundtrip [where cw = demo_scope and ?cs2.0 = "[]", of "\<lambda>_. idle_sem 5",
      OF inv _ _ this a] a show ?thesis
    by (auto simp: available_permits_def to_size_def)
qed

section \<open>Cancelling a suspended acquirer\<close>

text \<open>Recording the coroutine in a waiter that is not queued leaves the queue alone.\<close>

lemma record_keeps_inv:
  assumes "sem_inv_on xs s" and "w \<notin> set xs"
  shows "sem_inv_on xs (upd_waiter w (\<lambda>r. r\<lparr>w_handle := h, w_rt := rt\<rparr>) s)"
proof -
  let ?s = "upd_waiter w (\<lambda>r. r\<lparr>w_handle := h, w_rt := rt\<rparr>) s"
  have "waiter_chain ?s xs"
    using assms by (subst waiter_chain_cong [where s' = s]) (auto simp: sem_inv_on_def)
  moreover have mp: "map (wake_of ?s) xs = map (wake_of s) xs"
    using assms(2) by (auto simp: wake_of_def)
  have "distinct (map (wake_of ?s) xs)"
    using assms(1) unfolding mp sem_inv_on_def by blast
  ultimately show ?thesis
    using assms by (auto simp: sem_inv_on_def)
qed

lemma suspended_waiter:
  assumes inv: "sem_inv_on xs (m a)" and aw: "aw = \<lparr>aq_st = a, aq_w = w, aq_scope = sc, aq_guard = g, aq_enqueued = False\<rparr>"
    and fresh: "\<not> linked_or_resolved w (m a)" "0 \<le> w_requested (waiter_of aw m)"
      "\<forall>v. queued (m a) v \<longrightarrow> wake_of (m a) v \<noteq> (rt, h)"
    and cas: "no_overflow 0 cs (m a)"
    and s: "acquire_suspend cs aw rt h m cw = Some (True, aw', m1, cw1, ks)"
    and armed: "arm g (Cancel_acquire a w) cw = Some (Arm_armed, cwa)"
  shows "\<exists>ys. sem_inv_on ys (m1 a) \<and> w \<in> set ys \<and> wake_of (m1 a) w = (rt, h) \<and> cw1 = cwa \<and>
    aw' = aw\<lparr>aq_enqueued := True\<rparr>"
proof -
  let ?s = "upd_waiter w (\<lambda>r. r\<lparr>w_handle := h, w_rt := rt\<rparr>) (m a)"
  have c: "waiter_chain (m a) xs" using inv by (simp add: sem_inv_on_def)
  have w: "w \<notin> set xs" using fresh(1) queued_iff [OF c] by (simp add: linked_or_resolved_def)
  have i: "sem_inv_on xs ?s" by (rule record_keeps_inv [OF inv w])
  then have c': "waiter_chain ?s xs" by (simp add: sem_inv_on_def)
  have wo: "wake_of ?s w = (rt, h)" "v \<noteq> w \<Longrightarrow> wake_of ?s v = wake_of (m a) v" for v
    by (simp_all add: wake_of_def)
  have "wake_of ?s v \<noteq> (rt, h)" if "v \<in> set xs" for v
    using that w wo(2) [of v] fresh(3) queued_iff [OF c, of v] by metis
  then have ok: "sem_ok (S_enqueue w cs) ?s"
    using fresh(1,2) cas queued_iff [OF c] queued_iff [OF c'] wo(1) aw
    by (auto simp: linked_or_resolved_def no_overflow_def waiter_of_def)
  obtain g' r rest where e: "try_acquire_or_enqueue cs w ?s = Some (w \<in> set g', r)"
      "grants (Some w) (xs @ [w]) ?s r g' rest"
    using enqueue_effect [OF i ok] by blast
  have sv: "served g' ?s (fst r)" "xs @ [w] = g' @ rest" "sem_inv_on rest (fst r)"
    using e(2) by (auto simp: grants_def)
  obtain s2 k2 where r: "r = (s2, k2)" by fastforce
  have "w \<notin> set g' \<and> aw' = aw\<lparr>aq_enqueued := True\<rparr> \<and> m1 a = fst r \<and> cw1 = cwa"
    using s armed e(1) aw r
    by (cases "w \<in> set g'") (auto simp: acquire_suspend_def acquire_arm_def acquire_enqueue_def at_waiter_def acquire_recheck_def
        split: if_splits bool.splits)
  moreover from this sv(2) have "w \<in> set rest"
    by (metis Un_iff in_set_conv_decomp set_append)
  ultimately show ?thesis
    using sv(1,3) wo(1) by (auto simp: served_def)
qed

text \<open>
  C18. Cancelling the scope of a coroutine that is suspended in \<^verbatim>\<open>acquire\<close> schedules it once
  and nobody else, takes its waiter out of the queue and leaves the others queued in order and
  the permits as they are; its \<^verbatim>\<open>await_resume\<close> yields \<^verbatim>\<open>cancelled\<close>; and the destruction of
  the awaiter, resumed or not, returns no permit and wakes nobody.
\<close>

theorem suspended_acquirer_is_cancelled:
  assumes "cancel_inv cw" and "\<not> cancelled sc cw" and "armed_on sc cw = {}"
    and "g_state (guards cw g) = Idle" and "g_scope (guards cw g) = Some sc"
    and "aw = \<lparr>aq_st = a, aq_w = w, aq_scope = Some sc, aq_guard = g, aq_enqueued = False\<rparr>"
    and "sem_inv_on xs (m a)" and "\<not> linked_or_resolved w (m a)" and "0 \<le> w_requested (waiter_of aw m)"
    and "\<forall>v. queued (m a) v \<longrightarrow> wake_of (m a) v \<noteq> (rt, h)" and "no_overflow 0 cs (m a)"
    and "acquire_suspend cs aw rt h m cw = Some (True, aw', m1, cw1, ks)"
  shows "\<exists>ys cw2 m2 cw3. sem_inv_on ys (m1 a) \<and>
    cancel run_acquire_cb sc cw1 (m1, k) = Some (cw2, (m2, k @ [(rt, h)])) \<and>
    sem_inv_on (remove1 w ys) (m2 a) \<and> sm_permits (m2 a) = sm_permits (m1 a) \<and>
    fst (acquire_resume aw' m2 cw2) = Inl err_cancelled \<and>
    acquire_destroy cs' aw' m2 cw2 = Some (m2, cw3, [])"
proof -
  obtain cwa where arm: "arm g (Cancel_acquire a w) cw = Some (Arm_armed, cwa)" "cancel_inv cwa"
      "armed_on sc cwa = {g}" "g_cb (guards cwa g) = Some (Cancel_acquire a w)" "\<not> cancelled sc cwa"
    using arm_idle [OF assms(4,5,2,1,3)] by blast
  obtain ys where ys: "sem_inv_on ys (m1 a)" "w \<in> set ys" "wake_of (m1 a) w = (rt, h)" "cw1 = cwa"
      "aw' = aw\<lparr>aq_enqueued := True\<rparr>"
    using suspended_waiter [OF assms(7,6,8-12) arm(1)] by blast
  then have w: "\<not> w_acquired (sm_waiters (m1 a) w)" "linked_or_resolved w (m1 a)"
    using queued_iff [of "m1 a" ys] by (auto simp: sem_inv_on_def linked_or_resolved_def)
  obtain s where s: "try_cancel_waiter w (m1 a) = (True, s)" "sem_inv_on (remove1 w ys) s"
      "wake_of s = wake_of (m1 a)" "sm_permits s = sm_permits (m1 a)"
    using cancel_effect [OF ys(1) w(2)] ys(2) by (metis prod.collapse)
  then have sw: "w_cancelled (sm_waiters s w)" "\<not> w_acquired (sm_waiters s w)"
    using w(1) by (auto simp: try_cancel_waiter_def split: if_splits)
  obtain cw2 where "cancel run_acquire_cb sc cw1 (m1, k) = Some (cw2, (m1(a := s), k @ [(rt, h)]))"
    using cancel_single [OF arm(2,5,3,4), of run_acquire_cb "(m1, k)"] s(1,3) ys(3,4)
    by (auto simp: wake_of_def fun_eq_iff)
  then show ?thesis
    using ys(1,5) s(2,4) sw assms(6)
    by (intro exI [of _ ys] exI [of _ cw2] exI [of _ "m1(a := s)"] exI [of _ "snd (disarm g cw2)"])
      (simp add: acquire_resume_def acquire_destroy_def waiter_of_def dequeue_or_return_def)
qed

theorem suspended_acquirer_is_cancelled_witness:
  "\<exists>aw' m1 cw1 cw2 m2.
     acquire_suspend [] \<lparr>aq_st = 0, aq_w = 2, aq_scope = Some 0, aq_guard = 3, aq_enqueued = False\<rparr>
       (Some 0) 9 (\<lambda>_. idle_sem 0) demo_scope = Some (True, aw', m1, cw1, []) \<and>
     cancel run_acquire_cb 0 cw1 (m1, []) = Some (cw2, (m2, [(Some 0, 9)])) \<and>
     fst (acquire_resume aw' m2 cw2) = Inl err_cancelled"
proof -
  let ?aw = "\<lparr>aq_st = 0, aq_w = 2, aq_scope = Some 0, aq_guard = 3, aq_enqueued = False\<rparr>"
  let ?s = "upd_waiter 2 (\<lambda>r. r\<lparr>w_handle := 9, w_rt := Some 0\<rparr>) (idle_sem 0)"
  have inv: "sem_inv_on [] (idle_sem 0)"
    by (rule idle_sem_inv) (simp_all add: ptrdiff_max_def)
  have "waiter_chain ?s []" using record_keeps_inv [OF inv, of 2] by (simp add: sem_inv_on_def)
  then have c: "waiter_chain (link_tail 2 ?s) [2]" using waiter_chain_link [of ?s "[]" 2] by simp
  have e: "try_acquire_or_enqueue [] 2 ?s = Some (False, link_tail 2 ?s, [])"
    by (simp add: try_acquire_or_enqueue_def grant_and_wake_def grant_step [OF c])
  obtain cwa where arm: "arm 3 (Cancel_acquire 0 2) demo_scope = Some (Arm_armed, cwa)"
    using arm_idle [of demo_scope 3 0 "Cancel_acquire 0 2"] by auto
  have s: "acquire_suspend [] ?aw (Some 0) 9 (\<lambda>_. idle_sem 0) demo_scope =
      Some (True, ?aw\<lparr>aq_enqueued := True\<rparr>, (\<lambda>_. idle_sem 0)(0 := link_tail 2 ?s), cwa, [])"
    by (simp add: acquire_suspend_def acquire_arm_def arm at_waiter_def acquire_enqueue_def e
        acquire_recheck_def waiter_of_def)
  have "\<not> linked_or_resolved 2 (idle_sem 0)" "no_overflow 0 [] (idle_sem 0)"
    by (simp_all add: linked_or_resolved_def no_overflow_def ptrdiff_max_def)
  from suspended_acquirer_is_cancelled [of demo_scope 0 3 ?aw 0 2 "[]" "\<lambda>_. idle_sem 0", OF _ _ _ _ _ refl inv
      this(1) _ _ this(2) s, of "[]" "[]"] s
  show ?thesis by (auto simp: waiter_of_def)
qed

section \<open>Mutual exclusion\<close>




section \<open>Corners the code leaves open\<close>

text \<open>
  When the callback runs between the arming of the guard and the enqueueing of the waiter, it
  schedules the coroutine; \<^verbatim>\<open>await_suspend\<close> then finds \<^verbatim>\<open>cancelled\<close> set and does not suspend
  either, so the coroutine is resumed twice; and the waiter stays queued although the awaiter,
  no longer marked enqueued, will not take it out when it is destroyed.
\<close>

lemma cancel_before_enqueue_resumes_twice:
  assumes "aw = \<lparr>aq_st = 0, aq_w = 2, aq_scope = Some 0, aq_guard = 3, aq_enqueued = False\<rparr>"
    and "run_acquire_cb (Cancel_acquire 0 2) (\<lambda>_. idle_sem 0, []) = (m1, k1)"
    and "acquire_enqueue [] aw m1 = Some (b, aw2, m2, k2)"
  shows "k1 = [(Some 0, 12)] \<and> \<not> b \<and> acquire_recheck aw2 m2 = (False, aw) \<and>
    sm_head (m2 0) = Some 2 \<and> acquire_destroy cs aw m2 cw = Some (m2, snd (disarm 3 cw), [])"
proof -
  let ?s = "upd_waiter 2 (\<lambda>r. r\<lparr>w_cancelled := True\<rparr>) (unlink 2 (idle_sem 0))"
  have m1: "m1 = (\<lambda>_. idle_sem 0)(0 := ?s)" "k1 = [wake_of ?s 2]"
    using assms(2) by (auto simp: try_cancel_waiter_def)
  have p: "w_prev (sm_waiters (idle_sem 0) 2) = None" "w_next (sm_waiters (idle_sem 0) 2) = None"
    by (simp_all add: idle_sem_def demo_waiter_def)
  have c: "waiter_chain ?s []"
    by (simp add: waiter_chain_def dll_def unlink_def Let_def p)
  then have "waiter_chain (link_tail 2 ?s) [2]" using waiter_chain_link [of ?s "[]" 2] by simp
  from grant_step [OF this, of 16 "Some 2" "[]" "[]" "[]"]
  have e: "try_acquire_or_enqueue [] 2 ?s = Some (False, link_tail 2 ?s, [])"
    by (simp add: try_acquire_or_enqueue_def grant_and_wake_def)
  show ?thesis
    using assms(1,3) e c waiter_chain_head [of "link_tail 2 ?s" "[2]"] waiter_chain_link [OF c, of 2] idle_sem_fields(3)
    by (auto simp: m1 acquire_enqueue_def acquire_recheck_def waiter_of_def acquire_destroy_def wake_of_def)
qed

end
