(* ===== verification/Async_Op.thy ===== *)
theory Async_Op
  imports Await_Cancel Coasio_Error
begin

text \<open>
  \<^verbatim>\<open>include/coasio/detail/async_op.hpp\<close> and \<^verbatim>\<open>sleep\<close> of \<^verbatim>\<open>include/coasio/time.hpp\<close>: a
  coroutine that awaits an operation of Asio, with the cancellation signal of the operation
  connected to the scope of the coroutine.

  Asio is a parameter. The state of the signal and of the operation of the awaitable at the
  address \<open>a\<close> is \<open>sigs a\<close>; \<open>emit\<close> is what \<^verbatim>\<open>sig_.emit(all)\<close> does to it and \<open>start\<close> what the
  initiation of the operation with the bound slot does. The call of the completion handler is
  an event with the error code and the first of the further arguments as its data.
\<close>

section \<open>The awaitable\<close>

record 'r asio_awaitable =
  ao_ec :: error_code
  ao_scope :: scope_ptr
  ao_guard :: nat
  ao_store :: 'r

datatype emit_cb = Emit nat

fun run_emit_cb :: "('s \<Rightarrow> 's) \<Rightarrow> emit_cb \<Rightarrow> (nat \<Rightarrow> 's) \<Rightarrow> nat \<Rightarrow> 's" where
  "run_emit_cb emit (Emit a) sigs = sigs(a := emit (sigs a))"

definition new_awaitable :: "nat \<Rightarrow> 'r \<Rightarrow> 'r asio_awaitable" where
  "new_awaitable g r = \<lparr>ao_ec = no_error, ao_scope = None, ao_guard = g, ao_store = r\<rparr>"

text \<open>
  \<^verbatim>\<open>async_op<Result>(init)\<close>: which operation of Asio the initiator starts is the request \<open>q\<close>;
  the result is value-initialised, to \<open>r\<close>.
\<close>

definition async_op :: "'q \<Rightarrow> nat \<Rightarrow> 'r \<Rightarrow> 'q \<times> 'r asio_awaitable" where
  "async_op q g r = (q, new_awaitable g r)"

definition async_set_cancel_scope ::
  "scope_ptr \<Rightarrow> 'r asio_awaitable \<Rightarrow> emit_cb cancel_world \<Rightarrow>
   ('r asio_awaitable \<times> emit_cb cancel_world) option" where
  "async_set_cancel_scope s aw cw =
     map_option (\<lambda>cw'. (aw\<lparr>ao_scope := s\<rparr>, cw')) (bind (ao_guard aw) s cw)"

definition async_ready :: "'r asio_awaitable \<Rightarrow> emit_cb cancel_world \<Rightarrow> bool \<times> 'r asio_awaitable" where
  "async_ready aw cw =
     (if already_cancelled (ao_scope aw) cw then (True, aw\<lparr>ao_ec := err_cancelled\<rparr>) else (False, aw))"

text \<open>
  \<^verbatim>\<open>await_suspend\<close> arms the guard, where a missing current runtime fails the assertion, and then
  initiates the operation; other threads may cancel the scope in between. \<open>async_suspend\<close> is both
  parts, when nobody does.
\<close>

definition async_arm ::
  "nat \<Rightarrow> runtime_ptr \<Rightarrow> 'r asio_awaitable \<Rightarrow> emit_cb cancel_world \<Rightarrow> (arm_result \<times> emit_cb cancel_world) option" where
  "async_arm a rt aw cw = (if rt = None then None else arm (ao_guard aw) (Emit a) cw)"

definition async_initiate :: "('s \<Rightarrow> 's) \<Rightarrow> nat \<Rightarrow> (nat \<Rightarrow> 's) \<Rightarrow> nat \<Rightarrow> 's" where
  "async_initiate start a sigs = sigs(a := start (sigs a))"

definition async_suspend ::
  "('s \<Rightarrow> 's) \<Rightarrow> nat \<Rightarrow> runtime_ptr \<Rightarrow> handle \<Rightarrow> 'r asio_awaitable \<Rightarrow> (nat \<Rightarrow> 's) \<Rightarrow>
   emit_cb cancel_world \<Rightarrow>
   ('r asio_awaitable \<times> (nat \<Rightarrow> 's) \<times> emit_cb cancel_world \<times> wake list) option" where
  "async_suspend start a rt h aw sigs cw =
     (case async_arm a rt aw cw of
        None \<Rightarrow> None
      | Some (Arm_already_cancelled, cw') \<Rightarrow>
          Some (aw\<lparr>ao_ec := err_cancelled\<rparr>, sigs, cw', [(rt, h)])
      | Some (Arm_armed, cw') \<Rightarrow> Some (aw, async_initiate start a sigs, cw', []))"

lemmas async_suspend_defs = async_suspend_def async_arm_def async_initiate_def

text \<open>The completion handler; \<open>result\<close> is its first argument after the error code, if any.\<close>

definition async_complete ::
  "runtime_ptr \<Rightarrow> handle \<Rightarrow> error_code \<Rightarrow> 'r option \<Rightarrow> 'r asio_awaitable \<Rightarrow> emit_cb cancel_world \<Rightarrow>
   'r asio_awaitable \<times> emit_cb cancel_world \<times> wake list" where
  "async_complete rt h ec result aw cw =
     (let cw' = snd (disarm (ao_guard aw) cw);
          aw1 = aw\<lparr>ao_ec := ec\<rparr>;
          aw2 = (case result of None \<Rightarrow> aw1 | Some r \<Rightarrow> aw1\<lparr>ao_store := r\<rparr>)
      in (aw2, cw', [(rt, h)]))"

definition async_resume ::
  "'r asio_awaitable \<Rightarrow> emit_cb cancel_world \<Rightarrow> (error_code + 'r) \<times> emit_cb cancel_world" where
  "async_resume aw cw =
     (if is_error (ao_ec aw) then Inl (ao_ec aw) else Inr (ao_store aw),
      snd (disarm (ao_guard aw) cw))"

section \<open>Sleeping\<close>

record 't sleep_awaiter =
  sl_ec :: error_code
  sl_duration :: int
  sl_scope :: scope_ptr
  sl_guard :: nat
  sl_timer :: "'t option"

definition sleep :: "int \<Rightarrow> nat \<Rightarrow> 't sleep_awaiter" where
  "sleep ms g = \<lparr>sl_ec = no_error, sl_duration = ms, sl_scope = None, sl_guard = g, sl_timer = None\<rparr>"

definition sleep_set_cancel_scope ::
  "scope_ptr \<Rightarrow> 't sleep_awaiter \<Rightarrow> emit_cb cancel_world \<Rightarrow>
   ('t sleep_awaiter \<times> emit_cb cancel_world) option" where
  "sleep_set_cancel_scope s aw cw =
     map_option (\<lambda>cw'. (aw\<lparr>sl_scope := s\<rparr>, cw')) (bind (sl_guard aw) s cw)"

definition sleep_ready :: "'t sleep_awaiter \<Rightarrow> emit_cb cancel_world \<Rightarrow> bool \<times> 't sleep_awaiter" where
  "sleep_ready aw cw =
     (if sl_duration aw \<le> 0 then (True, aw)
      else if already_cancelled (sl_scope aw) cw then (True, aw\<lparr>sl_ec := err_cancelled\<rparr>)
      else (False, aw))"

text \<open>
  \<open>make_timer\<close> is the construction of the \<^verbatim>\<open>steady_timer\<close> with a duration, \<open>start_wait\<close> the
  initiation of its \<^verbatim>\<open>async_wait\<close>.
\<close>

definition sleep_arm ::
  "nat \<Rightarrow> runtime_ptr \<Rightarrow> 't sleep_awaiter \<Rightarrow> emit_cb cancel_world \<Rightarrow> (arm_result \<times> emit_cb cancel_world) option" where
  "sleep_arm a rt aw cw = (if rt = None then None else arm (sl_guard aw) (Emit a) cw)"

definition sleep_initiate ::
  "(int \<Rightarrow> 't) \<Rightarrow> ('t \<Rightarrow> 's \<Rightarrow> 's) \<Rightarrow> nat \<Rightarrow> 't sleep_awaiter \<Rightarrow> (nat \<Rightarrow> 's) \<Rightarrow> 't sleep_awaiter \<times> (nat \<Rightarrow> 's)" where
  "sleep_initiate make_timer start_wait a aw sigs =
     (let t = make_timer (sl_duration aw)
      in (aw\<lparr>sl_timer := Some t\<rparr>, sigs(a := start_wait t (sigs a))))"

definition sleep_suspend ::
  "(int \<Rightarrow> 't) \<Rightarrow> ('t \<Rightarrow> 's \<Rightarrow> 's) \<Rightarrow> nat \<Rightarrow> runtime_ptr \<Rightarrow> handle \<Rightarrow> 't sleep_awaiter \<Rightarrow>
   (nat \<Rightarrow> 's) \<Rightarrow> emit_cb cancel_world \<Rightarrow>
   ('t sleep_awaiter \<times> (nat \<Rightarrow> 's) \<times> emit_cb cancel_world \<times> wake list) option" where
  "sleep_suspend make_timer start_wait a rt h aw sigs cw =
     (case sleep_arm a rt aw cw of
        None \<Rightarrow> None
      | Some (Arm_already_cancelled, cw') \<Rightarrow>
          Some (aw\<lparr>sl_ec := err_cancelled\<rparr>, sigs, cw', [(rt, h)])
      | Some (Arm_armed, cw') \<Rightarrow>
          (case sleep_initiate make_timer start_wait a aw sigs of (aw', sigs') \<Rightarrow> Some (aw', sigs', cw', [])))"

lemmas sleep_suspend_defs = sleep_suspend_def sleep_arm_def sleep_initiate_def

definition sleep_complete ::
  "runtime_ptr \<Rightarrow> handle \<Rightarrow> error_code \<Rightarrow> 't sleep_awaiter \<Rightarrow> emit_cb cancel_world \<Rightarrow>
   't sleep_awaiter \<times> emit_cb cancel_world \<times> wake list" where
  "sleep_complete rt h ec aw cw =
     (let cw' = snd (disarm (sl_guard aw) cw) in (aw\<lparr>sl_ec := ec\<rparr>, cw', [(rt, h)]))"

definition sleep_resume ::
  "'t sleep_awaiter \<Rightarrow> emit_cb cancel_world \<Rightarrow> (error_code + unit) \<times> emit_cb cancel_world" where
  "sleep_resume aw cw =
     (if is_error (sl_ec aw) then Inl (sl_ec aw) else Inr (), snd (disarm (sl_guard aw) cw))"

section \<open>Awaiting an operation\<close>

lemma async_suspend_armed:
  assumes "cancel_inv cw" and "\<not> cancelled sc cw" and "armed_on sc cw = {}"
    and "g_state (guards cw (ao_guard aw)) = Idle" and "g_scope (guards cw (ao_guard aw)) = Some sc"
  shows "\<exists>cw1. async_suspend start a (Some r) h aw sigs cw = Some (aw, sigs(a := start (sigs a)), cw1, []) \<and>
    cancel_inv cw1 \<and> armed_on sc cw1 = {ao_guard aw} \<and> g_cb (guards cw1 (ao_guard aw)) = Some (Emit a) \<and>
    g_scope (guards cw1 (ao_guard aw)) = Some sc \<and> \<not> cancelled sc cw1"
  using arm_idle [OF assms(4,5,2,1,3), of "Emit a"] by (auto simp: async_suspend_defs)

lemma disarm_frame:
  "g_scope (guards (snd (disarm g w)) x) = g_scope (guards w x)"
  "cancelled s (snd (disarm g w)) = cancelled s w"
  by (auto simp: disarm_def Let_def cancelled_def split: option.splits)

lemma disarm_armed:
  assumes "cancel_inv cw" and "armed_on sc cw = {g}" and "g_scope (guards cw g) = Some sc"
  shows "cancel_inv (snd (disarm g cw)) \<and> armed_on sc (snd (disarm g cw)) = {}"
proof -
  obtain b w where d: "disarm g cw = (b, w)" by fastforce
  have g: "g_state (guards cw g) = Armed" using assms(2) by (auto simp: armed_on_def)
  then have b: b using disarm_guards(3) [OF d] by simp
  have "x \<notin> armed_on sc w" for x
  proof (cases "x = g")
    case True
    then show ?thesis using disarm_guards(5) [OF d b] by (auto simp: armed_on_def)
  next
    case False
    then have "x \<notin> armed_on sc cw" using assms(2) by simp
    with disarm_guards(1) [OF d False] disarm_frame(1) [of g cw x] d show ?thesis
      by (auto simp: armed_on_def)
  qed
  then show ?thesis using d disarm_inv [OF assms(1), of g] by auto
qed

lemma async_delivers:
  assumes "cancel_inv cw" and "\<not> cancelled sc cw" and "armed_on sc cw = {}"
    and "g_state (guards cw (ao_guard aw)) = Idle" and "g_scope (guards cw (ao_guard aw)) = Some sc"
    and "ao_scope aw = Some sc"
  shows "async_ready aw cw = (False, aw) \<and>
    (\<exists>cw1. async_suspend start a (Some r) h aw sigs cw = Some (aw, sigs(a := start (sigs a)), cw1, []) \<and>
      (\<forall>ec res. \<exists>aw2 cw2 cw3. async_complete (Some r) h ec res aw cw1 = (aw2, cw2, [(Some r, h)]) \<and>
        fst (async_resume aw2 cw2) =
          (if is_error ec then Inl ec else Inr (case res of Some x \<Rightarrow> x | None \<Rightarrow> ao_store aw)) \<and>
        (\<forall>sg. cancel (run_emit_cb emit) sc cw2 sg = Some (cw3, sg))))"
proof (intro conjI)
  show "async_ready aw cw = (False, aw)"
    using assms(2,6) by (simp add: async_ready_def already_cancelled_def)
  obtain cw1 where cw1: "async_suspend start a (Some r) h aw sigs cw = Some (aw, sigs(a := start (sigs a)), cw1, [])"
      "cancel_inv cw1" "armed_on sc cw1 = {ao_guard aw}" "g_scope (guards cw1 (ao_guard aw)) = Some sc"
      "\<not> cancelled sc cw1"
    using async_suspend_armed [OF assms(1-5)] by blast
  let ?cw2 = "snd (disarm (ao_guard aw) cw1)"
  have "cancel_inv ?cw2" "armed_on sc ?cw2 = {}" "\<not> cancelled sc ?cw2"
    using disarm_armed [OF cw1(2-4)] cw1(5) by (simp_all add: disarm_frame(2))
  then have "\<exists>cw3. \<forall>sg. cancel (run_emit_cb emit) sc ?cw2 sg = Some (cw3, sg)"
    by (intro cancel_none_uniform)
  then obtain cw3 where "\<forall>sg. cancel (run_emit_cb emit) sc ?cw2 sg = Some (cw3, sg)" by blast
  with cw1(1) show "\<exists>cw1. async_suspend start a (Some r) h aw sigs cw = Some (aw, sigs(a := start (sigs a)), cw1, []) \<and>
      (\<forall>ec res. \<exists>aw2 cw2 cw3. async_complete (Some r) h ec res aw cw1 = (aw2, cw2, [(Some r, h)]) \<and>
        fst (async_resume aw2 cw2) =
          (if is_error ec then Inl ec else Inr (case res of Some x \<Rightarrow> x | None \<Rightarrow> ao_store aw)) \<and>
        (\<forall>sg. cancel (run_emit_cb emit) sc cw2 sg = Some (cw3, sg)))"
    by (intro exI [of _ cw1] conjI allI exI [of _ cw3])
      (auto simp: async_complete_def async_resume_def Let_def split: option.splits)
qed

text \<open>
  C32. \<^verbatim>\<open>co_await\<close> of an Asio operation, not cancelled: the operation is started once, the
  coroutine is scheduled when its handler is called and not before, and gets the error code of
  the operation, or its first result (the default value when there is none); after that the
  scope no longer reaches the operation, a later cancellation emits nothing.
\<close>

theorem async_op_delivers_result:
  assumes "cancel_inv cw" and "\<not> cancelled sc cw" and "armed_on sc cw = {}"
    and "g_state (guards cw (ao_guard aw)) = Idle" and "g_scope (guards cw (ao_guard aw)) = Some sc"
    and "ao_scope aw = Some sc"
  shows "async_ready aw cw = (False, aw) \<and>
    (\<exists>cw1. async_suspend start a (Some r) h aw sigs cw = Some (aw, sigs(a := start (sigs a)), cw1, []) \<and>
      (\<forall>ec res. \<exists>aw2 cw2 cw3. async_complete (Some r) h ec res aw cw1 = (aw2, cw2, [(Some r, h)]) \<and>
        fst (async_resume aw2 cw2) =
          (if is_error ec then Inl ec else Inr (case res of Some x \<Rightarrow> x | None \<Rightarrow> ao_store aw)) \<and>
        (\<forall>sg. cancel (run_emit_cb emit) sc cw2 sg = Some (cw3, sg))))"
  by (rule async_delivers [OF assms])

definition demo_async :: "nat asio_awaitable" where
  "demo_async = \<lparr>ao_ec = no_error, ao_scope = Some 0, ao_guard = 3, ao_store = 0\<rparr>"

theorem async_op_delivers_result_witness:
  "\<exists>cw1. async_suspend Suc 2 (Some 0) 9 demo_async (\<lambda>_. 0) demo_scope =
       Some (demo_async, (\<lambda>_. 0)(2 := 1), cw1, []) \<and>
     fst (async_resume (fst (async_complete (Some 0) 9 no_error (Some 77) demo_async cw1)) cw1) = Inr 77"
proof -
  note on_demo = demo_scope_facts(1) demo_scope_facts(2) demo_scope_facts(3) demo_scope_facts(4) demo_scope_facts(5)
  have "ao_scope demo_async = Some 0" by (simp add: demo_async_def)
  from async_op_delivers_result [OF on_demo this, of Suc 2 0 9 "\<lambda>_. 0"] obtain cw1 where
    "async_suspend Suc 2 (Some 0) 9 demo_async (\<lambda>_. 0) demo_scope = Some (demo_async, (\<lambda>_. 0)(2 := Suc 0), cw1, [])"
    "\<exists>aw2 cw2. async_complete (Some 0) 9 no_error (Some 77) demo_async cw1 = (aw2, cw2, [(Some 0, 9)]) \<and>
      fst (async_resume aw2 cw2) = Inr 77"
    by fastforce
  then show ?thesis by (auto simp: async_resume_def)
qed

text \<open>
  C33. Cancelling the scope of a coroutine that awaits an Asio operation: before
  \<^verbatim>\<open>await_ready\<close> it does not suspend, between \<^verbatim>\<open>await_ready\<close> and the arming of the guard it is
  scheduled at once, both with \<^verbatim>\<open>cancelled\<close> and without starting the operation; once the
  operation has been started, the cancellation signal is emitted to it exactly once and nobody
  is scheduled, so that the coroutine is scheduled once, by the handler.
\<close>

theorem async_op_cancelled:
  assumes "cancel_inv cw" and "\<not> cancelled sc cw" and "armed_on sc cw = {}"
    and "g_state (guards cw (ao_guard aw)) = Idle" and "g_scope (guards cw (ao_guard aw)) = Some sc"
    and "ao_scope aw = Some sc"
  shows "(\<exists>cw1. cancel (run_emit_cb emit) sc cw sigs = Some (cw1, sigs) \<and>
      (\<exists>aw1. async_ready aw cw1 = (True, aw1) \<and> fst (async_resume aw1 cw1) = Inl err_cancelled) \<and>
      (\<exists>aw1. async_suspend start a (Some r) h aw sigs cw1 = Some (aw1, sigs, cw1, [(Some r, h)]) \<and>
        fst (async_resume aw1 cw1) = Inl err_cancelled)) \<and>
    (\<exists>cw1 cw2. async_suspend start a (Some r) h aw sigs cw = Some (aw, sigs(a := start (sigs a)), cw1, []) \<and>
      (\<forall>sg. cancel (run_emit_cb emit) sc cw1 sg = Some (cw2, sg(a := emit (sg a))) \<and>
        cancel (run_emit_cb emit) sc cw2 sg = Some (cw2, sg)))"
proof (intro conjI)
  obtain cw1 where c: "cancel (run_emit_cb emit) sc cw sigs = Some (cw1, sigs)" "guards cw1 = guards cw"
      "cancelled sc cw1"
    using cancel_none [OF assms(1-3), of "run_emit_cb emit" sigs] by auto
  then have "arm (ao_guard aw) (Emit a) cw1 = Some (Arm_already_cancelled, cw1)"
    using assms(4,5) by (simp add: arm_def cancelled_def)
  with c assms(6) show "\<exists>cw1. cancel (run_emit_cb emit) sc cw sigs = Some (cw1, sigs) \<and>
      (\<exists>aw1. async_ready aw cw1 = (True, aw1) \<and> fst (async_resume aw1 cw1) = Inl err_cancelled) \<and>
      (\<exists>aw1. async_suspend start a (Some r) h aw sigs cw1 = Some (aw1, sigs, cw1, [(Some r, h)]) \<and>
        fst (async_resume aw1 cw1) = Inl err_cancelled)"
    by (simp add: async_ready_def async_suspend_defs async_resume_def already_cancelled_def)
next
  obtain cw1 where cw1: "async_suspend start a (Some r) h aw sigs cw = Some (aw, sigs(a := start (sigs a)), cw1, [])"
      "cancel_inv cw1" "armed_on sc cw1 = {ao_guard aw}" "g_cb (guards cw1 (ao_guard aw)) = Some (Emit a)"
      "g_scope (guards cw1 (ao_guard aw)) = Some sc" "\<not> cancelled sc cw1"
    using async_suspend_armed [OF assms(1-5)] by blast
  have "\<exists>cw2. \<forall>sg. cancel (run_emit_cb emit) sc cw1 sg = Some (cw2, sg(a := emit (sg a))) \<and> cancelled sc cw2"
    using cancel_single_uniform [OF cw1(2,6,3,4), of "run_emit_cb emit"] by simp
  then obtain cw2 where "\<forall>sg. cancel (run_emit_cb emit) sc cw1 sg = Some (cw2, sg(a := emit (sg a)))" "cancelled sc cw2"
    by blast
  then have "\<forall>sg. cancel (run_emit_cb emit) sc cw1 sg = Some (cw2, sg(a := emit (sg a))) \<and>
      cancel (run_emit_cb emit) sc cw2 sg = Some (cw2, sg)"
    by (simp add: cancel_def)
  with cw1(1) show "\<exists>cw1 cw2. async_suspend start a (Some r) h aw sigs cw =
      Some (aw, sigs(a := start (sigs a)), cw1, []) \<and>
      (\<forall>sg. cancel (run_emit_cb emit) sc cw1 sg = Some (cw2, sg(a := emit (sg a))) \<and>
        cancel (run_emit_cb emit) sc cw2 sg = Some (cw2, sg))"
    by blast
qed

theorem async_op_cancelled_witness:
  "\<exists>cw1 cw2. async_suspend Suc 2 (Some 0) 9 demo_async (\<lambda>_. 0) demo_scope =
       Some (demo_async, (\<lambda>_. 0)(2 := 1), cw1, []) \<and>
     cancel (run_emit_cb ((+) (10 :: nat))) 0 cw1 ((\<lambda>_. 0)(2 := 1)) = Some (cw2, (\<lambda>_. 0)(2 := 11))"
proof -
  note on_demo = demo_scope_facts(1) demo_scope_facts(2) demo_scope_facts(3) demo_scope_facts(4) demo_scope_facts(5)
  have "ao_scope demo_async = Some 0" by (simp add: demo_async_def)
  from async_op_cancelled [OF on_demo this, of "(+) (10 :: nat)" "\<lambda>_. 0" Suc 2 0 9] obtain cw1 cw2 where
    "async_suspend Suc 2 (Some 0) 9 demo_async (\<lambda>_. 0) demo_scope = Some (demo_async, (\<lambda>_. 0)(2 := Suc 0), cw1, [])"
    "\<forall>sg. cancel (run_emit_cb ((+) (10 :: nat))) 0 cw1 sg = Some (cw2, sg(2 := 10 + sg 2))"
    by auto
  then show ?thesis by auto
qed

section \<open>Awaiting a sleep\<close>

text \<open>
  The timer is started with the duration; when the wait completes the coroutine is scheduled and
  gets its error code or success; a cancellation in between emits the signal to the wait, once.
\<close>

lemma sleep_waits:
  assumes "cancel_inv cw" and "\<not> cancelled sc cw" and "armed_on sc cw = {}"
    and "g_state (guards cw (sl_guard aw)) = Idle" and "g_scope (guards cw (sl_guard aw)) = Some sc"
    and "aw1 = aw\<lparr>sl_timer := Some (mk (sl_duration aw))\<rparr>"
  shows "\<exists>cw1. sleep_suspend mk wait a (Some r) h aw sigs cw =
      Some (aw1, sigs(a := wait (mk (sl_duration aw)) (sigs a)), cw1, []) \<and>
    (\<forall>ec. \<exists>aw2 cw2 cw3. sleep_complete (Some r) h ec aw1 cw1 = (aw2, cw2, [(Some r, h)]) \<and>
      fst (sleep_resume aw2 cw2) = (if is_error ec then Inl ec else Inr ()) \<and>
      (\<forall>sg. cancel (run_emit_cb emit) sc cw2 sg = Some (cw3, sg))) \<and>
    (\<exists>cw4. \<forall>sg. cancel (run_emit_cb emit) sc cw1 sg = Some (cw4, sg(a := emit (sg a))) \<and>
      cancel (run_emit_cb emit) sc cw4 sg = Some (cw4, sg))"
proof -
  let ?g = "sl_guard aw"
  obtain cw1 where cw1: "arm ?g (Emit a) cw = Some (Arm_armed, cw1)" "cancel_inv cw1" "armed_on sc cw1 = {?g}"
      "g_cb (guards cw1 ?g) = Some (Emit a)" "g_scope (guards cw1 ?g) = Some sc" "\<not> cancelled sc cw1"
    using arm_idle [OF assms(4,5,2,1,3), of "Emit a"] by blast
  have "\<exists>cw4. \<forall>sg. cancel (run_emit_cb emit) sc cw1 sg = Some (cw4, sg(a := emit (sg a))) \<and> cancelled sc cw4"
    using cancel_single_uniform [OF cw1(2,6,3,4), of "run_emit_cb emit"] by simp
  then obtain cw4 where cw4: "\<forall>sg. cancel (run_emit_cb emit) sc cw1 sg = Some (cw4, sg(a := emit (sg a)))"
      "cancelled sc cw4"
    by blast
  have "cancel_inv (snd (disarm ?g cw1))" "armed_on sc (snd (disarm ?g cw1)) = {}" "\<not> cancelled sc (snd (disarm ?g cw1))"
    using disarm_armed [OF cw1(2,3,5)] cw1(6) by (simp_all add: disarm_frame(2))
  then have "\<exists>cw3. \<forall>sg. cancel (run_emit_cb emit) sc (snd (disarm ?g cw1)) sg = Some (cw3, sg)"
    by (intro cancel_none_uniform)
  then obtain cw3 where cw3: "\<forall>sg. cancel (run_emit_cb emit) sc (snd (disarm ?g cw1)) sg = Some (cw3, sg)" by blast
  have "sleep_suspend mk wait a (Some r) h aw sigs cw =
      Some (aw1, sigs(a := wait (mk (sl_duration aw)) (sigs a)), cw1, [])"
    using cw1(1) assms(6) by (simp add: sleep_suspend_defs Let_def)
  moreover have "\<exists>aw2 cw2 cw3. sleep_complete (Some r) h ec aw1 cw1 = (aw2, cw2, [(Some r, h)]) \<and>
      fst (sleep_resume aw2 cw2) = (if is_error ec then Inl ec else Inr ()) \<and>
      (\<forall>sg. cancel (run_emit_cb emit) sc cw2 sg = Some (cw3, sg))" for ec
    by (intro exI [of _ "aw1\<lparr>sl_ec := ec\<rparr>"] exI [of _ "snd (disarm ?g cw1)"] exI [of _ cw3])
      (use cw3 assms(6) in \<open>simp add: sleep_complete_def sleep_resume_def\<close>)
  moreover have "\<forall>sg. cancel (run_emit_cb emit) sc cw1 sg = Some (cw4, sg(a := emit (sg a))) \<and>
      cancel (run_emit_cb emit) sc cw4 sg = Some (cw4, sg)"
    using cw4 by (simp add: cancel_def)
  ultimately show ?thesis by blast
qed

lemma sleep_on_cancelled_scope:
  assumes "cancel_inv cw" and "\<not> cancelled sc cw" and "armed_on sc cw = {}"
    and "g_state (guards cw (sl_guard aw)) = Idle" and "g_scope (guards cw (sl_guard aw)) = Some sc"
    and "sl_scope aw = Some sc" and "0 < sl_duration aw" and "aw1 = aw\<lparr>sl_ec := err_cancelled\<rparr>"
  shows "\<exists>cw1. cancel (run_emit_cb emit) sc cw sigs = Some (cw1, sigs) \<and>
    sleep_ready aw cw1 = (True, aw1) \<and>
    sleep_suspend mk wait a (Some r) h aw sigs cw1 = Some (aw1, sigs, cw1, [(Some r, h)]) \<and>
    fst (sleep_resume aw1 cw1) = Inl err_cancelled"
proof -
  obtain cw1 where c: "cancel (run_emit_cb emit) sc cw sigs = Some (cw1, sigs)" "guards cw1 = guards cw"
      "cancelled sc cw1"
    using cancel_none [OF assms(1-3), of "run_emit_cb emit" sigs] by auto
  then have "arm (sl_guard aw) (Emit a) cw1 = Some (Arm_already_cancelled, cw1)"
    using assms(4,5) by (simp add: arm_def cancelled_def)
  with c assms(6-8) show ?thesis
    by (auto simp: sleep_ready_def sleep_suspend_defs sleep_resume_def already_cancelled_def)
qed

text \<open>
  C34. \<^verbatim>\<open>co_await sleep(ms)\<close>. A duration that is not positive: it does not suspend and succeeds,
  even on a cancelled scope. A positive one, on a scope that is not cancelled: a timer is made
  with the duration and its wait started, once, and nobody is scheduled; the completion of the
  wait schedules the coroutine, once, which gets the error code of Asio or success, and after it
  the scope no longer reaches the wait; a cancellation that comes first emits the signal to the
  wait, exactly once, and schedules nobody. On a scope that is cancelled before \<^verbatim>\<open>await_ready\<close>, or
  between it and the arming of the guard, no timer is started and the result is \<^verbatim>\<open>cancelled\<close>, in
  the first case without suspending and in the second by scheduling the coroutine at once. (For
  a cancellation between the arming and the start of the wait see \<open>cancel_before_initiation_is_lost\<close>.)
\<close>

theorem sleep_waits_or_is_cancelled:
  assumes "cancel_inv cw" and "\<not> cancelled sc cw" and "armed_on sc cw = {}"
    and "g_state (guards cw (sl_guard aw)) = Idle" and "g_scope (guards cw (sl_guard aw)) = Some sc"
    and "sl_scope aw = Some sc" and "sl_ec aw = no_error"
  shows "(sl_duration aw \<le> 0 \<longrightarrow>
      (\<forall>cw. sleep_ready aw cw = (True, aw) \<and> fst (sleep_resume aw cw) = Inr ())) \<and>
    (0 < sl_duration aw \<longrightarrow>
      sleep_ready aw cw = (False, aw) \<and>
      (\<exists>aw1 cw1. sleep_suspend mk wait a (Some r) h aw sigs cw =
          Some (aw1, sigs(a := wait (mk (sl_duration aw)) (sigs a)), cw1, []) \<and>
        sl_timer aw1 = Some (mk (sl_duration aw)) \<and>
        (\<forall>ec. \<exists>aw2 cw2 cw3. sleep_complete (Some r) h ec aw1 cw1 = (aw2, cw2, [(Some r, h)]) \<and>
          fst (sleep_resume aw2 cw2) = (if is_error ec then Inl ec else Inr ()) \<and>
          (\<forall>sg. cancel (run_emit_cb emit) sc cw2 sg = Some (cw3, sg))) \<and>
        (\<exists>cw4. \<forall>sg. cancel (run_emit_cb emit) sc cw1 sg = Some (cw4, sg(a := emit (sg a))) \<and>
          cancel (run_emit_cb emit) sc cw4 sg = Some (cw4, sg))) \<and>
      (\<exists>aw1 cw1. cancel (run_emit_cb emit) sc cw sigs = Some (cw1, sigs) \<and>
        sleep_ready aw cw1 = (True, aw1) \<and>
        sleep_suspend mk wait a (Some r) h aw sigs cw1 = Some (aw1, sigs, cw1, [(Some r, h)]) \<and>
        sl_timer aw1 = sl_timer aw \<and> fst (sleep_resume aw1 cw1) = Inl err_cancelled))"
proof -
  let ?aw1 = "aw\<lparr>sl_timer := Some (mk (sl_duration aw))\<rparr>" and ?aw2 = "aw\<lparr>sl_ec := err_cancelled\<rparr>"
  have "sl_timer ?aw1 = Some (mk (sl_duration aw))" "sl_timer ?aw2 = sl_timer aw" by simp_all
  moreover have "sleep_ready aw cw = (False, aw)" if "0 < sl_duration aw"
    using that assms(2,6) by (simp add: sleep_ready_def already_cancelled_def)
  moreover have "sleep_ready aw cw = (True, aw) \<and> fst (sleep_resume aw cw) = Inr ()" if "sl_duration aw \<le> 0" for cw
    using that assms(7) by (simp add: sleep_ready_def sleep_resume_def)
  ultimately show ?thesis
    using sleep_waits [OF assms(1-5) HOL.refl, of mk wait a r h sigs emit]
      sleep_on_cancelled_scope [OF assms(1-6) _ HOL.refl, of emit sigs mk wait a r h]
    by blast
qed

definition demo_sleep :: "int \<Rightarrow> int sleep_awaiter" where
  "demo_sleep d = \<lparr>sl_ec = no_error, sl_duration = d, sl_scope = Some 0, sl_guard = 3, sl_timer = None\<rparr>"

theorem sleep_waits_or_is_cancelled_witness:
  "fst (sleep_ready (demo_sleep 0) demo_scope) \<and>
   (\<exists>aw1 cw1 cw2. sleep_suspend (\<lambda>d. d) (\<lambda>t l. l @ [t]) 2 (Some 1) 9 (demo_sleep 5) (\<lambda>_. []) demo_scope =
       Some (aw1, (\<lambda>_. [])(2 := [5]), cw1, []) \<and>
     snd (snd (sleep_complete (Some 1) 9 no_error aw1 cw1)) = [(Some 1, 9)] \<and>
     cancel (run_emit_cb (\<lambda>l. l @ [0 :: int])) 0 cw1 ((\<lambda>_. [])(2 := [5])) = Some (cw2, (\<lambda>_. [])(2 := [5, 0])))"
proof -
  note on_demo = demo_scope_facts(1) demo_scope_facts(2) demo_scope_facts(3) demo_scope_facts(4) demo_scope_facts(5)
  have g: "sl_guard (demo_sleep d) = 3" "sl_scope (demo_sleep d) = Some 0" "sl_ec (demo_sleep d) = no_error"
      "sl_duration (demo_sleep d) = d" for d
    by (simp_all add: demo_sleep_def)
  note main = sleep_waits_or_is_cancelled [where sc = 0 and cw = demo_scope and mk = "\<lambda>d. d" and wait = "\<lambda>t l. l @ [t]" and
      a = 2 and r = 1 and h = 9 and sigs = "\<lambda>_. []" and emit = "\<lambda>l. l @ [0 :: int]", OF on_demo(1-3)]
  have five: "0 < (5 :: int)" by simp
  obtain aw1 cw1 where s: "sleep_suspend (\<lambda>d. d) (\<lambda>t l. l @ [t]) 2 (Some 1) 9 (demo_sleep 5) (\<lambda>_. []) demo_scope =
      Some (aw1, (\<lambda>_. [])(2 := [] @ [5]), cw1, [])"
    and c: "\<forall>ec. \<exists>aw2 cw2 cw3. sleep_complete (Some 1) 9 ec aw1 cw1 = (aw2, cw2, [(Some 1, 9)]) \<and>
      fst (sleep_resume aw2 cw2) = (if is_error ec then Inl ec else Inr ()) \<and>
      (\<forall>sg. cancel (run_emit_cb (\<lambda>l. l @ [0 :: int])) 0 cw2 sg = Some (cw3, sg))"
    and e: "\<exists>cw4. \<forall>sg. cancel (run_emit_cb (\<lambda>l. l @ [0 :: int])) 0 cw1 sg = Some (cw4, sg(2 := sg 2 @ [0])) \<and>
      cancel (run_emit_cb (\<lambda>l. l @ [0 :: int])) 0 cw4 sg = Some (cw4, sg)"
    using main [of "demo_sleep 5", unfolded g, OF on_demo(4,5) HOL.refl HOL.refl, THEN conjunct2, THEN mp, OF five] by blast
  have "snd (snd (sleep_complete (Some 1) 9 no_error aw1 cw1)) = [(Some 1, 9)]"
    using c [THEN spec, of no_error] by auto
  moreover obtain cw4 where "cancel (run_emit_cb (\<lambda>l. l @ [0 :: int])) 0 cw1 ((\<lambda>_. [])(2 := [5])) =
      Some (cw4, (\<lambda>_. [])(2 := [5, 0]))"
    using e by fastforce
  moreover have "fst (sleep_ready (demo_sleep 0) demo_scope)"
    using main [of "demo_sleep 0"] on_demo(4,5) g by simp
  ultimately show ?thesis
    using s by (intro conjI exI [of _ aw1] exI [of _ cw1] exI [of _ cw4]) simp_all
qed

section \<open>A corner the code leaves open\<close>

text \<open>
  A cancellation between the arming of the guard and the initiation emits the signal while no
  handler is installed in its slot. If such an emission leaves no trace, the operation runs
  as if nothing had happened, and ends with its own result on a cancelled scope; the guard has
  fired, so no later cancellation reaches it either.
\<close>

lemma cancel_before_initiation_is_lost:
  assumes "async_arm a rt aw cw = Some (Arm_armed, cw1)"
    and "cancel (run_emit_cb emit) sc cw1 sigs = Some (cw2, sigs(a := emit (sigs a)))"
    and "start (emit (sigs a)) = start (sigs a)"
  shows "async_initiate start a (sigs(a := emit (sigs a))) = async_initiate start a sigs \<and>
    fst (async_resume (fst (async_complete rt h no_error (Some x) aw cw2)) cw2) = Inr x"
  using assms by (simp add: async_initiate_def async_complete_def async_resume_def Let_def)

end
