(* ===== verification/Oneshot.thy ===== *)
theory Oneshot
  imports Await_Cancel Wake_Once Coasio_Error
begin

text \<open>
  \<^verbatim>\<open>include/coasio/sync/oneshot.hpp\<close>: the channel that carries one value from a sender
  to a receiver. The shared \<^verbatim>\<open>state<T>\<close> is a record; senders, receivers and awaiters hold
  its address (\<^verbatim>\<open>std::shared_ptr\<close>), null after a move. All fields of the state but
  \<^verbatim>\<open>rt_\<close> are only touched under \<^verbatim>\<open>mtx_\<close>, so each of its operations is one atomic step
  and the order of the steps is the order in which the mutex is taken. A null dereference
  is the result \<^term>\<open>None\<close>. A moved-from \<^verbatim>\<open>std::optional\<close> stays engaged, so reading the
  value leaves the state alone.
\<close>

section \<open>The shared state\<close>

record 'v oneshot =
  o_value :: "'v option"
  o_ready :: bool
  o_sender_dropped :: bool
  o_receiver_dropped :: bool
  o_cancelled :: bool
  o_waiter :: "handle option"
  o_rt :: runtime_ptr

definition new_oneshot :: "'v oneshot" where
  "new_oneshot = \<lparr>o_value = None, o_ready = False, o_sender_dropped = False,
     o_receiver_dropped = False, o_cancelled = False, o_waiter = None, o_rt = None\<rparr>"

text \<open>\<^verbatim>\<open>if (to_wake) runtime_schedule(rt_, to_wake)\<close>\<close>

definition wake_if :: "runtime_ptr \<Rightarrow> handle option \<Rightarrow> wake list" where
  "wake_if rt h = (case h of None \<Rightarrow> [] | Some h \<Rightarrow> [(rt, h)])"

definition set_value :: "'v \<Rightarrow> 'v oneshot \<Rightarrow> ('v + unit) \<times> 'v oneshot \<times> wake list" where
  "set_value v s =
     (if o_ready s \<or> o_receiver_dropped s \<or> o_cancelled s then (Inl v, s, [])
      else
        let to_wake = o_waiter s;
            s' = s\<lparr>o_value := Some v, o_ready := True, o_waiter := None\<rparr>
        in (Inr (), s', wake_if (o_rt s') to_wake))"

definition mark_sender_dropped :: "'v oneshot \<Rightarrow> 'v oneshot \<times> wake list" where
  "mark_sender_dropped s =
     (if o_ready s \<or> o_sender_dropped s \<or> o_cancelled s then (s, [])
      else
        let to_wake = o_waiter s;
            s' = s\<lparr>o_sender_dropped := True, o_waiter := None\<rparr>
        in (s', wake_if (o_rt s') to_wake))"

definition mark_receiver_dropped :: "'v oneshot \<Rightarrow> 'v oneshot" where
  "mark_receiver_dropped s = s\<lparr>o_receiver_dropped := True\<rparr>"

definition state_is_closed :: "'v oneshot \<Rightarrow> bool" where
  "state_is_closed s \<longleftrightarrow> o_receiver_dropped s \<or> o_cancelled s"

definition cancel_and_take_waiter :: "'v oneshot \<Rightarrow> bool \<times> 'v oneshot" where
  "cancel_and_take_waiter s =
     (if o_ready s \<or> o_sender_dropped s \<or> o_cancelled s then (False, s)
      else (o_waiter s \<noteq> None, s\<lparr>o_cancelled := True, o_waiter := None\<rparr>))"

section \<open>Senders and receivers\<close>

type_synonym state_ptr = "nat option"

type_synonym 'v channels = "nat \<Rightarrow> 'v oneshot"

definition make_oneshot :: "nat \<Rightarrow> 'v channels \<Rightarrow> state_ptr \<times> state_ptr \<times> 'v channels" where
  "make_oneshot a m = (Some a, Some a, m(a := new_oneshot))"

definition sender_destroy :: "state_ptr \<Rightarrow> 'v channels \<Rightarrow> 'v channels \<times> wake list" where
  "sender_destroy p m =
     (case p of None \<Rightarrow> (m, [])
      | Some a \<Rightarrow> (case mark_sender_dropped (m a) of (s, k) \<Rightarrow> (m(a := s), k)))"

text \<open>Move assignment: the own state is dropped first; the other sender becomes null.\<close>

definition sender_assign ::
  "bool \<Rightarrow> state_ptr \<Rightarrow> state_ptr \<Rightarrow> 'v channels \<Rightarrow> state_ptr \<times> state_ptr \<times> 'v channels \<times> wake list" where
  "sender_assign same self other m =
     (if same then (self, other, m, [])
      else case sender_destroy self m of (m', k) \<Rightarrow> (other, None, m', k))"

definition send :: "state_ptr \<Rightarrow> 'v \<Rightarrow> 'v channels \<Rightarrow> ('v + unit) \<times> 'v channels \<times> wake list" where
  "send p v m =
     (case p of None \<Rightarrow> (Inl v, m, [])
      | Some a \<Rightarrow> (case set_value v (m a) of (r, s, k) \<Rightarrow> (r, m(a := s), k)))"

definition is_closed :: "state_ptr \<Rightarrow> 'v channels \<Rightarrow> bool" where
  "is_closed p m = (case p of None \<Rightarrow> True | Some a \<Rightarrow> state_is_closed (m a))"

record receiver =
  r_state :: state_ptr
  r_scope :: scope_ptr

definition receiver_destroy :: "state_ptr \<Rightarrow> 'v channels \<Rightarrow> 'v channels" where
  "receiver_destroy p m =
     (case p of None \<Rightarrow> m | Some a \<Rightarrow> m(a := mark_receiver_dropped (m a)))"

definition receiver_assign ::
  "bool \<Rightarrow> receiver \<Rightarrow> receiver \<Rightarrow> 'v channels \<Rightarrow> receiver \<times> receiver \<times> 'v channels" where
  "receiver_assign same self other m =
     (if same then (self, other, m)
      else (other, \<lparr>r_state = None, r_scope = None\<rparr>, receiver_destroy (r_state self) m))"

definition receiver_set_cancel_scope :: "scope_ptr \<Rightarrow> receiver \<Rightarrow> receiver" where
  "receiver_set_cancel_scope s r = r\<lparr>r_scope := s\<rparr>"

definition receiver_is_closed :: "state_ptr \<Rightarrow> 'v channels \<Rightarrow> bool" where
  "receiver_is_closed p m = (case p of None \<Rightarrow> True | Some a \<Rightarrow> state_is_closed (m a))"

section \<open>Awaiting the receiver\<close>

text \<open>
  The callback the awaiter arms captures the state and the handle. What it does when the
  scope is cancelled is \<open>run_oneshot_cb\<close>.
\<close>

datatype oneshot_cb = Cancel_waiter nat handle

fun run_oneshot_cb :: "oneshot_cb \<Rightarrow> 'v channels \<times> wake list \<Rightarrow> 'v channels \<times> wake list" where
  "run_oneshot_cb (Cancel_waiter a h) (m, k) =
     (case cancel_and_take_waiter (m a) of
        (taken, s) \<Rightarrow> (m(a := s), if taken then k @ [(o_rt s, h)] else k))"

record receiver_awaiter =
  a_state :: state_ptr
  a_scope :: scope_ptr
  a_guard :: nat

text \<open>
  \<^verbatim>\<open>operator co_await() &&\<close> with the runtime bound to the calling thread; \<open>g\<close> is the
  address of the guard inside the awaiter, bound to the receiver's scope.
\<close>

definition receiver_co_await ::
  "runtime_ptr \<Rightarrow> nat \<Rightarrow> receiver \<Rightarrow> 'v channels \<Rightarrow> oneshot_cb cancel_world \<Rightarrow>
   (receiver_awaiter \<times> receiver \<times> 'v channels \<times> oneshot_cb cancel_world) option" where
  "receiver_co_await rt g r m w =
     (let m' = (case r_state r of None \<Rightarrow> m | Some a \<Rightarrow> m(a := (m a)\<lparr>o_rt := rt\<rparr>))
      in map_option (\<lambda>w'. (\<lparr>a_state = r_state r, a_scope = r_scope r, a_guard = g\<rparr>,
                           \<lparr>r_state = None, r_scope = None\<rparr>, m', w'))
           (bind g (r_scope r) w))"

definition await_ready ::
  "receiver_awaiter \<Rightarrow> 'v channels \<Rightarrow> oneshot_cb cancel_world \<Rightarrow> bool option" where
  "await_ready aw m w =
     (if already_cancelled (a_scope aw) w then Some True
      else case a_state aw of
        None \<Rightarrow> None
      | Some a \<Rightarrow> Some (o_ready (m a) \<or> o_sender_dropped (m a)))"

text \<open>
  \<^verbatim>\<open>await_suspend\<close> arms the guard and then, under the channel's mutex, checks the state
  again and records the coroutine. Another thread may act between the two, so they are
  two definitions; \<open>await_suspend\<close> is their composition.
\<close>

definition suspend_arm ::
  "receiver_awaiter \<Rightarrow> handle \<Rightarrow> oneshot_cb cancel_world \<Rightarrow> (arm_result \<times> oneshot_cb cancel_world) option" where
  "suspend_arm aw h w =
     (case a_state aw of None \<Rightarrow> None
      | Some a \<Rightarrow> arm (a_guard aw) (Cancel_waiter a h) w)"

definition suspend_enrol :: "handle \<Rightarrow> 'v oneshot \<Rightarrow> bool \<times> 'v oneshot" where
  "suspend_enrol h s =
     (if o_ready s \<or> o_sender_dropped s \<or> o_cancelled s then (False, s)
      else (True, s\<lparr>o_waiter := Some h\<rparr>))"

definition await_suspend ::
  "receiver_awaiter \<Rightarrow> handle \<Rightarrow> 'v channels \<Rightarrow> oneshot_cb cancel_world \<Rightarrow>
   (bool \<times> 'v channels \<times> oneshot_cb cancel_world) option" where
  "await_suspend aw h m w =
     (case suspend_arm aw h w of
        None \<Rightarrow> None
      | Some (Arm_already_cancelled, w') \<Rightarrow> Some (False, m, w')
      | Some (Arm_armed, w') \<Rightarrow>
          (case a_state aw of None \<Rightarrow> None
           | Some a \<Rightarrow> (case suspend_enrol h (m a) of (b, s) \<Rightarrow> Some (b, m(a := s), w'))))"

text \<open>
  \<^verbatim>\<open>await_resume\<close>: disarm, then read the state. The result is the value or the error.
\<close>

definition resume_value :: "bool \<Rightarrow> 'v oneshot \<Rightarrow> (error_code + 'v) option" where
  "resume_value scope_cancelled s =
     (if o_ready s then map_option Inr (o_value s)
      else if o_cancelled s \<or> scope_cancelled then Some (Inl err_cancelled)
      else Some (Inl err_channel_closed))"

definition await_resume ::
  "receiver_awaiter \<Rightarrow> 'v channels \<Rightarrow> oneshot_cb cancel_world \<Rightarrow>
   ((error_code + 'v) \<times> oneshot_cb cancel_world) option" where
  "await_resume aw m w =
     (let w' = snd (disarm (a_guard aw) w)
      in case a_state aw of None \<Rightarrow> None
         | Some a \<Rightarrow>
             map_option (\<lambda>r. (r, w')) (resume_value (already_cancelled (a_scope aw) w') (m a)))"

definition awaiter_destroy ::
  "receiver_awaiter \<Rightarrow> 'v channels \<Rightarrow> oneshot_cb cancel_world \<Rightarrow> 'v channels \<times> oneshot_cb cancel_world" where
  "awaiter_destroy aw m w =
     (receiver_destroy (a_state aw) m, snd (disarm (a_guard aw) w))"

section \<open>Histories of one channel\<close>

text \<open>
  What can happen to one channel: its sender sends or is dropped, its receiver is dropped,
  is suspended on it, or the callback of its guard runs.
\<close>

datatype 'v ch_op = Send 'v | Drop_sender | Drop_receiver | Suspend handle | Cancel_cb handle

fun ch_step :: "'v ch_op \<Rightarrow> 'v oneshot \<Rightarrow> 'v oneshot \<times> wake list" where
  "ch_step (Send v) s = snd (set_value v s)"
| "ch_step Drop_sender s = mark_sender_dropped s"
| "ch_step Drop_receiver s = (mark_receiver_dropped s, [])"
| "ch_step (Suspend h) s = (snd (suspend_enrol h s), [])"
| "ch_step (Cancel_cb h) s =
     (case cancel_and_take_waiter s of (taken, s') \<Rightarrow> (s', if taken then [(o_rt s', h)] else []))"

text \<open>
  What the types enforce: a dropped sender sends nothing, one receiver is awaited once, and
  the callback carries the handle of the coroutine that awaits.
\<close>

fun ch_ok :: "'v ch_op \<Rightarrow> 'v oneshot \<Rightarrow> bool" where
  "ch_ok (Send v) s \<longleftrightarrow> \<not> o_sender_dropped s"
| "ch_ok (Suspend h) s \<longleftrightarrow> o_waiter s = None"
| "ch_ok (Cancel_cb h) s \<longleftrightarrow> o_waiter s \<in> {None, Some h}"
| "ch_ok _ s \<longleftrightarrow> True"

definition ch_inv :: "'v oneshot \<Rightarrow> bool" where
  "ch_inv s \<longleftrightarrow>
     (o_waiter s \<noteq> None \<longrightarrow> \<not> o_ready s \<and> \<not> o_sender_dropped s \<and> \<not> o_cancelled s) \<and>
     (o_ready s \<longleftrightarrow> o_value s \<noteq> None) \<and>
     \<not> (o_ready s \<and> o_sender_dropped s) \<and> \<not> (o_ready s \<and> o_cancelled s) \<and>
     \<not> (o_sender_dropped s \<and> o_cancelled s)"

lemmas ch_defs = set_value_def mark_sender_dropped_def mark_receiver_dropped_def
  suspend_enrol_def cancel_and_take_waiter_def wake_if_def

lemma new_oneshot_inv: "ch_inv new_oneshot"
  by (simp add: ch_inv_def new_oneshot_def)

lemma ch_step_inv: "ch_inv s \<Longrightarrow> ch_ok e s \<Longrightarrow> ch_inv (fst (ch_step e s))"
  by (cases e) (auto simp: ch_inv_def ch_defs Let_def)

definition ch_waiting :: "'v oneshot \<Rightarrow> wake \<Rightarrow> bool" where
  "ch_waiting s k \<longleftrightarrow> o_waiter s = Some (snd k) \<and> o_rt s = fst k"

fun ch_enrols :: "'v ch_op \<Rightarrow> 'v oneshot \<Rightarrow> wake \<Rightarrow> bool" where
  "ch_enrols (Suspend h) s k \<longleftrightarrow> fst (suspend_enrol h s) \<and> k = (o_rt s, h)"
| "ch_enrols _ s k \<longleftrightarrow> False"

lemma wake_if_count: "count_list (wake_if rt h) k = of_bool (h = Some (snd k) \<and> rt = fst k)"
  by (cases k) (simp add: wake_if_def split: option.splits)

lemma ch_balance:
  assumes "ch_inv s" and "ch_ok e s"
  shows "count_list (snd (ch_step e s)) k + of_bool (ch_waiting (fst (ch_step e s)) k) + of_bool False =
      of_bool (ch_waiting s k) + (of_bool (ch_enrols e s k) :: nat)"
proof (cases e)
  case (Cancel_cb h)
  with assms show ?thesis
    by (cases k) (auto simp: ch_inv_def cancel_and_take_waiter_def ch_waiting_def)
qed (use assms in \<open>auto simp: ch_inv_def set_value_def mark_sender_dropped_def
    mark_receiver_dropped_def suspend_enrol_def ch_waiting_def wake_if_count\<close>)

text \<open>The channel meets the contract: it never drops a waiting coroutine.\<close>

interpretation channel: wake_once ch_step ch_inv ch_ok ch_waiting ch_enrols "\<lambda>_ _ _. False"
proof unfold_locales
  fix s :: "'v oneshot" and e and k :: wake
  assume "ch_inv s" "ch_ok e s"
  then show "count_list (snd (ch_step e s)) k + of_bool (ch_waiting (fst (ch_step e s)) k) + of_bool False =
      of_bool (ch_waiting s k) + (of_bool (ch_enrols e s k) :: nat)"
    by (rule ch_balance)
qed (rule ch_step_inv)

section \<open>Resolution\<close>

text \<open>
  A channel is resolved when it holds a value, its sender is gone or its receiver was
  cancelled. The first of the three decides; everything later leaves it.
\<close>

definition ch_resolved :: "'v oneshot \<Rightarrow> bool" where
  "ch_resolved s \<longleftrightarrow> o_ready s \<or> o_sender_dropped s \<or> o_cancelled s"

definition ch_result :: "'v oneshot \<Rightarrow> 'v option \<times> bool \<times> bool \<times> bool" where
  "ch_result s = (o_value s, o_ready s, o_sender_dropped s, o_cancelled s)"

lemma ch_resolved_step:
  assumes "ch_resolved s" and "ch_ok e s"
  shows "ch_result (fst (ch_step e s)) = ch_result s" and "snd (ch_step e s) = []"
  using assms by (cases e; auto simp: ch_resolved_def ch_result_def ch_defs Let_def)+

lemma ch_result_resolved: "ch_result s = ch_result s' \<Longrightarrow> ch_resolved s = ch_resolved s'"
  by (simp add: ch_result_def ch_resolved_def)

lemma ch_resolved_run:
  "ch_resolved s \<Longrightarrow> run_ok ch_step ch_ok es s \<Longrightarrow>
   ch_result (fst (run ch_step es s)) = ch_result s \<and> snd (run ch_step es s) = []"
proof (induction es arbitrary: s)
  case Nil
  then show ?case by simp
next
  case (Cons e es)
  have 1: "ch_result (fst (ch_step e s)) = ch_result s" "snd (ch_step e s) = []"
    using Cons.prems by (auto intro: ch_resolved_step)
  then have "ch_resolved (fst (ch_step e s))"
    using Cons.prems(1) ch_result_resolved by blast
  with Cons.IH [of "fst (ch_step e s)"] Cons.prems 1 show ?case by simp
qed

lemma ch_step_resolves:
  assumes "ch_ok e s" and "\<not> ch_resolved s"
  shows "length (snd (ch_step e s)) =
      of_bool (ch_resolved (fst (ch_step e s)) \<and> o_waiter s \<noteq> None)"
    and "ch_resolved (fst (ch_step e s)) \<or> o_waiter s = None \<or> o_waiter (fst (ch_step e s)) \<noteq> None"
  using assms
  by (cases e; auto simp: ch_resolved_def ch_defs Let_def split: option.splits)+

text \<open>While unresolved, a recorded waiter stays; it is woken by the step that resolves.\<close>

lemma ch_run_wakes_waiter:
  "o_waiter s \<noteq> None \<Longrightarrow> \<not> ch_resolved s \<Longrightarrow> run_ok ch_step ch_ok es s \<Longrightarrow>
   length (snd (run ch_step es s)) = of_bool (ch_resolved (fst (run ch_step es s)))"
proof (induction es arbitrary: s)
  case Nil
  then show ?case by simp
next
  case (Cons e es)
  let ?s = "fst (ch_step e s)"
  have ok: "ch_ok e s" "run_ok ch_step ch_ok es ?s" using Cons.prems by auto
  show ?case
  proof (cases "ch_resolved ?s")
    case True
    then have "ch_resolved (fst (run ch_step es ?s))" "snd (run ch_step es ?s) = []"
      using ch_resolved_run [OF True ok(2)] ch_result_resolved by blast+
    with ch_step_resolves(1) [OF ok(1) Cons.prems(2)] True Cons.prems(1) show ?thesis by simp
  next
    case False
    then have "o_waiter ?s \<noteq> None"
      using ch_step_resolves(2) [OF ok(1) Cons.prems(2)] Cons.prems(1) by simp
    with Cons.IH [OF this False ok(2)] ch_step_resolves(1) [OF ok(1) Cons.prems(2)] False
    show ?thesis by simp
  qed
qed

lemma ch_run_wakes_at_most_once:
  "run_ok ch_step ch_ok es s \<Longrightarrow>
   length (snd (run ch_step es s)) \<le> of_bool (\<not> ch_resolved s)"
proof (induction es arbitrary: s)
  case Nil
  then show ?case by simp
next
  case (Cons e es)
  let ?s = "fst (ch_step e s)"
  have ok: "ch_ok e s" "run_ok ch_step ch_ok es ?s" using Cons.prems by auto
  show ?case
  proof (cases "ch_resolved s")
    case True
    with ch_resolved_run [OF True Cons.prems] show ?thesis by simp
  next
    case False
    with Cons.IH [OF ok(2)] ch_step_resolves(1) [OF ok(1) False] show ?thesis
      by (cases "ch_resolved ?s") auto
  qed
qed

lemma channel_unresolved_silent:
  "run_ok ch_step ch_ok es s \<Longrightarrow> snd (run ch_step es s) = [] \<or> ch_resolved (fst (run ch_step es s))"
proof (induction es arbitrary: s)
  case Nil
  then show ?case by simp
next
  case (Cons e es)
  let ?s = "fst (ch_step e s)"
  have ok: "ch_ok e s" "run_ok ch_step ch_ok es ?s" using Cons.prems by auto
  show ?case
  proof (cases "ch_resolved ?s")
    case True
    then show ?thesis
      using ch_resolved_run [OF True ok(2)] ch_result_resolved by auto
  next
    case False
    then have "\<not> ch_resolved s"
      using ch_resolved_step(1) [OF _ ok(1)] ch_result_resolved by blast
    with ch_step_resolves(1) [OF ok(1)] False Cons.IH [OF ok(2)] show ?thesis by simp
  qed
qed

section \<open>Properties\<close>

text \<open>
  C11. Sending is all or nothing: \<^verbatim>\<open>send\<close> on a channel gives the value back, wakes nobody and
  changes nothing exactly when the channel already holds a value or its receiver is gone or
  cancelled; otherwise the value is stored, and whatever happens to the channel afterwards
  the receiver's \<^verbatim>\<open>await_resume\<close> returns that value, cancelled scope or not.
\<close>

theorem sent_value_is_received:
  assumes "send (Some a) v m = (r, m', k)"
  shows "(r = Inl v \<and> m' = m \<and> k = [] \<and> (o_ready (m a) \<or> is_closed (Some a) m)) \<or>
    (r = Inr () \<and> \<not> o_ready (m a) \<and> \<not> is_closed (Some a) m \<and>
     (\<forall>es sc. run_ok ch_step ch_ok es (m' a) \<longrightarrow>
        resume_value sc (fst (run ch_step es (m' a))) = Some (Inr v)))"
proof (cases "o_ready (m a) \<or> is_closed (Some a) m")
  case True
  with assms show ?thesis
    by (auto simp: send_def set_value_def is_closed_def state_is_closed_def)
next
  case False
  then have m': "r = Inr ()" "o_ready (m' a)" "o_value (m' a) = Some v"
    using assms by (auto simp: send_def set_value_def is_closed_def state_is_closed_def Let_def)
  have "resume_value sc (fst (run ch_step es (m' a))) = Some (Inr v)"
    if "run_ok ch_step ch_ok es (m' a)" for es sc
    using ch_resolved_run [OF _ that] m' by (auto simp: ch_resolved_def ch_result_def resume_value_def)
  with False m'(1) show ?thesis by blast
qed

theorem sent_value_is_received_witness:
  "resume_value True (fst (run ch_step [Drop_sender, Cancel_cb 5]
     (fst (snd (send (Some 0) (7::nat) (\<lambda>_. new_oneshot))) 0))) = Some (Inr 7)"
proof -
  obtain r m' k where s: "send (Some 0) (7::nat) (\<lambda>_. new_oneshot) = (r, m', k)"
    by (cases "send (Some 0) (7::nat) (\<lambda>_. new_oneshot)") auto
  then have "r = Inr ()" and m': "m' = fst (snd (send (Some 0) (7::nat) (\<lambda>_. new_oneshot)))"
    by (auto simp: send_def set_value_def new_oneshot_def)
  moreover have "run_ok ch_step ch_ok [Drop_sender, Cancel_cb 5] (m' 0)"
    unfolding m' by code_simp
  ultimately show ?thesis
    using sent_value_is_received [OF s] by blast
qed

text \<open>
  The first resolution of a channel is final: once a value has been sent, the sender has
  been dropped or the receiver has been cancelled, no later operation changes which of the
  three it was (nor the value), and no later operation wakes anybody. A channel never holds
  two of the three.
\<close>

lemma first_resolution_wins:
  assumes "run_ok ch_step ch_ok (before @ later) new_oneshot"
    and "s = fst (run ch_step before new_oneshot)" and "s' = fst (run ch_step later s)"
    and "ch_resolved s"
  shows "ch_result s' = ch_result s \<and> snd (run ch_step later s) = [] \<and>
    of_bool (o_ready s') + of_bool (o_sender_dropped s') + of_bool (o_cancelled s') = (1::nat) \<and>
    (o_ready s' \<longleftrightarrow> o_value s' \<noteq> None)"
proof -
  have ok: "run_ok ch_step ch_ok before new_oneshot" "run_ok ch_step ch_ok later s"
    using assms(1,2) by (simp_all add: run_ok_append)
  have 1: "ch_result s' = ch_result s" "snd (run ch_step later s) = []"
    using ch_resolved_run [OF assms(4) ok(2)] assms(3) by auto
  have "ch_inv s'"
    using channel.inv_run [OF new_oneshot_inv assms(1)] assms(2,3) by (simp add: run_append)
  moreover have "ch_resolved s'"
    using assms(4) ch_result_resolved [OF 1(1)] by simp
  ultimately show ?thesis
    using 1 by (auto simp: ch_inv_def ch_resolved_def)
qed

lemma first_resolution_wins_witness:
  "ch_result (fst (run ch_step [Cancel_cb 3, Drop_sender, Drop_receiver]
     (fst (run ch_step [Suspend 3, Send 9] new_oneshot)))) = (Some (9::nat), True, False, False)"
proof -
  have ok: "run_ok ch_step ch_ok ([Suspend 3, Send (9::nat)] @ [Cancel_cb 3, Drop_sender, Drop_receiver])
      new_oneshot"
    by code_simp
  have r: "ch_resolved (fst (run ch_step [Suspend 3, Send (9::nat)] new_oneshot))"
    by code_simp
  have "ch_result (fst (run ch_step [Suspend 3, Send (9::nat)] new_oneshot)) = (Some 9, True, False, False)"
    by code_simp
  with first_resolution_wins [OF ok refl refl r] show ?thesis by simp
qed

text \<open>A waiter that is enrolled is woken once, by whatever resolves the channel.\<close>

lemma enrolled_woken:
  assumes inv: "ch_inv s" and ok: "run_ok ch_step ch_ok later s"
    and w: "o_waiter s = Some h" "\<not> ch_resolved s" and s': "s' = fst (run ch_step later s)"
  shows "snd (run ch_step later s) = (if ch_resolved s' then [(o_rt s, h)] else [])"
proof -
  let ?k = "(o_rt s, h)"
  have len: "length (snd (run ch_step later s)) = of_bool (ch_resolved s')"
    using ch_run_wakes_waiter [OF _ w(2) ok] w(1) s' by simp
  show ?thesis
  proof (cases "ch_resolved s'")
    case True
    have "\<not> ch_waiting s' ?k"
      using True channel.inv_run [OF inv ok] s'
      by (auto simp: ch_waiting_def ch_resolved_def ch_inv_def)
    moreover have "ch_waiting s ?k"
      using w by (simp add: ch_waiting_def)
    ultimately have "?k \<in> set (snd (run ch_step later s))"
      using channel.woken_exactly [OF inv ok, of ?k] s'
        count_list_0_iff [of "snd (run ch_step later s)" ?k] by simp
    with len True show ?thesis
      by (cases "snd (run ch_step later s)") auto
  qed (use len in simp)
qed

text \<open>
  A receiver that is suspended on a channel is woken exactly once: never before the
  channel is resolved, and with the step that resolves it, whichever of send, sender drop or
  cancellation that is; it is woken through the runtime it was awaited on. Over a whole
  history a channel schedules at most one coroutine.
\<close>

lemma receiver_woken_exactly_once:
  assumes "run_ok ch_step ch_ok (before @ Suspend h # later) new_oneshot"
    and "s = fst (run ch_step before new_oneshot)" and "\<not> ch_resolved s"
    and "s' = fst (run ch_step (Suspend h # later) s)"
  shows "snd (run ch_step (before @ Suspend h # later) new_oneshot) =
    (if ch_resolved s' then [(o_rt s, h)] else [])"
proof -
  have ok: "run_ok ch_step ch_ok before new_oneshot" "ch_ok (Suspend h) s"
      "run_ok ch_step ch_ok later (fst (ch_step (Suspend h) s))"
    using assms(1,2) by (simp_all add: run_ok_append)
  let ?s1 = "fst (ch_step (Suspend h) s)"
  have s1: "o_waiter ?s1 = Some h" "\<not> ch_resolved ?s1" "o_rt ?s1 = o_rt s" "snd (ch_step (Suspend h) s) = []"
    using assms(3) by (auto simp: ch_resolved_def suspend_enrol_def)
  have "ch_inv s"
    using channel.inv_run [OF new_oneshot_inv ok(1)] assms(2) by simp
  then have "ch_inv ?s1"
    using ok(2) by (rule ch_step_inv)
  then have "snd (run ch_step later ?s1) = (if ch_resolved s' then [(o_rt s, h)] else [])"
    using enrolled_woken [OF _ ok(3) s1(1,2)] s1(3) assms(4) by simp
  moreover have "snd (run ch_step before new_oneshot) = []"
    using channel_unresolved_silent [OF ok(1)] assms(2,3) by (auto simp: new_oneshot_def ch_resolved_def)
  ultimately show ?thesis
    using assms(2) s1(4) by (simp add: run_append)
qed

lemma receiver_woken_exactly_once_witness:
  "snd (run ch_step ([] @ Suspend 3 # [Send (1::nat), Drop_sender, Cancel_cb 3]) new_oneshot) = [(None, 3)]"
proof -
  have ok: "run_ok ch_step ch_ok ([] @ Suspend 3 # [Send (1::nat), Drop_sender, Cancel_cb 3]) new_oneshot"
    by code_simp
  have u: "\<not> ch_resolved (fst (run ch_step [] (new_oneshot :: nat oneshot)))"
    by code_simp
  have "ch_resolved (fst (run ch_step (Suspend 3 # [Send (1::nat), Drop_sender, Cancel_cb 3])
      (fst (run ch_step [] new_oneshot))))"
    by code_simp
  then show ?thesis
    using receiver_woken_exactly_once [OF ok refl u refl] by (simp add: new_oneshot_def)
qed

lemma suspend_arm_idle:
  assumes "g_state (guards w (a_guard aw)) = Idle" and "g_scope (guards w (a_guard aw)) = Some sc"
    and "a_state aw = Some a" and "\<not> cancelled sc w" and "cancel_inv w" and "armed_on sc w = {}"
  shows "\<exists>w'. suspend_arm aw h w = Some (Arm_armed, w') \<and> cancel_inv w' \<and>
    armed_on sc w' = {a_guard aw} \<and> g_cb (guards w' (a_guard aw)) = Some (Cancel_waiter a h) \<and>
    g_scope (guards w' (a_guard aw)) = Some sc \<and> \<not> cancelled sc w'"
  using arm_idle [OF assms(1,2,4-6), of "Cancel_waiter a h"] assms(3) by (simp add: suspend_arm_def)

text \<open>
  A receiver whose scope is cancelled before it suspends, after it has armed its guard but
  before it stores its handle, and while it is suspended.
\<close>

lemma cancelled_before_suspend:
  assumes inv: "cancel_inv w" and nc: "\<not> cancelled sc w" and none: "armed_on sc w = {}"
    and g: "g_state (guards w g) = Idle" "g_scope (guards w g) = Some sc"
    and aw: "aw = \<lparr>a_state = Some a, a_scope = Some sc, a_guard = g\<rparr>"
    and ch: "\<not> ch_resolved (m a)"
  shows "\<exists>w1 w2. cancel run_oneshot_cb sc w (m, k) = Some (w1, (m, k)) \<and>
      await_suspend aw h m w1 = Some (False, m, w1) \<and>
      await_resume aw m w1 = Some (Inl err_cancelled, w2)"
proof -
  obtain w1 where w1: "cancel run_oneshot_cb sc w (m, k) = Some (w1, (m, k))"
      "guards w1 = guards w" "cancelled sc w1"
    using cancel_none [OF inv nc none, of run_oneshot_cb "(m, k)"] by auto
  have g1: "s_cancelled (scopes w1 sc)" "g_state (guards w1 g) = Idle" "g_scope (guards w1 g) = Some sc"
    using w1(2,3) g by (simp_all add: cancelled_def)
  then have "await_suspend aw h m w1 = Some (False, m, w1)"
    by (simp add: aw await_suspend_def suspend_arm_def arm_def)
  moreover have "await_resume aw m w1 = Some (Inl err_cancelled, w1)"
    using g1 ch by (simp add: aw ch_resolved_def await_resume_def disarm_def resume_value_def
        already_cancelled_def cancelled_def)
  ultimately show ?thesis
    using w1(1) by blast
qed

text \<open>
  The armed callback marks the channel cancelled, takes the stored handle out, and schedules
  its coroutine only if there was one.
\<close>

lemma armed_then_cancelled:
  assumes w: "cancel_inv w" "\<not> cancelled sc w" "armed_on sc w = {g}"
      "g_cb (guards w g) = Some (Cancel_waiter a h)" "g_scope (guards w g) = Some sc"
    and aw: "aw = \<lparr>a_state = Some a, a_scope = Some sc, a_guard = g\<rparr>"
    and s: "\<not> ch_resolved (m a)" and m2: "m2 = m(a := (m a)\<lparr>o_cancelled := True, o_waiter := None\<rparr>)"
  shows "\<exists>w2. cancel run_oneshot_cb sc w (m, k) =
      Some (w2, (m2, if o_waiter (m a) = None then k else k @ [(o_rt (m a), h)])) \<and>
    await_resume aw m2 w2 = Some (Inl err_cancelled, w2)"
proof -
  obtain w2 where w2: "cancel run_oneshot_cb sc w (m, k) =
      Some (w2, (m2, if o_waiter (m a) = None then k else k @ [(o_rt (m a), h)]))"
      "g_scope (guards w2 g) = Some sc" "g_state (guards w2 g) = Fired"
    using cancel_single [OF w(1-4), of run_oneshot_cb "(m, k)"] s w(5)
    by (auto simp: m2 cancel_and_take_waiter_def ch_resolved_def split: if_splits)
  moreover have "await_resume aw m2 w2 = Some (Inl err_cancelled, w2)"
    using w2(2,3) s by (simp add: aw m2 ch_resolved_def await_resume_def disarm_def resume_value_def)
  ultimately show ?thesis by blast
qed

text \<open>
  C12. Cancelling the scope of a receiver that is about to await an unresolved channel ends its
  wait with the error \<^verbatim>\<open>cancelled\<close>, whenever it happens. Before \<^verbatim>\<open>await_suspend\<close> the
  coroutine does not suspend; between the arming of the guard and the recording of the
  coroutine it does not suspend either and nobody is scheduled; after the coroutine is
  recorded it is scheduled exactly once.
\<close>

theorem receiver_cancelled_at_any_point:
  assumes inv: "cancel_inv w" and nc: "\<not> cancelled sc w" and none: "armed_on sc w = {}"
    and g: "g_state (guards w g) = Idle" "g_scope (guards w g) = Some sc"
    and aw: "aw = \<lparr>a_state = Some a, a_scope = Some sc, a_guard = g\<rparr>"
    and ch: "\<not> ch_resolved (m a)" "o_waiter (m a) = None"
  shows "(\<exists>w1 w2. cancel run_oneshot_cb sc w (m, k) = Some (w1, (m, k)) \<and>
      await_suspend aw h m w1 = Some (False, m, w1) \<and>
      await_resume aw m w1 = Some (Inl err_cancelled, w2)) \<and>
    (\<exists>w1 w2 m2 w3. suspend_arm aw h w = Some (Arm_armed, w1) \<and>
      cancel run_oneshot_cb sc w1 (m, k) = Some (w2, (m2, k)) \<and>
      suspend_enrol h (m2 a) = (False, m2 a) \<and>
      await_resume aw m2 w2 = Some (Inl err_cancelled, w3)) \<and>
    (\<exists>m1 w1 m2 w2 w3. await_suspend aw h m w = Some (True, m1, w1) \<and>
      cancel run_oneshot_cb sc w1 (m1, k) = Some (w2, (m2, k @ [(o_rt (m a), h)])) \<and>
      await_resume aw m2 w2 = Some (Inl err_cancelled, w3))"
proof (intro conjI)
  show "\<exists>w1 w2. cancel run_oneshot_cb sc w (m, k) = Some (w1, (m, k)) \<and>
      await_suspend aw h m w1 = Some (False, m, w1) \<and>
      await_resume aw m w1 = Some (Inl err_cancelled, w2)"
    by (rule cancelled_before_suspend [OF inv nc none g aw, where m = m, OF ch(1)])
  obtain w1 where arm: "suspend_arm aw h w = Some (Arm_armed, w1)"
    and w1: "cancel_inv w1" "\<not> cancelled sc w1" "armed_on sc w1 = {g}"
      "g_cb (guards w1 g) = Some (Cancel_waiter a h)" "g_scope (guards w1 g) = Some sc"
    using suspend_arm_idle [of w aw sc a h] g nc inv none by (auto simp: aw)
  let ?m1 = "m(a := (m a)\<lparr>o_waiter := Some h\<rparr>)"
  have "suspend_enrol h ((m a)\<lparr>o_cancelled := True, o_waiter := None\<rparr>) =
      (False, (m a)\<lparr>o_cancelled := True, o_waiter := None\<rparr>)"
    by (simp add: suspend_enrol_def)
  with arm armed_then_cancelled [OF w1 aw, where m = m, OF ch(1) refl, of k] ch(2)
  show "\<exists>w1 w2 m2 w3. suspend_arm aw h w = Some (Arm_armed, w1) \<and>
      cancel run_oneshot_cb sc w1 (m, k) = Some (w2, (m2, k)) \<and>
      suspend_enrol h (m2 a) = (False, m2 a) \<and>
      await_resume aw m2 w2 = Some (Inl err_cancelled, w3)" by fastforce
  have "await_suspend aw h m w = Some (True, ?m1, w1)" and m1: "\<not> ch_resolved (?m1 a)"
    using arm ch(1) by (simp_all add: await_suspend_def suspend_enrol_def aw ch_resolved_def)
  with armed_then_cancelled [OF w1 aw, where m = ?m1, OF m1 refl, of k]
  show "\<exists>m1 w1 m2 w2 w3. await_suspend aw h m w = Some (True, m1, w1) \<and>
      cancel run_oneshot_cb sc w1 (m1, k) = Some (w2, (m2, k @ [(o_rt (m a), h)])) \<and>
      await_resume aw m2 w2 = Some (Inl err_cancelled, w3)"
    by fastforce
qed

theorem receiver_cancelled_at_any_point_witness:
  "\<exists>m1 w1 m2 w2 w3.
     await_suspend \<lparr>a_state = Some 0, a_scope = Some 0, a_guard = 1\<rparr> 4 (\<lambda>_. new_oneshot :: nat oneshot)
       demo_scope = Some (True, m1, w1) \<and>
     cancel run_oneshot_cb 0 w1 (m1, []) = Some (w2, (m2, [(None, 4)])) \<and>
     await_resume \<lparr>a_state = Some 0, a_scope = Some 0, a_guard = 1\<rparr> m2 w2 = Some (Inl err_cancelled, w3)"
proof -
  show ?thesis
    using receiver_cancelled_at_any_point [of demo_scope 0 1 _ 0 "\<lambda>_. new_oneshot :: nat oneshot" "[]" 4]
    by (simp add: ch_resolved_def new_oneshot_def)
qed

section \<open>Corners the code leaves open\<close>

text \<open>
  A null receiver (default-constructed, moved from, or awaited before) is dereferenced by
  \<^verbatim>\<open>await_ready\<close> unless its scope happens to be cancelled already.
\<close>

lemma null_receiver_is_dereferenced:
  "await_ready \<lparr>a_state = None, a_scope = None, a_guard = g\<rparr> m w = None"
  by (simp add: await_ready_def already_cancelled_def)

text \<open>
  Destroying the awaiter of a suspended coroutine marks the receiver dropped but leaves the
  recorded handle, so dropping the sender afterwards schedules a coroutine that is gone.
\<close>

lemma dropped_receiver_is_still_scheduled:
  "snd (run ch_step [Suspend h, Drop_receiver, Drop_sender] new_oneshot) = [(None, h)]"
  by (simp add: ch_defs new_oneshot_def Let_def)

text \<open>
  When the scope is cancelled before the awaiter has armed its guard, \<^verbatim>\<open>await_resume\<close> returns
  \<^verbatim>\<open>cancelled\<close> without marking the channel, so until the awaiter is destroyed a send still
  succeeds, although nobody will receive the value.
\<close>

lemma send_succeeds_after_cancelled_resume:
  "resume_value True new_oneshot = Some (Inl err_cancelled) \<and>
   fst (set_value v new_oneshot) = Inr ()"
  by (simp add: resume_value_def set_value_def new_oneshot_def Let_def)

end
