(* ===== verification/Root_Outcome.thy ===== *)
theory Root_Outcome
  imports Coasio_Error
begin

text \<open>
  \<^verbatim>\<open>include/coasio/detail/root_outcome.hpp\<close>: what a coroutine or a blocking function leaves
  behind, a value or an exception. The specialisation for \<^verbatim>\<open>void\<close>, which has no value
  field, is the instance \<^typ>\<open>unit\<close> with the value always stored.
\<close>

text \<open>The result of a C++ expression that may throw.\<close>

datatype ('e, 'v) ran = Threw 'e | Gave 'v

record ('e, 'v) root_outcome =
  ro_value :: "'v option"
  ro_exception :: "'e option"

definition empty_outcome :: "('e, 'v) root_outcome" where
  "empty_outcome = \<lparr>ro_value = None, ro_exception = None\<rparr>"

text \<open>\<^verbatim>\<open>try { value.emplace(fn()); } catch (...) { exception = current_exception(); }\<close>\<close>

fun store_outcome :: "('e, 'v) ran \<Rightarrow> ('e, 'v) root_outcome \<Rightarrow> ('e, 'v) root_outcome" where
  "store_outcome (Gave v) r = r\<lparr>ro_value := Some v\<rparr>"
| "store_outcome (Threw e) r = r\<lparr>ro_exception := Some e\<rparr>"

text \<open>
  \<^verbatim>\<open>if (exception) rethrow_exception(exception); return std::move(*value);\<close> where reading
  an empty \<^verbatim>\<open>optional\<close> is undefined.
\<close>

definition read_outcome :: "('e, 'v) root_outcome \<Rightarrow> ('e, 'v) ran option" where
  "read_outcome r =
     (case ro_exception r of Some e \<Rightarrow> Some (Threw e)
      | None \<Rightarrow> (case ro_value r of Some v \<Rightarrow> Some (Gave v) | None \<Rightarrow> None))"

lemma read_store [simp]: "read_outcome (store_outcome r empty_outcome) = Some r"
  by (cases r) (simp_all add: read_outcome_def empty_outcome_def)

text \<open>The error or the value, as \<^verbatim>\<open>std::expected\<close>.\<close>

fun expected_of :: "('e, 'v) ran \<Rightarrow> ('e, error_code + 'v) ran" where
  "expected_of (Threw e) = Threw e"
| "expected_of (Gave v) = Gave (Inr v)"

end
