(* ===== verification/Roots.thy ===== *)
theory Roots
  imports Oneshot Root_Outcome
begin

text \<open>
  What a runtime and the coroutines it runs share: the frames of the coroutines with the
  promises in them, the run queue and the list of live roots of a runtime
  (\<^verbatim>\<open>include/coasio/detail/root_node.hpp\<close>, the data members of \<^verbatim>\<open>task<T>::promise_type\<close> in
  \<^verbatim>\<open>include/coasio/task.hpp\<close> and of \<^verbatim>\<open>runtime\<close> in \<^verbatim>\<open>include/coasio/runtime.hpp\<close>), and the
  operations of the runtime on its queue and its list.

  A coroutine handle is the address of its frame; the root node is a base of the promise, so
  it has the same address. Frames, runtimes and channels live in stores. The results of all
  tasks have one type \<^typ>\<open>'v\<close> and their exceptions one type \<^typ>\<open>'e\<close>.
\<close>

section \<open>State\<close>

record ('e, 'v) promise =
  pr_prev :: "nat option"
  pr_next :: "nat option"
  pr_scope_raw :: "nat option"
  pr_owner_rt :: runtime_ptr
  pr_result :: "'v option"
  pr_exception :: "'e option"
  pr_owning_scope :: scope_ptr
  pr_sender :: state_ptr
  pr_continuation :: "handle option"
  pr_detached :: bool

text \<open>A frame: its promise, whether it is suspended at its final suspension, whether it exists.\<close>

record ('e, 'v) frame =
  fr_promise :: "('e, 'v) promise"
  fr_done :: bool
  fr_alive :: bool

record runtime =
  rt_queue :: "handle list"
  rt_stop :: bool
  rt_roots_head :: "nat option"
  rt_live :: nat

record ('e, 'v, 'cb) world =
  w_frames :: "handle \<Rightarrow> ('e, 'v) frame"
  w_rts :: "nat \<Rightarrow> runtime"
  w_channels :: "('e, 'v) root_outcome channels"
  w_cancel :: "'cb cancel_world"

definition new_promise :: "('e, 'v) promise" where
  "new_promise = \<lparr>pr_prev = None, pr_next = None, pr_scope_raw = None, pr_owner_rt = None,
     pr_result = None, pr_exception = None, pr_owning_scope = None, pr_sender = None,
     pr_continuation = None, pr_detached = False\<rparr>"

definition new_runtime :: runtime where
  "new_runtime = \<lparr>rt_queue = [], rt_stop = False, rt_roots_head = None, rt_live = 0\<rparr>"

abbreviation promise_of :: "('e, 'v, 'cb) world \<Rightarrow> handle \<Rightarrow> ('e, 'v) promise" where
  "promise_of w h \<equiv> fr_promise (w_frames w h)"

definition upd_frame ::
  "handle \<Rightarrow> (('e, 'v) frame \<Rightarrow> ('e, 'v) frame) \<Rightarrow> ('e, 'v, 'cb) world \<Rightarrow> ('e, 'v, 'cb) world" where
  "upd_frame h f w = w\<lparr>w_frames := (w_frames w)(h := f (w_frames w h))\<rparr>"

definition upd_promise ::
  "handle \<Rightarrow> (('e, 'v) promise \<Rightarrow> ('e, 'v) promise) \<Rightarrow> ('e, 'v, 'cb) world \<Rightarrow> ('e, 'v, 'cb) world" where
  "upd_promise h f = upd_frame h (\<lambda>r. r\<lparr>fr_promise := f (fr_promise r)\<rparr>)"

definition upd_rt :: "nat \<Rightarrow> (runtime \<Rightarrow> runtime) \<Rightarrow> ('e, 'v, 'cb) world \<Rightarrow> ('e, 'v, 'cb) world" where
  "upd_rt r f w = w\<lparr>w_rts := (w_rts w)(r := f (w_rts w r))\<rparr>"

lemma upd_world_simps [simp]:
  "w_frames (upd_frame h f w) = (w_frames w)(h := f (w_frames w h))"
  "w_rts (upd_frame h f w) = w_rts w" "w_channels (upd_frame h f w) = w_channels w"
  "w_cancel (upd_frame h f w) = w_cancel w"
  "w_frames (upd_promise h g w) =
     (w_frames w)(h := (w_frames w h)\<lparr>fr_promise := g (fr_promise (w_frames w h))\<rparr>)"
  "w_rts (upd_promise h g w) = w_rts w" "w_channels (upd_promise h g w) = w_channels w"
  "w_cancel (upd_promise h g w) = w_cancel w"
  "w_rts (upd_rt r k w) = (w_rts w)(r := k (w_rts w r))"
  "w_frames (upd_rt r k w) = w_frames w" "w_channels (upd_rt r k w) = w_channels w"
  "w_cancel (upd_rt r k w) = w_cancel w"
  by (simp_all add: upd_frame_def upd_promise_def upd_rt_def)

section \<open>The run queue\<close>

definition put_task_in_queue :: "handle \<Rightarrow> runtime \<Rightarrow> runtime" where
  "put_task_in_queue h t = t\<lparr>rt_queue := rt_queue t @ [h]\<rparr>"

text \<open>A null handle is ignored.\<close>

definition schedule :: "handle option \<Rightarrow> runtime \<Rightarrow> runtime" where
  "schedule h t = (case h of None \<Rightarrow> t | Some h \<Rightarrow> put_task_in_queue h t)"

text \<open>
  \<^verbatim>\<open>get_next_task_from_queue\<close>: wait, return \<^verbatim>\<open>nullopt\<close>, or return the first handle.
\<close>

datatype next_task = Blocked | No_task | Got handle

definition get_next_task_from_queue :: "runtime \<Rightarrow> next_task \<times> runtime" where
  "get_next_task_from_queue t =
     (if rt_queue t = [] \<and> \<not> rt_stop t then (Blocked, t)
      else if rt_stop t \<and> rt_queue t = [] then (No_task, t)
      else (Got (hd (rt_queue t)), t\<lparr>rt_queue := tl (rt_queue t)\<rparr>))"

text \<open>\<^verbatim>\<open>detail::runtime_schedule(rt, h)\<close>; a null runtime is dereferenced.\<close>

definition runtime_schedule :: "wake \<Rightarrow> ('e, 'v, 'cb) world \<Rightarrow> ('e, 'v, 'cb) world option" where
  "runtime_schedule k w =
     (case fst k of None \<Rightarrow> None | Some r \<Rightarrow> Some (upd_rt r (schedule (Some (snd k))) w))"

section \<open>The list of live roots\<close>

definition register_root :: "nat \<Rightarrow> nat \<Rightarrow> ('e, 'v, 'cb) world \<Rightarrow> ('e, 'v, 'cb) world" where
  "register_root r n w =
     (let h = rt_roots_head (w_rts w r);
          w1 = upd_promise n (\<lambda>p. p\<lparr>pr_next := h, pr_prev := None\<rparr>) w;
          w2 = (case h of None \<Rightarrow> w1 | Some y \<Rightarrow> upd_promise y (\<lambda>p. p\<lparr>pr_prev := Some n\<rparr>) w1)
      in upd_rt r (\<lambda>t. t\<lparr>rt_roots_head := Some n, rt_live := to_size (int (rt_live t) + 1)\<rparr>) w2)"

definition unregister_root :: "nat \<Rightarrow> nat \<Rightarrow> ('e, 'v, 'cb) world \<Rightarrow> ('e, 'v, 'cb) world" where
  "unregister_root r n w =
     (let w1 = (case pr_prev (promise_of w n) of
                  Some a \<Rightarrow> upd_promise a (\<lambda>p. p\<lparr>pr_next := pr_next (promise_of w n)\<rparr>) w
                | None \<Rightarrow> upd_rt r (\<lambda>t. t\<lparr>rt_roots_head := pr_next (promise_of w n)\<rparr>) w);
          w2 = (case pr_next (promise_of w1 n) of
                  Some b \<Rightarrow> upd_promise b (\<lambda>p. p\<lparr>pr_prev := pr_prev (promise_of w1 n)\<rparr>) w1
                | None \<Rightarrow> w1)
      in upd_rt r (\<lambda>t. t\<lparr>rt_live := to_size (int (rt_live t) - 1)\<rparr>) w2)"

text \<open>The condition \<^verbatim>\<open>roots_drained_cv_\<close> is notified on, and the destructor waits for.\<close>

definition drained :: "nat \<Rightarrow> ('e, 'v, 'cb) world \<Rightarrow> bool" where
  "drained r w \<longleftrightarrow> rt_live (w_rts w r) = 0"

section \<open>The list as an intrusive list\<close>

definition root_links :: "nat \<Rightarrow> ('e, 'v, 'cb) world \<Rightarrow> nat list \<Rightarrow> bool" where
  "root_links r w xs \<longleftrightarrow>
     dll (\<lambda>n. pr_next (promise_of w n)) (\<lambda>n. pr_prev (promise_of w n))
       (rt_roots_head (w_rts w r)) (last_ptr xs) xs"

text \<open>
  The invariant: the list of a runtime is a list, and its counter is its length. A count of
  \<open>2 ^ 64\<close> roots does not fit in memory; the bound is part of the invariant.
\<close>

definition root_chain :: "nat \<Rightarrow> ('e, 'v, 'cb) world \<Rightarrow> nat list \<Rightarrow> bool" where
  "root_chain r w xs \<longleftrightarrow> root_links r w xs \<and> rt_live (w_rts w r) = length xs"

lemma root_links_cong:
  assumes "rt_roots_head (w_rts w r) = rt_roots_head (w_rts w' r)"
    and "\<And>n. n \<in> set xs \<Longrightarrow> pr_next (promise_of w n) = pr_next (promise_of w' n)"
    and "\<And>n. n \<in> set xs \<Longrightarrow> pr_prev (promise_of w n) = pr_prev (promise_of w' n)"
  shows "root_links r w xs = root_links r w' xs"
  unfolding root_links_def assms(1) by (rule dll_cong) (use assms in auto)

lemma register_fields:
  "(\<lambda>x. pr_next (promise_of (register_root r n w) x)) =
     (\<lambda>x. pr_next (promise_of w x))(n := rt_roots_head (w_rts w r))"
  "(\<lambda>x. pr_prev (promise_of (register_root r n w) x)) =
     front_prev (\<lambda>x. pr_prev (promise_of w x)) (rt_roots_head (w_rts w r)) n"
  "rt_roots_head (w_rts (register_root r n w) r) = Some n"
  "rt_live (w_rts (register_root r n w) r) = to_size (int (rt_live (w_rts w r)) + 1)"
  by (auto simp: register_root_def Let_def front_prev_def fun_eq_iff split: option.splits)

lemma unregister_fields:
  assumes "pr_prev (promise_of w n) \<noteq> Some n" and "pr_next (promise_of w n) \<noteq> Some n"
  shows "(\<lambda>x. pr_next (promise_of (unregister_root r n w) x)) =
      unlink_next (\<lambda>x. pr_next (promise_of w x)) (\<lambda>x. pr_prev (promise_of w x)) n"
    and "(\<lambda>x. pr_prev (promise_of (unregister_root r n w) x)) =
      unlink_prev (\<lambda>x. pr_next (promise_of w x)) (\<lambda>x. pr_prev (promise_of w x)) n"
    and "rt_roots_head (w_rts (unregister_root r n w) r) =
      unlink_head (\<lambda>x. pr_next (promise_of w x)) (\<lambda>x. pr_prev (promise_of w x)) n
        (rt_roots_head (w_rts w r))"
    and "rt_live (w_rts (unregister_root r n w) r) = to_size (int (rt_live (w_rts w r)) - 1)"
  using assms
  by (auto simp: unregister_root_def Let_def unlink_defs fun_eq_iff split: option.splits)

lemma register_links:
  assumes "root_links r w xs" and "n \<notin> set xs"
  shows "root_links r (register_root r n w) (n # xs)"
  using dll_push_front [OF assms(1)[unfolded root_links_def] assms(2)]
  by (simp add: root_links_def register_fields)

lemma unregister_links:
  assumes "root_links r w xs" and "n \<in> set xs"
  shows "root_links r (unregister_root r n w) (remove1 n xs)"
proof -
  have d: "dll (\<lambda>n. pr_next (promise_of w n)) (\<lambda>n. pr_prev (promise_of w n))
      (rt_roots_head (w_rts w r)) (last_ptr xs) xs"
    using assms(1) by (simp add: root_links_def)
  have s: "pr_prev (promise_of w n) \<noteq> Some n" "pr_next (promise_of w n) \<noteq> Some n"
    using dll_no_self [OF d assms(2)] by auto
  from dll_unlink [OF d assms(2)] have *: "dll (\<lambda>x. pr_next (promise_of (unregister_root r n w) x))
      (\<lambda>x. pr_prev (promise_of (unregister_root r n w) x)) (rt_roots_head (w_rts (unregister_root r n w) r))
      (unlink_tail (\<lambda>x. pr_next (promise_of w x)) (\<lambda>x. pr_prev (promise_of w x)) n (last_ptr xs))
      (remove1 n xs)"
    by (simp add: unregister_fields [OF s])
  with dll_tail [OF *] show ?thesis by (simp add: root_links_def)
qed

interpretation root_list: intrusive_list "root_links r" "register_root r" "unregister_root r" "(#)"
  for r
proof unfold_locales
  show "root_links r w xs \<Longrightarrow> root_links r w ys \<Longrightarrow> xs = ys" for w :: "('e, 'v, 'cb) world" and xs ys
    unfolding root_links_def by (rule dll_unique)
  show "root_links r w xs \<Longrightarrow> distinct xs" for w :: "('e, 'v, 'cb) world" and xs
    unfolding root_links_def by (rule dll_distinct)
qed (auto intro: register_links unregister_links)

lemma to_size_small: "0 \<le> x \<Longrightarrow> x < 2 ^ 64 \<Longrightarrow> to_size x = nat x"
  by (simp add: to_size_def take_bit_int_eq_self)

lemma root_chain_register:
  assumes "root_chain r w xs" and "n \<notin> set xs" and "Suc (length xs) < 2 ^ 64"
  shows "root_chain r (register_root r n w) (n # xs)"
proof -
  have "to_size (int (length xs) + 1) = Suc (length xs)"
    using assms(3) by (subst to_size_small) auto
  with assms register_links [of r w xs n] show ?thesis
    by (simp add: root_chain_def register_fields)
qed

lemma root_chain_unregister:
  assumes "root_chain r w xs" and "n \<in> set xs" and "length xs < 2 ^ 64"
  shows "root_chain r (unregister_root r n w) (remove1 n xs)"
proof -
  have l: "root_links r w xs" "rt_live (w_rts w r) = length xs"
    using assms(1) by (simp_all add: root_chain_def)
  have d: "dll (\<lambda>n. pr_next (promise_of w n)) (\<lambda>n. pr_prev (promise_of w n))
      (rt_roots_head (w_rts w r)) (last_ptr xs) xs"
    using l(1) by (simp add: root_links_def)
  have s: "pr_prev (promise_of w n) \<noteq> Some n" "pr_next (promise_of w n) \<noteq> Some n"
    using dll_no_self [OF d assms(2)] by auto
  have "0 < length xs" using assms(2) by (cases xs) auto
  then have "to_size (int (length xs) - 1) = length xs - 1"
    using assms(3) by (subst to_size_small) auto
  with l unregister_links [OF l(1) assms(2)] assms(2) show ?thesis
    by (simp add: root_chain_def unregister_fields [OF s] length_remove1)
qed

text \<open>What the two leave alone.\<close>

lemma register_frame [simp]:
  "w_channels (register_root r n w) = w_channels w" "w_cancel (register_root r n w) = w_cancel w"
  "fr_done (w_frames (register_root r n w) h) = fr_done (w_frames w h)"
  "fr_alive (w_frames (register_root r n w) h) = fr_alive (w_frames w h)"
  "pr_scope_raw (promise_of (register_root r n w) h) = pr_scope_raw (promise_of w h)"
  "pr_owner_rt (promise_of (register_root r n w) h) = pr_owner_rt (promise_of w h)"
  "pr_result (promise_of (register_root r n w) h) = pr_result (promise_of w h)"
  "pr_exception (promise_of (register_root r n w) h) = pr_exception (promise_of w h)"
  "pr_owning_scope (promise_of (register_root r n w) h) = pr_owning_scope (promise_of w h)"
  "pr_sender (promise_of (register_root r n w) h) = pr_sender (promise_of w h)"
  "pr_continuation (promise_of (register_root r n w) h) = pr_continuation (promise_of w h)"
  "pr_detached (promise_of (register_root r n w) h) = pr_detached (promise_of w h)"
  "rt_queue (w_rts (register_root r n w) q) = rt_queue (w_rts w q)"
  "rt_stop (w_rts (register_root r n w) q) = rt_stop (w_rts w q)"
  by (auto simp: register_root_def Let_def split: option.splits)

lemma unregister_frame [simp]:
  "w_channels (unregister_root r n w) = w_channels w" "w_cancel (unregister_root r n w) = w_cancel w"
  "fr_done (w_frames (unregister_root r n w) h) = fr_done (w_frames w h)"
  "fr_alive (w_frames (unregister_root r n w) h) = fr_alive (w_frames w h)"
  "pr_scope_raw (promise_of (unregister_root r n w) h) = pr_scope_raw (promise_of w h)"
  "pr_owner_rt (promise_of (unregister_root r n w) h) = pr_owner_rt (promise_of w h)"
  "pr_result (promise_of (unregister_root r n w) h) = pr_result (promise_of w h)"
  "pr_exception (promise_of (unregister_root r n w) h) = pr_exception (promise_of w h)"
  "pr_sender (promise_of (unregister_root r n w) h) = pr_sender (promise_of w h)"
  "pr_detached (promise_of (unregister_root r n w) h) = pr_detached (promise_of w h)"
  "rt_queue (w_rts (unregister_root r n w) q) = rt_queue (w_rts w q)"
  "rt_stop (w_rts (unregister_root r n w) q) = rt_stop (w_rts w q)"
  by (auto simp: unregister_root_def Let_def split: option.splits)

end
