(* ===== verification/Task.thy ===== *)
theory Task
  imports Roots
begin

text \<open>
  \<^verbatim>\<open>include/coasio/task.hpp\<close>: the promise of a coroutine, its final suspension, the task
  object that owns a frame, and the awaiter that makes one coroutine wait for another. What
  the body of a coroutine computes is the user's; here it is the value it returns or the
  exception that leaves it. Using a null handle or a destroyed frame is undefined in C++ and
  is \<^term>\<open>None\<close>. In the specialisation \<^verbatim>\<open>task<void>\<close> the promise has no result; what it
  does differently is defined here, the rest of its text in \<open>Void_Task\<close>.
\<close>

section \<open>The promise\<close>

definition return_value :: "'v \<Rightarrow> ('e, 'v) promise \<Rightarrow> ('e, 'v) promise" where
  "return_value v p = p\<lparr>pr_result := Some v\<rparr>"

definition unhandled_exception :: "'e \<Rightarrow> ('e, 'v) promise \<Rightarrow> ('e, 'v) promise" where
  "unhandled_exception e p = p\<lparr>pr_exception := Some e\<rparr>"

text \<open>The end of the body: the compiler calls one of the two and then suspends finally.\<close>

fun end_body :: "('e, 'v) ran \<Rightarrow> ('e, 'v) promise \<Rightarrow> ('e, 'v) promise" where
  "end_body (Gave v) p = return_value v p"
| "end_body (Threw e) p = unhandled_exception e p"

text \<open>
  \<^verbatim>\<open>h.destroy()\<close>: the members of the promise are destroyed with the frame; of these the
  sender has an effect.
\<close>

definition destroy_frame :: "handle \<Rightarrow> ('e, 'v, 'cb) world \<Rightarrow> (('e, 'v, 'cb) world \<times> wake list) option" where
  "destroy_frame h w =
     (if \<not> fr_alive (w_frames w h) then None
      else case sender_destroy (pr_sender (promise_of w h)) (w_channels w) of
          (ch, k) \<Rightarrow> Some ((upd_frame h (\<lambda>f. f\<lparr>fr_alive := False\<rparr>) w)\<lparr>w_channels := ch\<rparr>, k))"

definition outcome_of :: "('e, 'v) promise \<Rightarrow> ('e, 'v) root_outcome" where
  "outcome_of p =
     (case pr_exception p of
        Some e \<Rightarrow> empty_outcome\<lparr>ro_exception := Some e\<rparr>
      | None \<Rightarrow> empty_outcome\<lparr>ro_value := pr_result p\<rparr>)"

text \<open>
  In \<^verbatim>\<open>task<void>\<close>, whose promise has no result; its frames live in the same store, with a
  result field that is never set.
\<close>

definition return_void :: "('e, 'v) promise \<Rightarrow> ('e, 'v) promise" where
  "return_void p = p"

fun end_body_void :: "('e, unit) ran \<Rightarrow> ('e, 'v) promise \<Rightarrow> ('e, 'v) promise" where
  "end_body_void (Gave u) p = return_void p"
| "end_body_void (Threw e) p = unhandled_exception e p"

definition outcome_of_void :: "('e, 'v) promise \<Rightarrow> ('e, 'v) root_outcome" where
  "outcome_of_void p =
     (case pr_exception p of
        Some e \<Rightarrow> empty_outcome\<lparr>ro_exception := Some e\<rparr>
      | None \<Rightarrow> empty_outcome)"

text \<open>
  The awaiter of \<^verbatim>\<open>final_suspend\<close>. A detached coroutine sends its outcome, leaves the list
  of its runtime and destroys itself; another one hands over to its continuation. The result
  is the coroutine to resume next, null for \<^verbatim>\<open>noop_coroutine\<close>.
\<close>

definition send_outcome ::
  "(('e, 'v) promise \<Rightarrow> ('e, 'v) root_outcome) \<Rightarrow> handle \<Rightarrow> ('e, 'v, 'cb) world \<Rightarrow>
   ('e, 'v, 'cb) world \<times> wake list" where
  "send_outcome oc h w =
     (case send (pr_sender (promise_of w h)) (oc (promise_of w h)) (w_channels w) of
        (_, ch, k) \<Rightarrow> (w\<lparr>w_channels := ch\<rparr>, k))"

definition final_suspend_with ::
  "(('e, 'v) promise \<Rightarrow> ('e, 'v) root_outcome) \<Rightarrow> handle \<Rightarrow> ('e, 'v, 'cb) world \<Rightarrow>
   (('e, 'v, 'cb) world \<times> handle option \<times> wake list) option" where
  "final_suspend_with oc h w =
     (let w0 = upd_frame h (\<lambda>f. f\<lparr>fr_done := True\<rparr>) w
      in if pr_detached (promise_of w0 h) then
           (case send_outcome oc h w0 of
              (w1, k1) \<Rightarrow>
                let w2 = (case pr_owner_rt (promise_of w1 h) of
                            None \<Rightarrow> w1
                          | Some r \<Rightarrow> unregister_root r h w1)
                in map_option (\<lambda>(w3, k2). (w3, None, k1 @ k2)) (destroy_frame h w2))
         else Some (w0, pr_continuation (promise_of w0 h), []))"

definition final_suspend ::
  "handle \<Rightarrow> ('e, 'v, 'cb) world \<Rightarrow> (('e, 'v, 'cb) world \<times> handle option \<times> wake list) option" where
  "final_suspend h w = final_suspend_with outcome_of h w"

text \<open>The same function of \<^verbatim>\<open>task<void>\<close>, from its own text.\<close>

definition final_suspend_void ::
  "handle \<Rightarrow> ('e, 'v, 'cb) world \<Rightarrow> (('e, 'v, 'cb) world \<times> handle option \<times> wake list) option" where
  "final_suspend_void h w =
     (let w0 = upd_frame h (\<lambda>f. f\<lparr>fr_done := True\<rparr>) w;
          p = promise_of w0 h
      in if \<not> pr_detached p then Some (w0, pr_continuation p, [])
         else
           let outcome = (case pr_exception p of
                 None \<Rightarrow> empty_outcome
               | Some e \<Rightarrow> empty_outcome\<lparr>ro_exception := Some e\<rparr>);
             (_, ch, k1) = send (pr_sender p) outcome (w_channels w0);
             w1 = w0\<lparr>w_channels := ch\<rparr>;
             w2 = (case pr_owner_rt p of Some r \<Rightarrow> unregister_root r h w1 | None \<Rightarrow> w1)
           in (case destroy_frame h w2 of
                 None \<Rightarrow> None
               | Some (w3, k2) \<Rightarrow> Some (w3, None, k1 @ k2)))"

text \<open>It differs from the other in the outcome alone.\<close>

lemma final_suspend_void_eq: "final_suspend_void h w = final_suspend_with outcome_of_void h w"
  by (simp add: final_suspend_void_def final_suspend_with_def send_outcome_def outcome_of_void_def Let_def
      map_option_case case_prod_unfold split: option.splits)

section \<open>The task object\<close>

text \<open>
  \<^verbatim>\<open>get_return_object\<close>, when the coroutine has been called: a fresh frame, suspended at its
  initial suspension, and the task object that owns it.
\<close>

definition get_return_object :: "handle \<Rightarrow> ('e, 'v, 'cb) world \<Rightarrow> handle option \<times> ('e, 'v, 'cb) world" where
  "get_return_object h w =
     (Some h, upd_frame h (\<lambda>_. \<lparr>fr_promise = new_promise, fr_done = False, fr_alive = True\<rparr>) w)"

text \<open>A task object is its handle. \<open>same\<close> is the test \<^verbatim>\<open>this == &o\<close>.\<close>

type_synonym task_obj = "handle option"

definition task_move :: "task_obj \<Rightarrow> task_obj \<times> task_obj" where
  "task_move o' = (o', None)"

definition task_destroy ::
  "task_obj \<Rightarrow> ('e, 'v, 'cb) world \<Rightarrow> (('e, 'v, 'cb) world \<times> wake list) option" where
  "task_destroy t w = (case t of None \<Rightarrow> Some (w, []) | Some h \<Rightarrow> destroy_frame h w)"

definition task_assign ::
  "bool \<Rightarrow> task_obj \<Rightarrow> task_obj \<Rightarrow> ('e, 'v, 'cb) world \<Rightarrow>
   (task_obj \<times> task_obj \<times> ('e, 'v, 'cb) world \<times> wake list) option" where
  "task_assign same t o' w =
     (if same then Some (t, o', w, [])
      else map_option (\<lambda>(w', k). (o', None, w', k)) (task_destroy t w))"

definition task_release :: "task_obj \<Rightarrow> handle option \<times> task_obj" where
  "task_release t = (t, None)"

definition task_detach ::
  "task_obj \<Rightarrow> ('e, 'v, 'cb) world \<Rightarrow> handle option \<times> task_obj \<times> ('e, 'v, 'cb) world" where
  "task_detach t w =
     (case task_release t of
        (None, t') \<Rightarrow> (None, t', w)
      | (Some h, t') \<Rightarrow> (Some h, t', upd_promise h (\<lambda>p. p\<lparr>pr_detached := True\<rparr>) w))"

definition task_set_owning_scope ::
  "task_obj \<Rightarrow> scope_ptr \<Rightarrow> ('e, 'v, 'cb) world \<Rightarrow> ('e, 'v, 'cb) world option" where
  "task_set_owning_scope t s w =
     (case t of None \<Rightarrow> None
      | Some h \<Rightarrow> Some (upd_promise h (\<lambda>p. p\<lparr>pr_owning_scope := s\<rparr>) w))"

definition task_valid :: "task_obj \<Rightarrow> ('e, 'v, 'cb) world \<Rightarrow> bool" where
  "task_valid t w \<longleftrightarrow> (case t of None \<Rightarrow> False | Some h \<Rightarrow> \<not> fr_done (w_frames w h))"

section \<open>Awaiting a task\<close>

text \<open>
  \<^verbatim>\<open>await_transform\<close> of a child hands the scope of the parent \<open>h\<close> down; a leaf awaitable
  gets it by its \<^verbatim>\<open>set_cancel_scope\<close>.
\<close>

definition await_transform_task ::
  "handle \<Rightarrow> task_obj \<Rightarrow> ('e, 'v, 'cb) world \<Rightarrow> (task_obj \<times> ('e, 'v, 'cb) world) option" where
  "await_transform_task h child w =
     map_option (\<lambda>w'. (child, w')) (task_set_owning_scope child (pr_owning_scope (promise_of w h)) w)"

definition await_transform_leaf ::
  "(scope_ptr \<Rightarrow> 'a \<Rightarrow> 'a) \<Rightarrow> handle \<Rightarrow> 'a \<Rightarrow> ('e, 'v, 'cb) world \<Rightarrow> 'a" where
  "await_transform_leaf set_cancel_scope h a w = set_cancel_scope (pr_owning_scope (promise_of w h)) a"

definition task_await_ready :: "task_obj \<Rightarrow> ('e, 'v, 'cb) world \<Rightarrow> bool" where
  "task_await_ready t w \<longleftrightarrow> (case t of None \<Rightarrow> True | Some h \<Rightarrow> fr_done (w_frames w h))"

definition task_await_suspend ::
  "task_obj \<Rightarrow> handle \<Rightarrow> ('e, 'v, 'cb) world \<Rightarrow> (handle \<times> ('e, 'v, 'cb) world) option" where
  "task_await_suspend t caller w =
     (case t of None \<Rightarrow> None
      | Some h \<Rightarrow> Some (h, upd_promise h (\<lambda>p. p\<lparr>pr_continuation := Some caller\<rparr>) w))"

definition task_await_resume :: "task_obj \<Rightarrow> ('e, 'v, 'cb) world \<Rightarrow> ('e, 'v) ran option" where
  "task_await_resume t w =
     (case t of None \<Rightarrow> None
      | Some h \<Rightarrow>
          (case pr_exception (promise_of w h) of
             Some e \<Rightarrow> Some (Threw e)
           | None \<Rightarrow> map_option Gave (pr_result (promise_of w h))))"

definition task_await_resume_void :: "task_obj \<Rightarrow> ('e, 'v, 'cb) world \<Rightarrow> ('e, unit) ran option" where
  "task_await_resume_void t w =
     (case t of None \<Rightarrow> None
      | Some h \<Rightarrow>
          (case pr_exception (promise_of w h) of
             Some e \<Rightarrow> Some (Threw e)
           | None \<Rightarrow> Some (Gave ())))"

definition task_awaiter_destroy ::
  "task_obj \<Rightarrow> ('e, 'v, 'cb) world \<Rightarrow> (('e, 'v, 'cb) world \<times> wake list) option" where
  "task_awaiter_destroy t w = task_destroy t w"

section \<open>What awaiting and finishing do\<close>

lemma read_outcome_of:
  "read_outcome (outcome_of (end_body r p)) = Some r"
  if "pr_exception p = None"
  using that by (cases r) (simp_all add: outcome_of_def return_value_def unhandled_exception_def
      read_outcome_def empty_outcome_def)

lemma end_body_frame [simp]:
  "pr_sender (end_body r p) = pr_sender p" "pr_owner_rt (end_body r p) = pr_owner_rt p"
  "pr_detached (end_body r p) = pr_detached p" "pr_continuation (end_body r p) = pr_continuation p"
  "pr_next (end_body r p) = pr_next p" "pr_prev (end_body r p) = pr_prev p"
  "pr_scope_raw (end_body r p) = pr_scope_raw p" "pr_owning_scope (end_body r p) = pr_owning_scope p"
  by (cases r; simp add: return_value_def unhandled_exception_def)+

text \<open>
  C25. \<^verbatim>\<open>co_await\<close> of a task gives the parent what the child does: the child runs under the
  parent's scope, is started by the parent's suspension, and when its body ends hands back to
  the parent, which then gets the value the child returned or its exception; the awaiter's
  destruction destroys the child's frame, once, and wakes nobody.
\<close>

theorem awaited_task_gives_its_result:
  assumes "fr_alive (w_frames w c)" and "\<not> fr_done (w_frames w c)" and "c \<noteq> h"
    and "\<not> pr_detached (promise_of w c)" and "pr_exception (promise_of w c) = None"
    and "pr_sender (promise_of w c) = None"
  shows "\<exists>w1 w2 w3 w4. await_transform_task h (Some c) w = Some (Some c, w1) \<and>
    pr_owning_scope (promise_of w1 c) = pr_owning_scope (promise_of w h) \<and>
    \<not> task_await_ready (Some c) w1 \<and> task_await_suspend (Some c) h w1 = Some (c, w2) \<and>
    final_suspend c (upd_promise c (end_body r) w2) = Some (w3, Some h, []) \<and>
    task_await_resume (Some c) w3 = Some r \<and>
    task_awaiter_destroy (Some c) w3 = Some (w4, []) \<and> \<not> fr_alive (w_frames w4 c) \<and>
    w_frames w4 h = w_frames w h \<and> w_rts w4 = w_rts w \<and> w_channels w4 = w_channels w"
proof -
  let ?w1 = "upd_promise c (\<lambda>p. p\<lparr>pr_owning_scope := pr_owning_scope (promise_of w h)\<rparr>) w"
  let ?w2 = "upd_promise c (\<lambda>p. p\<lparr>pr_continuation := Some h\<rparr>) ?w1"
  let ?w3 = "upd_frame c (\<lambda>f. f\<lparr>fr_done := True\<rparr>) (upd_promise c (end_body r) ?w2)"
  let ?w4 = "(upd_frame c (\<lambda>f. f\<lparr>fr_alive := False\<rparr>) ?w3)\<lparr>w_channels := w_channels w\<rparr>"
  have "await_transform_task h (Some c) w = Some (Some c, ?w1)"
    by (simp add: await_transform_task_def task_set_owning_scope_def)
  moreover have "\<not> task_await_ready (Some c) ?w1" "task_await_suspend (Some c) h ?w1 = Some (c, ?w2)"
    using assms(2) by (simp_all add: task_await_ready_def task_await_suspend_def)
  moreover have "final_suspend c (upd_promise c (end_body r) ?w2) = Some (?w3, Some h, [])"
    using assms(4) by (simp add: final_suspend_def final_suspend_with_def Let_def)
  moreover have "task_await_resume (Some c) ?w3 = Some r"
    using assms(5) by (cases r) (simp_all add: task_await_resume_def return_value_def unhandled_exception_def)
  moreover have "task_awaiter_destroy (Some c) ?w3 = Some (?w4, [])"
    using assms(1,6) by (simp add: task_awaiter_destroy_def task_destroy_def destroy_frame_def sender_destroy_def)
  ultimately show ?thesis
    using assms(3) by (intro exI [of _ ?w1] exI [of _ ?w2] exI [of _ ?w3] exI [of _ ?w4]) simp
qed

definition demo_frame :: "(nat, nat) frame" where
  "demo_frame = \<lparr>fr_promise = new_promise, fr_done = False, fr_alive = True\<rparr>"

definition demo_runtime_world :: "(nat, nat, nat) world" where
  "demo_runtime_world = \<lparr>w_frames = (\<lambda>_. demo_frame), w_rts = (\<lambda>_. new_runtime),
     w_channels = (\<lambda>_. new_oneshot), w_cancel = \<lparr>guards = (\<lambda>_. new_guard None), scopes = (\<lambda>_. new_scope)\<rparr>\<rparr>"

lemma demo_runtime_simps [simp]:
  "w_frames demo_runtime_world h = demo_frame" "fr_promise demo_frame = new_promise"
  "fr_alive demo_frame" "\<not> fr_done demo_frame" "w_rts demo_runtime_world r = new_runtime"
  by (simp_all add: demo_runtime_world_def demo_frame_def)

lemma new_promise_simps [simp]:
  "pr_detached new_promise = False" "pr_exception new_promise = None" "pr_sender new_promise = None"
  "pr_result new_promise = None" "pr_owner_rt new_promise = None"
  by (simp_all add: new_promise_def)

theorem awaited_task_gives_its_result_witness:
  "\<exists>w1 w2 w3. await_transform_task 1 (Some 2) demo_runtime_world = Some (Some 2, w1) \<and>
     task_await_suspend (Some 2) 1 w1 = Some (2, w2) \<and>
     final_suspend 2 (upd_promise 2 (end_body (Threw 7)) w2) = Some (w3, Some 1, []) \<and>
     task_await_resume (Some 2) w3 = Some (Threw 7)"
  using awaited_task_gives_its_result [of demo_runtime_world 2 1 "Threw 7"] by auto

text \<open>An awaited \<^verbatim>\<open>task<void>\<close> hands its exception on, or the fact that it has ended.\<close>

lemma awaited_void_task:
  assumes "fr_alive (w_frames w c)" and "\<not> pr_detached (promise_of w c)" and "pr_exception (promise_of w c) = None"
    and "task_await_suspend (Some c) h w = Some (c, w2)"
  shows "\<exists>w3. final_suspend_void c (upd_promise c (end_body_void r) w2) = Some (w3, Some h, []) \<and>
    task_await_resume_void (Some c) w3 = Some r"
proof -
  have "w2 = upd_promise c (\<lambda>p. p\<lparr>pr_continuation := Some h\<rparr>) w"
    using assms(4) by (simp add: task_await_suspend_def)
  with assms(1-3) show ?thesis
    by (cases r) (simp_all add: final_suspend_void_eq final_suspend_with_def return_void_def
        unhandled_exception_def task_await_resume_void_def)
qed

text \<open>
  An empty task passes \<^verbatim>\<open>await_ready\<close> but is dereferenced before it, by \<^verbatim>\<open>await_transform\<close>,
  and after it, by \<^verbatim>\<open>await_resume\<close>.
\<close>

lemma empty_task_is_dereferenced:
  "task_await_ready None w \<and> await_transform_task h None w = None \<and> task_await_resume None w = None"
  by (simp add: task_await_ready_def await_transform_task_def task_set_owning_scope_def
      task_await_resume_def)

end
