(* ===== verification/Work_Queue.thy ===== *)
theory Work_Queue
  imports Coasio_Prelude
begin

text \<open>
  The interface of the two queues that threads take work from: the run queue of a runtime and
  the queue of the blocking pool. Items are handed out in the order in which they were
  accepted, each once; from the second queue an item can also be withdrawn while it is queued.
\<close>

section \<open>First in, first out\<close>

text \<open>
  Runs of a queue: what was accepted, what was handed out, and the queue at the end.
\<close>

datatype 'i queue_op = Submit 'i | Next

primrec queue_run ::
  "('i \<Rightarrow> 'p \<Rightarrow> bool \<times> 'p) \<Rightarrow> ('p \<Rightarrow> 'i option \<times> 'p) \<Rightarrow> 'i queue_op list \<Rightarrow> 'p \<Rightarrow>
   'i list \<times> 'i list \<times> 'p" where
  "queue_run put get [] p = ([], [], p)"
| "queue_run put get (e # es) p =
     (case e of
        Submit x \<Rightarrow>
          (case put x p of (b, p1) \<Rightarrow> (case queue_run put get es p1 of
             (acc, got, p') \<Rightarrow> (if b then x # acc else acc, got, p')))
      | Next \<Rightarrow>
          (case get p of (r, p1) \<Rightarrow> (case queue_run put get es p1 of
             (acc, got, p') \<Rightarrow> (acc, case r of None \<Rightarrow> got | Some x \<Rightarrow> x # got, p'))))"

locale fifo_queue =
  fixes submit :: "'i \<Rightarrow> 'p \<Rightarrow> bool \<times> 'p"
    and next_item :: "'p \<Rightarrow> 'i option \<times> 'p"
    and content :: "'p \<Rightarrow> 'i list"
  assumes submit_content: "content (snd (submit x p)) = content p @ (if fst (submit x p) then [x] else [])"
    and next_content: "content p = (case fst (next_item p) of None \<Rightarrow> [] | Some x \<Rightarrow> [x]) @
      content (snd (next_item p))"
begin

lemma next_Some: "fst (next_item p) = Some x \<Longrightarrow> content p = x # content (snd (next_item p))"
  using next_content [of p] by simp

lemma next_None: "fst (next_item p) = None \<Longrightarrow> content (snd (next_item p)) = content p"
  using next_content [of p] by simp

text \<open>Over any run, what was handed out and what is left is what was there and was accepted.\<close>

lemma run_in_order:
  "queue_run submit next_item es p = (acc, got, p') \<Longrightarrow> got @ content p' = content p @ acc"
proof (induction es arbitrary: p acc got p')
  case (Cons e es)
  show ?case
  proof (cases e)
    case (Submit x)
    obtain b p1 acc1 where s: "submit x p = (b, p1)" "queue_run submit next_item es p1 = (acc1, got, p')"
        "acc = (if b then x # acc1 else acc1)"
      using Cons.prems Submit by (auto split: prod.splits)
    with Cons.IH [OF s(2)] submit_content [of x p] show ?thesis by simp
  next
    case Next
    obtain r p1 got1 where s: "next_item p = (r, p1)" "queue_run submit next_item es p1 = (acc, got1, p')"
        "got = (case r of None \<Rightarrow> got1 | Some x \<Rightarrow> x # got1)"
      using Cons.prems Next by (auto split: prod.splits)
    with Cons.IH [OF s(2)] next_content [of p] show ?thesis by (auto split: option.splits)
  qed
qed simp

end

section \<open>Withdrawing\<close>

text \<open>
  Withdrawing succeeds exactly on something still queued and takes one occurrence out. So
  whatever leaves the queue leaves it once, handed out or withdrawn.
\<close>

locale work_queue = fifo_queue submit next_item content
  for submit :: "'i \<Rightarrow> 'p \<Rightarrow> bool \<times> 'p" and next_item :: "'p \<Rightarrow> 'i option \<times> 'p"
    and content :: "'p \<Rightarrow> 'i list" +
  fixes withdraw :: "'i \<Rightarrow> 'p \<Rightarrow> bool \<times> 'p"
  assumes withdraw_iff: "fst (withdraw x p) \<longleftrightarrow> x \<in> set (content p)"
    and withdraw_content: "content (snd (withdraw x p)) = remove1 x (content p)"
begin

lemma withdraw_set:
  "distinct (content p) \<Longrightarrow> set (content (snd (withdraw x p))) = set (content p) - {x}"
  by (simp add: withdraw_content)

lemma withdraw_other: "x \<notin> set (content p) \<Longrightarrow> content (snd (withdraw x p)) = content p"
  by (simp add: withdraw_content remove1_idem)

lemma taken_not_withdrawn:
  "distinct (content p) \<Longrightarrow> fst (next_item p) = Some x \<Longrightarrow> \<not> fst (withdraw x (snd (next_item p)))"
  using next_Some [of p x] by (auto simp: withdraw_iff)

lemma withdrawn_not_taken:
  assumes "distinct (content p)"
  shows "fst (next_item (snd (withdraw x p))) \<noteq> Some x"
proof
  assume "fst (next_item (snd (withdraw x p))) = Some x"
  from next_Some [OF this] have "x \<in> set (content (snd (withdraw x p)))"
    by (metis list.set_intros(1))
  with withdraw_set [OF assms] show False by simp
qed

end

end
