(* ===== verification/Threads.thy ===== *)
theory Threads
  imports Coasio_Prelude
begin

text \<open>
  What the two groups of threads of the library share, the workers of a runtime and those of
  the blocking pool: a list of thread states, the wake-ups of a condition variable, runs of a
  step relation, and the argument that a destructor which joins the threads returns. The
  interface \<open>joining\<close> states what that argument needs; it is interpreted on both groups.
\<close>

section \<open>Condition variables\<close>

text \<open>
  \<open>notify_one\<close> wakes some sleeping thread if there is one. A thread that is woken, or wakes up
  for no reason, goes on in the state \<open>awake\<close>, where it tests its condition again.
\<close>

definition notify_one :: "'t \<Rightarrow> 't \<Rightarrow> 't list \<Rightarrow> 't list \<Rightarrow> bool" where
  "notify_one asleep awake ts ts' \<longleftrightarrow>
     (if asleep \<in> set ts then \<exists>i < length ts. ts ! i = asleep \<and> ts' = ts[i := awake] else ts' = ts)"

definition notify_all :: "'t \<Rightarrow> 't \<Rightarrow> 't list \<Rightarrow> 't list" where
  "notify_all asleep awake ts = map (\<lambda>t. if t = asleep then awake else t) ts"

section \<open>Updating one thread\<close>

lemma set_update_sub: "x \<in> set (xs[i := y]) \<Longrightarrow> x = y \<or> x \<in> set xs"
  using set_update_subset_insert [of xs i y] by auto

lemma update_sat: "i < length ts \<Longrightarrow> P t \<Longrightarrow> \<exists>u \<in> set (ts[i := t]). P u"
  by (intro bexI [of _ t]) (auto simp: set_update_memI)

lemma count_list_update:
  assumes "i < length xs"
  shows "count_list (xs[i := y]) a + of_bool (xs ! i = a) = count_list xs a + (of_bool (y = a) :: nat)"
  using assms
proof (induction xs arbitrary: i)
  case (Cons z zs)
  show ?case
  proof (cases i)
    case (Suc j)
    with Cons.IH [of j] Cons.prems show ?thesis by simp
  qed simp
qed simp

lemma sum_list_update_nat:
  fixes f :: "'t \<Rightarrow> nat"
  shows "i < length ts \<Longrightarrow> sum_list (map f (ts[i := t])) + f (ts ! i) = sum_list (map f ts) + f t"
proof (induction ts arbitrary: i)
  case (Cons u us)
  show ?case
  proof (cases i)
    case (Suc j)
    with Cons.IH [of j] Cons.prems show ?thesis by simp
  qed simp
qed simp

lemma notify_length [simp]:
  "notify_one a b ts ts' \<Longrightarrow> length ts' = length ts" "length (notify_all a b ts) = length ts"
  by (auto simp: notify_one_def notify_all_def split: if_splits)

lemma notify_count:
  assumes "x \<noteq> a" and "x \<noteq> b"
  shows "notify_one a b ts ts' \<Longrightarrow> count_list ts' x = count_list ts x"
    and "count_list (notify_all a b ts) x = count_list ts x"
proof -
  show "count_list ts' x = count_list ts x" if n: "notify_one a b ts ts'"
  proof (cases "a \<in> set ts")
    case True
    with n obtain i where "i < length ts" "ts ! i = a" "ts' = ts[i := b]" by (auto simp: notify_one_def)
    with count_list_update [of i ts b x] assms show ?thesis by simp
  next
    case False
    with n show ?thesis by (simp add: notify_one_def)
  qed
  show "count_list (notify_all a b ts) x = count_list ts x"
    using assms by (induction ts) (auto simp: notify_all_def)
qed

text \<open>
  After \<open>notify_one\<close> some thread is in a state \<open>P\<close>, when every state but \<open>asleep\<close> and \<open>gone\<close> is.
\<close>

lemma notify_one_awake:
  assumes "notify_one a b ts ts'" and "P b" and "\<And>t. t \<noteq> a \<Longrightarrow> t \<noteq> gone \<Longrightarrow> P t"
    and "gone \<notin> set ts" and "b \<noteq> gone"
  shows "(ts' = [] \<or> (\<exists>t \<in> set ts'. P t)) \<and> gone \<notin> set ts' \<and> (a \<notin> set ts \<longrightarrow> a \<notin> set ts')"
proof (cases "a \<in> set ts")
  case True
  with assms(1) obtain i where i: "i < length ts" "ts' = ts[i := b]" by (auto simp: notify_one_def)
  with update_sat [of i ts P b] assms True show ?thesis by (auto dest!: set_update_sub)
next
  case False
  with assms(1) have "ts' = ts" by (simp add: notify_one_def)
  moreover have "P t" if "t \<in> set ts" for t
    using that False assms(3,4) by metis
  ultimately show ?thesis using False assms(4) by (cases ts) auto
qed

section \<open>Runs\<close>

text \<open>
  A run in which the steps \<open>step\<close> of a system, which are counted, are interleaved in any way with
  steps \<open>other\<close> of its surroundings; \<open>'k list\<close> is what they add to the log.
\<close>

inductive steps ::
  "('s \<Rightarrow> 'k list \<Rightarrow> 's \<Rightarrow> bool) \<Rightarrow> ('s \<Rightarrow> 'k list \<Rightarrow> 's \<Rightarrow> bool) \<Rightarrow> nat \<Rightarrow> 's \<Rightarrow> 'k list \<Rightarrow> 's \<Rightarrow> bool"
  for step other where
  idle: "steps step other 0 s [] s"
| more: "step s k s1 \<Longrightarrow> steps step other m s1 l s' \<Longrightarrow> steps step other (Suc m) s (k @ l) s'"
| beside: "other s k s1 \<Longrightarrow> steps step other m s1 l s' \<Longrightarrow> steps step other m s (k @ l) s'"

section \<open>Joining threads\<close>

text \<open>
  While a destructor stops and joins its threads, \<open>inv\<close> holds. Each step of the threads and of
  the destructor brings them closer to the end, nothing that happens beside them takes them
  further from it, and as long as the end is not reached one of them can step without anything
  happening beside them. Threads that wake up for no reason are among what happens beside them:
  they are not counted on.
\<close>

locale joining =
  fixes step :: "'s \<Rightarrow> 'k list \<Rightarrow> 's \<Rightarrow> bool"
    and other :: "'s \<Rightarrow> 'k list \<Rightarrow> 's \<Rightarrow> bool"
    and inv :: "'s \<Rightarrow> bool"
    and done_with :: "'s \<Rightarrow> bool"
    and left :: "'s \<Rightarrow> nat"
  assumes step_inv: "step s k s' \<Longrightarrow> inv s \<Longrightarrow> inv s'"
    and other_inv: "other s k s' \<Longrightarrow> inv s \<Longrightarrow> inv s'"
    and closer: "step s k s' \<Longrightarrow> inv s \<Longrightarrow> left s' < left s"
    and no_further: "other s k s' \<Longrightarrow> inv s \<Longrightarrow> left s' \<le> left s"
    and can_step: "inv s \<Longrightarrow> \<not> done_with s \<Longrightarrow> \<exists>k s'. step s k s'"
begin

lemma steps_inv: "steps step other m s l s' \<Longrightarrow> inv s \<Longrightarrow> inv s'"
  by (induction rule: steps.induct) (auto dest: step_inv other_inv)

lemma bounded: "steps step other m s l s' \<Longrightarrow> inv s \<Longrightarrow> m + left s' \<le> left s"
proof (induction rule: steps.induct)
  case (more s k s1 m l s')
  with closer [of s k s1] step_inv [of s k s1] show ?case by fastforce
next
  case (beside s k s1 m l s')
  with no_further [of s k s1] other_inv [of s k s1] show ?case by fastforce
qed simp

lemma never_stuck:
  "steps step other m s l s' \<Longrightarrow> inv s \<Longrightarrow> \<not> done_with s' \<Longrightarrow> \<exists>k s2. step s' k s2"
  using steps_inv can_step by blast

lemma finishes: "inv s \<Longrightarrow> \<exists>m l s'. steps step other m s l s' \<and> done_with s' \<and> inv s'"
proof (induction "left s" arbitrary: s rule: less_induct)
  case less
  show ?case
  proof (cases "done_with s")
    case True
    with less.prems show ?thesis by (blast intro: steps.idle)
  next
    case False
    with can_step less.prems obtain k s1 where s1: "step s k s1" by blast
    from closer [OF this less.prems] step_inv [OF this less.prems] less.hyps
    obtain m l s' where "steps step other m s1 l s'" "done_with s'" "inv s'" by blast
    with s1 show ?thesis by (blast intro: steps.more)
  qed
qed

end

end
