(* ===== verification/Pool.thy ===== *)
theory Pool
  imports Work_Queue Threads "HOL-Library.Sublist"
begin

text \<open>
  \<^verbatim>\<open>include/coasio/detail/blocking/pool.hpp\<close>: the threads that run blocking functions. The
  operations under \<^verbatim>\<open>mtx_\<close> are functions on the record of the pool; the worker threads, the
  condition variable they sleep on and the destructor are an \<^theory_text>\<open>inductive\<close> step relation,
  whose invariants give that no work is left while all workers sleep, that every accepted
  item is executed or cancelled exactly once and in order, and that the destructor returns.
  Wake-ups of the condition variable that nobody asked for may happen but are never counted
  on, so that the results depend on the notifications.
\<close>

section \<open>Operations under the lock\<close>

record 'i pool =
  p_queue :: "'i list"
  p_stop :: bool

definition pool_enqueue :: "'i \<Rightarrow> 'i pool \<Rightarrow> bool \<times> 'i pool" where
  "pool_enqueue x p =
     (if p_stop p then (False, p) else (True, p\<lparr>p_queue := p_queue p @ [x]\<rparr>))"

text \<open>\<^verbatim>\<open>std::ranges::find\<close> and \<^verbatim>\<open>erase\<close>: the first occurrence goes.\<close>

definition pool_try_cancel :: "'i \<Rightarrow> 'i pool \<Rightarrow> bool \<times> 'i pool" where
  "pool_try_cancel x p =
     (if x \<notin> set (p_queue p) then (False, p) else (True, p\<lparr>p_queue := remove1 x (p_queue p)\<rparr>))"

text \<open>
  One turn of \<^verbatim>\<open>worker_loop\<close> while it holds the lock: sleep on the condition variable, go
  round again, leave the loop, or take an item to execute.
\<close>

datatype 'i turn = Wait | Again | Leave | Take 'i

definition worker_turn :: "'i pool \<Rightarrow> 'i turn \<times> 'i pool" where
  "worker_turn p =
     (if p_queue p = [] \<and> \<not> p_stop p then (Wait, p)
      else case p_queue p of
          [] \<Rightarrow> (if p_stop p then Leave else Again, p)
        | x # xs \<Rightarrow> (Take x, p\<lparr>p_queue := xs\<rparr>))"

section \<open>The queue as its clients see it\<close>

definition take_item :: "'i pool \<Rightarrow> 'i option \<times> 'i pool" where
  "take_item p = (case worker_turn p of (Take x, p') \<Rightarrow> (Some x, p') | (_, p') \<Rightarrow> (None, p'))"

interpretation blocking_queue: work_queue pool_enqueue take_item p_queue pool_try_cancel
proof unfold_locales
  show "p_queue p = (case fst (take_item p) of None \<Rightarrow> [] | Some x \<Rightarrow> [x]) @ p_queue (snd (take_item p))"
    for p :: "'i pool"
    by (cases "p_queue p") (simp_all add: take_item_def worker_turn_def)
qed (simp_all add: pool_enqueue_def pool_try_cancel_def remove1_idem)

section \<open>Threads\<close>

text \<open>
  A worker is about to take the lock, asleep, executing an item, or has left its loop. The
  destructor sets the flag, notifies everybody, and joins.
\<close>

datatype 'i thread = Ready | Asleep | Running 'i | Exited

datatype phase = Alive | Stopping | Joining

datatype 'i pool_log = Accepted 'i | Refused 'i | Withdrawn 'i | Started 'i | Finished 'i

record 'i pool_sys =
  ps_pool :: "'i pool"
  ps_threads :: "'i thread list"
  ps_phase :: phase

definition new_pool :: "nat \<Rightarrow> 'i pool_sys" where
  "new_pool n = \<lparr>ps_pool = \<lparr>p_queue = [], p_stop = False\<rparr>, ps_threads = replicate n Ready,
     ps_phase = Alive\<rparr>"

text \<open>
  Steps of the workers; the list is what they add to the log. A thread that sleeps has no step
  of its own: it goes on when it is notified.
\<close>

inductive worker_step :: "'i pool_sys \<Rightarrow> 'i pool_log list \<Rightarrow> 'i pool_sys \<Rightarrow> bool" where
  sleep: "\<lbrakk>i < length (ps_threads s); ps_threads s ! i = Ready; worker_turn (ps_pool s) = (Wait, p)\<rbrakk> \<Longrightarrow>
    worker_step s [] (s\<lparr>ps_pool := p, ps_threads := (ps_threads s)[i := Asleep]\<rparr>)"
| again: "\<lbrakk>i < length (ps_threads s); ps_threads s ! i = Ready; worker_turn (ps_pool s) = (Again, p)\<rbrakk> \<Longrightarrow>
    worker_step s [] (s\<lparr>ps_pool := p\<rparr>)"
| leave: "\<lbrakk>i < length (ps_threads s); ps_threads s ! i = Ready; worker_turn (ps_pool s) = (Leave, p)\<rbrakk> \<Longrightarrow>
    worker_step s [] (s\<lparr>ps_pool := p, ps_threads := (ps_threads s)[i := Exited]\<rparr>)"
| take: "\<lbrakk>i < length (ps_threads s); ps_threads s ! i = Ready; worker_turn (ps_pool s) = (Take x, p)\<rbrakk> \<Longrightarrow>
    worker_step s [Started x] (s\<lparr>ps_pool := p, ps_threads := (ps_threads s)[i := Running x]\<rparr>)"
| finish: "\<lbrakk>i < length (ps_threads s); ps_threads s ! i = Running x\<rbrakk> \<Longrightarrow>
    worker_step s [Finished x] (s\<lparr>ps_threads := (ps_threads s)[i := Ready]\<rparr>)"

text \<open>Steps of the clients.\<close>

inductive client_step :: "'i pool_sys \<Rightarrow> 'i pool_log list \<Rightarrow> 'i pool_sys \<Rightarrow> bool" where
  accept: "\<lbrakk>pool_enqueue x (ps_pool s) = (True, p); notify_one Asleep Ready (ps_threads s) ts\<rbrakk> \<Longrightarrow>
    client_step s [Accepted x] (s\<lparr>ps_pool := p, ps_threads := ts\<rparr>)"
| refuse: "pool_enqueue x (ps_pool s) = (False, p) \<Longrightarrow>
    client_step s [Refused x] (s\<lparr>ps_pool := p\<rparr>)"
| withdraw: "pool_try_cancel x (ps_pool s) = (True, p) \<Longrightarrow>
    client_step s [Withdrawn x] (s\<lparr>ps_pool := p\<rparr>)"
| too_late: "pool_try_cancel x (ps_pool s) = (False, p) \<Longrightarrow>
    client_step s [] (s\<lparr>ps_pool := p\<rparr>)"

text \<open>Steps of the destructor, which then joins the threads.\<close>

inductive destructor_step :: "'i pool_sys \<Rightarrow> 'i pool_log list \<Rightarrow> 'i pool_sys \<Rightarrow> bool" where
  stop: "ps_phase s = Alive \<Longrightarrow>
    destructor_step s [] (s\<lparr>ps_pool := (ps_pool s)\<lparr>p_stop := True\<rparr>, ps_phase := Stopping\<rparr>)"
| notify: "ps_phase s = Stopping \<Longrightarrow>
    destructor_step s [] (s\<lparr>ps_threads := notify_all Asleep Ready (ps_threads s), ps_phase := Joining\<rparr>)"

text \<open>The condition variable may wake a thread for no reason.\<close>

definition spurious_wake :: "'i pool_sys \<Rightarrow> 'i pool_sys \<Rightarrow> bool" where
  "spurious_wake s s' \<longleftrightarrow> (\<exists>i < length (ps_threads s). ps_threads s ! i = Asleep \<and>
     s' = s\<lparr>ps_threads := (ps_threads s)[i := Ready]\<rparr>)"

inductive pool_run :: "'i pool_sys \<Rightarrow> 'i pool_log list \<Rightarrow> 'i pool_sys \<Rightarrow> bool" for s0 where
  start: "pool_run s0 [] s0"
| work: "pool_run s0 l s \<Longrightarrow> worker_step s k s' \<Longrightarrow> pool_run s0 (l @ k) s'"
| client: "pool_run s0 l s \<Longrightarrow> client_step s k s' \<Longrightarrow> pool_run s0 (l @ k) s'"
| destroy: "pool_run s0 l s \<Longrightarrow> destructor_step s k s' \<Longrightarrow> pool_run s0 (l @ k) s'"
| wake: "pool_run s0 l s \<Longrightarrow> spurious_wake s s' \<Longrightarrow> pool_run s0 l s'"

inductive_cases worker_stepE: "worker_step s k s'"
inductive_cases client_stepE: "client_step s k s'"
inductive_cases destructor_stepE: "destructor_step s k s'"

lemma worker_turn_cases:
  "worker_turn p = (t, p') \<longleftrightarrow>
     (p_queue p = [] \<and> \<not> p_stop p \<and> t = Wait \<and> p' = p) \<or>
     (p_queue p = [] \<and> p_stop p \<and> t = Leave \<and> p' = p) \<or>
     (\<exists>x xs. p_queue p = x # xs \<and> t = Take x \<and> p' = p\<lparr>p_queue := xs\<rparr>)"
  by (auto simp: worker_turn_def split: list.splits)

lemma pool_enqueue_cases:
  "pool_enqueue x p = (b, p') \<longleftrightarrow> b = (\<not> p_stop p) \<and>
     p' = (if p_stop p then p else p\<lparr>p_queue := p_queue p @ [x]\<rparr>)"
  by (auto simp: pool_enqueue_def)

lemma pool_try_cancel_cases:
  "pool_try_cancel x p = (b, p') \<longleftrightarrow> b = (x \<in> set (p_queue p)) \<and>
     p' = (if x \<in> set (p_queue p) then p\<lparr>p_queue := remove1 x (p_queue p)\<rparr> else p)"
  by (auto simp: pool_try_cancel_def)

lemmas pool_cases = worker_turn_cases pool_enqueue_cases pool_try_cancel_cases

section \<open>Invariants\<close>

text \<open>
  A thread is busy when it is going to look at the queue again without being woken.
\<close>

definition busy :: "'i thread \<Rightarrow> bool" where
  "busy t \<longleftrightarrow> t = Ready \<or> (\<exists>x. t = Running x)"

lemma busy_simps [simp]: "busy Ready" "busy (Running x)" "\<not> busy Asleep" "\<not> busy Exited"
  by (simp_all add: busy_def)

definition pool_inv :: "'i pool_sys \<Rightarrow> bool" where
  "pool_inv s \<longleftrightarrow>
     (p_queue (ps_pool s) \<noteq> [] \<longrightarrow> ps_threads s = [] \<or> (\<exists>t \<in> set (ps_threads s). busy t)) \<and>
     (Exited \<in> set (ps_threads s) \<longrightarrow> p_stop (ps_pool s) \<and> p_queue (ps_pool s) = []) \<and>
     (p_stop (ps_pool s) \<longleftrightarrow> ps_phase s \<noteq> Alive) \<and>
     (ps_phase s = Joining \<longrightarrow> Asleep \<notin> set (ps_threads s))"

lemma busyI: "t \<noteq> Asleep \<Longrightarrow> t \<noteq> Exited \<Longrightarrow> busy t"
  by (cases t) auto

lemma worker_step_inv:
  "worker_step s k s' \<Longrightarrow> pool_inv s \<Longrightarrow> pool_inv s'"
proof (induction rule: worker_step.induct)
  case (take i s x p)
  then show ?case
    using update_sat [of i "ps_threads s" busy "Running x"]
    by (auto simp: pool_inv_def worker_turn_cases dest!: set_update_sub)
next
  case (finish i s x)
  then show ?case
    using update_sat [of i "ps_threads s" busy Ready] by (auto simp: pool_inv_def dest!: set_update_sub)
qed (auto simp: pool_inv_def worker_turn_cases dest!: set_update_sub)

lemma client_step_inv:
  "client_step s k s' \<Longrightarrow> pool_inv s \<Longrightarrow> pool_inv s'"
proof (induction rule: client_step.induct)
  case (accept x s p ts)
  then have "\<not> p_stop (ps_pool s)" "Exited \<notin> set (ps_threads s)"
    by (auto simp: pool_inv_def pool_enqueue_cases)
  with accept notify_one_awake [OF accept(2), of busy Exited] show ?case
    by (auto simp: pool_inv_def pool_enqueue_cases intro: busyI)
next
  case (withdraw x s p)
  then show ?case
    by (cases "p_queue (ps_pool s)") (auto simp: pool_inv_def pool_try_cancel_cases)
qed (auto simp: pool_inv_def pool_enqueue_cases pool_try_cancel_cases)

lemma destructor_step_inv:
  "destructor_step s k s' \<Longrightarrow> pool_inv s \<Longrightarrow> pool_inv s'"
proof (induction rule: destructor_step.induct)
  case (notify s)
  have "busy t \<Longrightarrow> t \<noteq> Asleep" for t :: "'a thread" by auto
  with notify show ?case
    by (auto simp: pool_inv_def notify_all_def image_iff split: if_splits)
qed (auto simp: pool_inv_def)

lemma spurious_wake_inv: "spurious_wake s s' \<Longrightarrow> pool_inv s \<Longrightarrow> pool_inv s'"
  using update_sat [of _ "ps_threads s" busy Ready]
  by (auto simp: pool_inv_def spurious_wake_def dest!: set_update_sub)

lemma new_pool_inv: "pool_inv (new_pool n)"
  by (auto simp: pool_inv_def new_pool_def)

lemma pool_run_inv: "pool_run (new_pool n) l s \<Longrightarrow> pool_inv s"
  by (induction rule: pool_run.induct)
    (auto intro: new_pool_inv worker_step_inv client_step_inv destructor_step_inv spurious_wake_inv)

lemma worker_step_length: "worker_step s k s' \<Longrightarrow> length (ps_threads s') = length (ps_threads s)"
  by (induction rule: worker_step.induct) auto

lemma client_step_length: "client_step s k s' \<Longrightarrow> length (ps_threads s') = length (ps_threads s)"
  by (induction rule: client_step.induct) auto

lemma destructor_step_length:
  "destructor_step s k s' \<Longrightarrow> length (ps_threads s') = length (ps_threads s)"
  by (induction rule: destructor_step.induct) auto

lemma pool_run_length: "pool_run (new_pool n) l s \<Longrightarrow> length (ps_threads s) = n"
  by (induction rule: pool_run.induct)
    (auto simp: new_pool_def worker_step_length client_step_length destructor_step_length spurious_wake_def)

section \<open>The books of the pool\<close>

definition running :: "'i \<Rightarrow> 'i thread list \<Rightarrow> nat" where
  "running x ts = count_list ts (Running x)"

definition accepts :: "'i pool_log list \<Rightarrow> 'i list" where
  "accepts l = concat (map (\<lambda>e. case e of Accepted x \<Rightarrow> [x] | _ \<Rightarrow> []) l)"

definition starts :: "'i pool_log list \<Rightarrow> 'i list" where
  "starts l = concat (map (\<lambda>e. case e of Started x \<Rightarrow> [x] | _ \<Rightarrow> []) l)"

lemma accepts_starts_simps [simp]:
  "accepts [] = []" "accepts (a @ b) = accepts a @ accepts b" "accepts [Accepted x] = [x]"
  "accepts [Refused x] = []" "accepts [Withdrawn x] = []" "accepts [Started x] = []"
  "accepts [Finished x] = []"
  "starts [] = []" "starts (a @ b) = starts a @ starts b" "starts [Accepted x] = []"
  "starts [Refused x] = []" "starts [Withdrawn x] = []" "starts [Started x] = [x]"
  "starts [Finished x] = []"
  by (simp_all add: accepts_def starts_def)

definition books :: "'i pool_log list \<Rightarrow> 'i pool_sys \<Rightarrow> bool" where
  "books l s \<longleftrightarrow>
     (\<forall>x. count_list l (Accepted x) =
        count_list l (Withdrawn x) + count_list l (Started x) + count_list (p_queue (ps_pool s)) x) \<and>
     (\<forall>x. count_list l (Started x) = count_list l (Finished x) + running x (ps_threads s)) \<and>
     subseq (starts l @ p_queue (ps_pool s)) (accepts l)"

lemma running_update:
  "i < length ts \<Longrightarrow> running x (ts[i := t]) + of_bool (ts ! i = Running x) = running x ts + of_bool (t = Running x)"
  unfolding running_def by (rule count_list_update)

lemma subseq_remove1: "subseq (remove1 x xs) xs"
  by (induction xs) auto

lemma running_notify:
  "notify_one Asleep Ready ts ts' \<Longrightarrow> running x ts' = running x ts"
  "running x (notify_all Asleep Ready ts) = running x ts"
  by (auto simp: running_def notify_count(2) intro: notify_count(1))

lemma worker_step_books:
  "worker_step s k s' \<Longrightarrow> books l s \<Longrightarrow> books (l @ k) s'"
proof (induction rule: worker_step.induct)
  case (take i s x p)
  then show ?case
    using running_update [of i "ps_threads s" _ "Running x"]
    by (auto simp: books_def worker_turn_cases of_bool_def split: if_splits)
next
  case (finish i s x)
  have "running x (ps_threads s) = Suc (running x ((ps_threads s)[i := Ready]))"
    and "y \<noteq> x \<Longrightarrow> running y ((ps_threads s)[i := Ready]) = running y (ps_threads s)" for y
    using running_update [OF finish(1), of x Ready] running_update [OF finish(1), of y Ready] finish(2) by auto
  with finish show ?case by (auto simp: books_def)
next
  case (sleep i s p)
  with running_update [of i "ps_threads s" _ Asleep] show ?case by (auto simp: books_def worker_turn_cases)
next
  case (leave i s p)
  with running_update [of i "ps_threads s" _ Exited] show ?case by (auto simp: books_def worker_turn_cases)
qed (auto simp: books_def worker_turn_cases)

lemma client_step_books:
  "client_step s k s' \<Longrightarrow> books l s \<Longrightarrow> books (l @ k) s'"
proof (induction rule: client_step.induct)
  case (accept x s p ts)
  then have "subseq ((starts l @ p_queue (ps_pool s)) @ [x]) (accepts l @ [x])"
    by (subst subseq_append) (simp add: books_def)
  with accept running_notify(1) [OF accept(2)] show ?case
    by (auto simp: books_def pool_enqueue_cases)
next
  case (withdraw x s p)
  have "subseq (starts l @ remove1 x (p_queue (ps_pool s))) (accepts l)"
    using withdraw(2) subseq_remove1 [of x "p_queue (ps_pool s)"]
    by (meson books_def list_emb_append_mono subseq_order.order_refl subseq_order.trans)
  moreover have "count_list (p_queue (ps_pool s)) x \<noteq> 0"
    using withdraw(1) by (auto simp: pool_try_cancel_cases count_list_0_iff)
  ultimately show ?case
    using withdraw by (auto simp: books_def pool_try_cancel_cases)
qed (auto simp: books_def pool_enqueue_cases pool_try_cancel_cases running_notify)

lemma destructor_step_books:
  "destructor_step s k s' \<Longrightarrow> books l s \<Longrightarrow> books (l @ k) s'"
  by (induction rule: destructor_step.induct) (auto simp: books_def running_notify)

lemma spurious_wake_books: "spurious_wake s s' \<Longrightarrow> books l s \<Longrightarrow> books l s'"
proof -
  have "running x ((ps_threads s)[i := Ready]) = running x (ps_threads s)"
    if "i < length (ps_threads s)" "ps_threads s ! i = Asleep" for i x
    using running_update [OF that(1), of x Ready] that(2) by simp
  then show "spurious_wake s s' \<Longrightarrow> books l s \<Longrightarrow> books l s'"
    by (auto simp: books_def spurious_wake_def)
qed

lemma running_replicate [simp]: "running x (replicate n Ready) = 0"
  by (induction n) (auto simp: running_def)

lemma pool_run_books: "pool_run (new_pool n) l s \<Longrightarrow> books l s"
proof (induction rule: pool_run.induct)
  case start
  then show ?case by (simp add: books_def new_pool_def)
qed (auto intro: worker_step_books client_step_books destructor_step_books spurious_wake_books)

section \<open>What the pool promises\<close>

text \<open>
  C19. Every item the pool has accepted is in exactly one place: withdrawn by a cancellation, or
  executed (or being executed) by a worker, or still queued; no item is executed more often
  than it was accepted, nothing is executed that was not accepted, and the items are started
  in the order in which they were accepted.
\<close>

theorem pool_executes_each_item_once:
  assumes "pool_run (new_pool n) l s"
  shows "count_list l (Accepted x) = count_list l (Withdrawn x) + count_list l (Started x) +
      count_list (p_queue (ps_pool s)) x \<and>
    count_list l (Started x) = count_list l (Finished x) + running x (ps_threads s) \<and>
    subseq (starts l @ p_queue (ps_pool s)) (accepts l)"
  using pool_run_books [OF assms] by (simp add: books_def)

text \<open>The steps of a small run, for the examples: two workers, an item accepted and started.\<close>

lemma demo_run:
  "pool_run (new_pool 2) [Accepted (7 :: nat), Started (7 :: nat)]
     \<lparr>ps_pool = \<lparr>p_queue = [], p_stop = False\<rparr>, ps_threads = [Running (7 :: nat), Ready], ps_phase = Alive\<rparr>"
proof -
  let ?s = "\<lparr>ps_pool = \<lparr>p_queue = [(7 :: nat)], p_stop = False\<rparr>, ps_threads = [Ready, Ready], ps_phase = Alive\<rparr>"
  have "client_step (new_pool 2) [Accepted (7 :: nat)] ?s"
    using client_step.accept [of "7 :: nat" "new_pool 2" "\<lparr>p_queue = [(7 :: nat)], p_stop = False\<rparr>" "[Ready, Ready]"]
    by (simp add: pool_enqueue_def new_pool_def notify_one_def numeral_2_eq_2)
  with pool_run.start have 1: "pool_run (new_pool 2) ([] @ [Accepted (7 :: nat)]) ?s" by (rule pool_run.client)
  have "worker_step ?s [Started (7 :: nat)]
      \<lparr>ps_pool = \<lparr>p_queue = [], p_stop = False\<rparr>, ps_threads = [Running (7 :: nat), Ready], ps_phase = Alive\<rparr>"
    using worker_step.take [of 0 ?s "7 :: nat" "\<lparr>p_queue = [], p_stop = False\<rparr>"]
    by (simp add: worker_turn_def)
  with pool_run.work [OF 1] show ?thesis by simp
qed

theorem pool_executes_each_item_once_witness:
  "count_list [Accepted (7 :: nat), Started (7 :: nat)] (Accepted (7 :: nat)) = (1 :: nat) \<and>
   count_list [Accepted (7 :: nat), Started (7 :: nat)] (Finished (7 :: nat)) + 1 = (1 :: nat)"
  using pool_executes_each_item_once [OF demo_run, of 7] by (simp add: running_def)

text \<open>
  C21. Work is never left lying while the workers sleep: whenever the queue is not empty and the
  pool has a thread, some thread is awake, and it can take a step towards the queue (finish
  what it executes, or take the first item of the queue).
\<close>

theorem pool_never_stalls:
  assumes "pool_run (new_pool n) l s" and "0 < n" and "p_queue (ps_pool s) = x # xs"
  shows "\<exists>s' k. worker_step s k s' \<and> (k = [Started x] \<and> p_queue (ps_pool s') = xs \<or>
    (\<exists>y. k = [Finished y] \<and> Ready \<in> set (ps_threads s')))"
proof -
  have "ps_threads s \<noteq> []"
    using pool_run_length [OF assms(1)] assms(2) by auto
  then obtain i where i: "i < length (ps_threads s)" "busy (ps_threads s ! i)"
    using pool_run_inv [OF assms(1)] assms(3) by (auto simp: pool_inv_def in_set_conv_nth)
  show ?thesis
  proof (cases "ps_threads s ! i = Ready")
    case True
    have "worker_turn (ps_pool s) = (Take x, (ps_pool s)\<lparr>p_queue := xs\<rparr>)"
      using assms(3) by (simp add: worker_turn_cases)
    from worker_step.take [OF i(1) True this] show ?thesis by fastforce
  next
    case False
    then obtain y where "ps_threads s ! i = Running y" using i(2) by (auto simp: busy_def)
    from worker_step.finish [OF i(1) this] show ?thesis
      using i(1) by (fastforce simp: set_update_memI)
  qed
qed

theorem pool_never_stalls_witness:
  "\<exists>l s s' k. pool_run (new_pool 1) l s \<and> p_queue (ps_pool s) = [(7 :: nat)] \<and> worker_step s k s' \<and>
     (k = [Started (7 :: nat)] \<and> p_queue (ps_pool s') = [] \<or>
      (\<exists>y. k = [Finished y] \<and> Ready \<in> set (ps_threads s')))"
proof -
  let ?p = "\<lparr>p_queue = [(7 :: nat)], p_stop = False\<rparr>"
  have 1: "client_step (new_pool 1) [Accepted (7 :: nat)] ((new_pool 1)\<lparr>ps_pool := ?p, ps_threads := [Ready]\<rparr>)"
    by (rule client_step.accept) (simp_all add: pool_enqueue_def new_pool_def notify_one_def)
  have r: "pool_run (new_pool 1) ([] @ [Accepted (7 :: nat)]) ((new_pool 1)\<lparr>ps_pool := ?p, ps_threads := [Ready]\<rparr>)"
    using pool_run.start 1 by (rule pool_run.client)
  have "p_queue (ps_pool ((new_pool 1)\<lparr>ps_pool := ?p, ps_threads := [Ready]\<rparr>)) = (7 :: nat) # []"
    by simp
  from pool_never_stalls [OF r _ this] r this show ?thesis by (metis less_one)
qed

section \<open>The destructor\<close>

text \<open>
  What goes on once the destructor has set the flag: its own steps and those of the workers, and
  beside them the calls of the clients and wake-ups for no reason. It is through when it has
  notified and all threads have left their loops, so that it has joined them.
\<close>

definition closing_step :: "'i pool_sys \<Rightarrow> 'i pool_log list \<Rightarrow> 'i pool_sys \<Rightarrow> bool" where
  "closing_step s k s' \<longleftrightarrow> worker_step s k s' \<or> destructor_step s k s'"

definition beside_step :: "'i pool_sys \<Rightarrow> 'i pool_log list \<Rightarrow> 'i pool_sys \<Rightarrow> bool" where
  "beside_step s k s' \<longleftrightarrow> client_step s k s' \<or> k = [] \<and> spurious_wake s s'"

definition all_joined :: "'i pool_sys \<Rightarrow> bool" where
  "all_joined s \<longleftrightarrow> ps_phase s = Joining \<and> set (ps_threads s) \<subseteq> {Exited}"

text \<open>Bound on the steps left.\<close>

fun turns_left :: "'i thread \<Rightarrow> nat" where
  "turns_left Ready = 1"
| "turns_left Asleep = 2"
| "turns_left (Running x) = 2"
| "turns_left Exited = 0"

definition join_measure :: "'i pool_sys \<Rightarrow> nat" where
  "join_measure s = 2 * length (p_queue (ps_pool s)) + sum_list (map turns_left (ps_threads s)) +
     of_bool (ps_phase s = Stopping)"

definition closing_inv :: "'i pool_sys \<Rightarrow> bool" where
  "closing_inv s \<longleftrightarrow> pool_inv s \<and> ps_phase s \<noteq> Alive"

lemma closing_inv_stop: "closing_inv s \<Longrightarrow> p_stop (ps_pool s)"
  by (simp add: closing_inv_def pool_inv_def)

lemma worker_step_closer:
  "worker_step s k s' \<Longrightarrow> closing_inv s \<Longrightarrow> ps_phase s' = ps_phase s \<and> join_measure s' < join_measure s"
proof (induction rule: worker_step.induct)
  case (take i s x p)
  with sum_list_update_nat [of i "ps_threads s" turns_left "Running x"] show ?case
    by (auto simp: join_measure_def worker_turn_cases)
next
  case (finish i s x)
  with sum_list_update_nat [of i "ps_threads s" turns_left Ready] show ?case
    by (auto simp: join_measure_def)
next
  case (leave i s p)
  with sum_list_update_nat [of i "ps_threads s" turns_left Exited] show ?case
    by (auto simp: join_measure_def worker_turn_cases)
qed (auto simp: worker_turn_cases dest: closing_inv_stop)

lemma notify_left: "sum_list (map turns_left (notify_all Asleep Ready ts)) \<le> sum_list (map turns_left ts)"
  by (induction ts) (auto simp: notify_all_def)

lemma destructor_step_closer:
  "destructor_step s k s' \<Longrightarrow> closing_inv s \<Longrightarrow> ps_phase s' \<noteq> Alive \<and> join_measure s' < join_measure s"
proof (induction rule: destructor_step.induct)
  case (notify s)
  with notify_left [of "ps_threads s"] show ?case by (simp add: join_measure_def less_Suc_eq_le)
qed (simp add: closing_inv_def)

lemma client_step_no_further:
  "client_step s k s' \<Longrightarrow> closing_inv s \<Longrightarrow> ps_phase s' = ps_phase s \<and> join_measure s' \<le> join_measure s"
  by (induction rule: client_step.induct)
    (auto simp: pool_enqueue_cases pool_try_cancel_cases join_measure_def length_remove1 dest: closing_inv_stop)

lemma spurious_wake_no_further:
  "spurious_wake s s' \<Longrightarrow> ps_phase s' = ps_phase s \<and> join_measure s' \<le> join_measure s"
  using sum_list_update_nat [of _ "ps_threads s" turns_left Ready]
  by (fastforce simp: spurious_wake_def join_measure_def)

lemma closing_can_step:
  assumes "closing_inv s" and "\<not> all_joined s"
  shows "\<exists>k s'. closing_step s k s'"
proof (cases "ps_phase s = Stopping")
  case True
  then show ?thesis unfolding closing_step_def by (blast intro: destructor_step.notify)
next
  case False
  then have j: "ps_phase s = Joining" using assms(1) by (cases "ps_phase s") (auto simp: closing_inv_def)
  then have "Asleep \<notin> set (ps_threads s)" using assms(1) by (simp add: closing_inv_def pool_inv_def)
  with assms(2) j obtain t where "t \<in> set (ps_threads s)" "busy t"
    unfolding all_joined_def by (metis busyI insertI1 subsetI)
  then obtain i where i: "i < length (ps_threads s)" "busy (ps_threads s ! i)"
    by (auto simp: in_set_conv_nth)
  then consider "ps_threads s ! i = Ready" | x where "ps_threads s ! i = Running x"
    by (auto simp: busy_def)
  then have "\<exists>k s'. worker_step s k s'"
  proof cases
    case 1
    obtain t p where "worker_turn (ps_pool s) = (t, p)" by fastforce
    then show ?thesis
      by (cases t) (use i(1) 1 in \<open>blast intro: worker_step.intros\<close>)+
  next
    case 2
    with i(1) show ?thesis by (blast intro: worker_step.finish)
  qed
  then show ?thesis unfolding closing_step_def by blast
qed

interpretation pool_join: joining closing_step beside_step closing_inv all_joined join_measure
proof unfold_locales
  fix s s' :: "'a pool_sys" and k
  assume inv: "closing_inv s"
  show "closing_inv s'" "join_measure s' < join_measure s" if "closing_step s k s'"
    using that inv worker_step_inv destructor_step_inv worker_step_closer destructor_step_closer
    unfolding closing_step_def closing_inv_def by metis+
  show "closing_inv s'" "join_measure s' \<le> join_measure s" if "beside_step s k s'"
    using that inv client_step_inv spurious_wake_inv client_step_no_further spurious_wake_no_further
    unfolding beside_step_def closing_inv_def by metis+
qed (rule closing_can_step)

abbreviation closing_run :: "nat \<Rightarrow> 'i pool_sys \<Rightarrow> 'i pool_log list \<Rightarrow> 'i pool_sys \<Rightarrow> bool" where
  "closing_run \<equiv> steps closing_step beside_step"

lemma closing_run_run:
  "closing_run m s k s' \<Longrightarrow> pool_run s0 l s \<Longrightarrow> pool_run s0 (l @ k) s'"
proof (induction arbitrary: l rule: steps.induct)
  case (more s k s1 m k' s')
  then have "pool_run s0 (l @ k) s1"
    unfolding closing_step_def by (blast intro: pool_run.work pool_run.destroy)
  from more.IH [OF this] show ?case by simp
next
  case (beside s k s1 m k' s')
  then have "pool_run s0 (l @ k) s1"
    unfolding beside_step_def by (auto intro: pool_run.client pool_run.wake)
  from beside.IH [OF this] show ?case by simp
qed simp

lemma join_measure_bound:
  assumes "pool_run (new_pool n) l s"
  shows "join_measure s \<le> 2 * length (p_queue (ps_pool s)) + 2 * n + 1"
proof -
  have "turns_left t \<le> 2" for t :: "'a thread" by (cases t) auto
  then have "sum_list (map turns_left ts) \<le> 2 * length ts" for ts :: "'a thread list"
    by (induction ts) (auto intro: order_trans [OF add_mono])
  from this [of "ps_threads s"] show ?thesis
    using pool_run_length [OF assms] by (simp add: join_measure_def)
qed

text \<open>
  C20. The destructor returns, and drains the queue: take any state in which it has set the flag,
  and any run from there, in which clients call the pool and threads wake up for no reason as
  they like. The destructor and the workers make at most two steps for each queued item, two for
  each thread and one for the notification; and at the end of the run either one of them can go
  on, without any wake-up but the notification's and without any client (an item that is being
  executed returning), or all threads have been joined, and then, if the pool had any, the queue
  is empty and every item that was accepted has been withdrawn or executed to its end.
\<close>

theorem pool_destructor_drains:
  assumes "pool_run (new_pool n) l s" and "ps_phase s \<noteq> Alive" and "closing_run m s k s'"
  shows "m \<le> 2 * length (p_queue (ps_pool s)) + 2 * n + 1 \<and>
    (if all_joined s'
     then 0 < n \<longrightarrow> p_queue (ps_pool s') = [] \<and>
       count_list (l @ k) (Accepted x) = count_list (l @ k) (Withdrawn x) + count_list (l @ k) (Finished x)
     else \<exists>k' s''. closing_step s' k' s'')"
proof -
  have inv: "closing_inv s" using pool_run_inv [OF assms(1)] assms(2) by (simp add: closing_inv_def)
  note r = closing_run_run [OF assms(3,1)]
  have "m \<le> 2 * length (p_queue (ps_pool s)) + 2 * n + 1"
    using pool_join.bounded [OF assms(3) inv] join_measure_bound [OF assms(1)] by linarith
  moreover have "\<exists>k' s''. closing_step s' k' s''" if "\<not> all_joined s'"
    using pool_join.never_stuck [OF assms(3) inv that] .
  moreover have "p_queue (ps_pool s') = [] \<and>
      count_list (l @ k) (Accepted x) = count_list (l @ k) (Withdrawn x) + count_list (l @ k) (Finished x)"
    if "all_joined s'" and "0 < n"
  proof -
    have t: "set (ps_threads s') \<subseteq> {Exited}" and "ps_threads s' \<noteq> []"
      using that pool_run_length [OF r] by (auto simp: all_joined_def)
    then have "Exited \<in> set (ps_threads s')" by (cases "ps_threads s'") auto
    then have "p_queue (ps_pool s') = []" using pool_run_inv [OF r] by (simp add: pool_inv_def)
    moreover have "running x (ps_threads s') = 0" using t by (auto simp: running_def count_list_0_iff)
    ultimately show ?thesis using pool_run_books [OF r] by (simp add: books_def)
  qed
  ultimately show ?thesis by simp
qed

text \<open>
  An example: of two workers one sleeps and one executes an item while the destructor sets the
  flag; it notifies, and both leave.
\<close>

lemma demo_closing:
  obtains s s' where "pool_run (new_pool 2) [Accepted (7 :: nat), Started 7] s" "ps_phase s = Stopping"
    "closing_run 4 s [Finished 7] s'" "all_joined s'" "p_queue (ps_pool s) = []"
proof -
  let ?q = "\<lambda>b. \<lparr>p_queue = [] :: nat list, p_stop = b\<rparr>"
  let ?s = "\<lambda>b ts ph. \<lparr>ps_pool = ?q b, ps_threads = ts, ps_phase = ph\<rparr>"
  have "worker_step (?s False [Running 7, Ready] Alive) [] (?s False [Running 7, Asleep] Alive)"
    using worker_step.sleep [of 1 "?s False [Running 7, Ready] Alive"] by (simp add: worker_turn_def)
  with demo_run have "pool_run (new_pool 2) ([Accepted 7, Started 7] @ []) (?s False [Running 7, Asleep] Alive)"
    by (rule pool_run.work)
  moreover have "destructor_step (?s False [Running 7, Asleep] Alive) [] (?s True [Running 7, Asleep] Stopping)"
    using destructor_step.stop [of "?s False [Running 7, Asleep] Alive"] by simp
  ultimately have "pool_run (new_pool 2) (([Accepted 7, Started 7] @ []) @ []) (?s True [Running 7, Asleep] Stopping)"
    by (rule pool_run.destroy)
  then have r: "pool_run (new_pool 2) [Accepted 7, Started 7] (?s True [Running 7, Asleep] Stopping)" by simp
  have d: "closing_step (?s True [Running 7, Asleep] Stopping) [] (?s True [Running 7, Ready] Joining)"
    using destructor_step.notify [of "?s True [Running 7, Asleep] Stopping"]
    by (simp add: closing_step_def notify_all_def)
  have f: "closing_step (?s True [Running 7, Ready] Joining) [Finished 7] (?s True [Ready, Ready] Joining)"
    using worker_step.finish [of 0 "?s True [Running 7, Ready] Joining" 7] by (simp add: closing_step_def)
  have e: "closing_step (?s True [Ready, Ready] Joining) [] (?s True [Exited, Ready] Joining)"
    using worker_step.leave [of 0 "?s True [Ready, Ready] Joining"] by (simp add: closing_step_def worker_turn_def)
  have g: "closing_step (?s True [Exited, Ready] Joining) [] (?s True [Exited, Exited] Joining)"
    using worker_step.leave [of 1 "?s True [Exited, Ready] Joining"] by (simp add: closing_step_def worker_turn_def)
  note more = steps.more [where step = closing_step and other = beside_step]
  have "closing_run 4 (?s True [Running 7, Asleep] Stopping) [Finished 7] (?s True [Exited, Exited] Joining)"
    using more [OF d more [OF f more [OF e more [OF g steps.idle]]]] by (simp add: numeral_eq_Suc)
  from that [OF r _ this] show thesis by (simp add: all_joined_def)
qed

theorem pool_destructor_drains_witness:
  "\<exists>l s m k s'. pool_run (new_pool 2) l s \<and> ps_phase s = Stopping \<and> count_list l (Accepted (7 :: nat)) = 1 \<and>
     closing_run m s k s' \<and> m \<le> 5 \<and> p_queue (ps_pool s') = [] \<and>
     count_list (l @ k) (Withdrawn (7 :: nat)) + count_list (l @ k) (Finished (7 :: nat)) = 1"
proof -
  obtain s s' where d: "pool_run (new_pool 2) [Accepted (7 :: nat), Started 7] s" "ps_phase s = Stopping"
    "closing_run 4 s [Finished 7] s'" "all_joined s'" "p_queue (ps_pool s) = []"
    by (rule demo_closing)
  have "ps_phase s \<noteq> Alive" using d(2) by simp
  from pool_destructor_drains [OF d(1) this d(3), of 7] d show ?thesis
    by (intro exI [of _ "[Accepted (7 :: nat), Started 7]"] exI [of _ s] exI [of _ 4] exI [of _ "[Finished 7]"] exI [of _ s'])
      simp
qed

end
