(* ===== verification/Spawn_Blocking.thy ===== *)
theory Spawn_Blocking
  imports Pool Await_Cancel Wake_Once Root_Outcome "HOL-Library.Multiset"
begin

text \<open>
  \<^verbatim>\<open>include/coasio/detail/blocking/spawn_blocking.hpp\<close>: running a function on the pool and
  awaiting its result. The control block is shared by the pool, the awaiter and the callback
  of the awaiter's guard, so blocks live in a store and are named by their address. What the
  user's function does when it is called (the value it returns, or the exception it throws) is
  the field \<open>cb_fn\<close>.
\<close>

section \<open>Control blocks\<close>

record ('e, 'v) control_block =
  cb_fn :: "('e, 'v) ran"
  cb_rt :: runtime_ptr
  cb_h :: handle
  cb_cancelled :: bool
  cb_outcome :: "('e, 'v) root_outcome"

definition make_block :: "('e, 'v) ran \<Rightarrow> runtime_ptr \<Rightarrow> handle \<Rightarrow> ('e, 'v) control_block" where
  "make_block f rt h = \<lparr>cb_fn = f, cb_rt = rt, cb_h = h, cb_cancelled = False, cb_outcome = empty_outcome\<rparr>"

definition block_wake :: "('e, 'v) control_block \<Rightarrow> wake" where
  "block_wake b = (cb_rt b, cb_h b)"

definition execute :: "('e, 'v) control_block \<Rightarrow> ('e, 'v) control_block \<times> wake list" where
  "execute b = (b\<lparr>cb_outcome := store_outcome (cb_fn b) (cb_outcome b)\<rparr>, [block_wake b])"

definition mark_cancelled_and_schedule :: "('e, 'v) control_block \<Rightarrow> ('e, 'v) control_block \<times> wake list" where
  "mark_cancelled_and_schedule b = (b\<lparr>cb_cancelled := True\<rparr>, [block_wake b])"

section \<open>The awaiter\<close>

record ('e, 'v) blocking =
  bl_pool :: "nat pool"
  bl_blocks :: "nat \<Rightarrow> ('e, 'v) control_block"

record ('e, 'v) blocking_awaiter =
  ba_fn :: "('e, 'v) ran"
  ba_scope :: scope_ptr
  ba_guard :: nat
  ba_cb :: "nat option"

definition blocking_awaiter_new :: "('e, 'v) ran \<Rightarrow> nat \<Rightarrow> ('e, 'v) blocking_awaiter" where
  "blocking_awaiter_new f g = \<lparr>ba_fn = f, ba_scope = None, ba_guard = g, ba_cb = None\<rparr>"

definition on_block ::
  "(('e, 'v) control_block \<Rightarrow> ('e, 'v) control_block \<times> wake list) \<Rightarrow> nat \<Rightarrow>
   ('e, 'v) blocking \<Rightarrow> ('e, 'v) blocking \<times> wake list" where
  "on_block f c st =
     (case f (bl_blocks st c) of (b, k) \<Rightarrow> (st\<lparr>bl_blocks := (bl_blocks st)(c := b)\<rparr>, k))"

text \<open>\<^verbatim>\<open>if (pool->try_cancel(cb)) cb->mark_cancelled_and_schedule();\<close>\<close>

definition withdraw_block :: "nat \<Rightarrow> ('e, 'v) blocking \<Rightarrow> ('e, 'v) blocking \<times> wake list" where
  "withdraw_block c st =
     (case pool_try_cancel c (bl_pool st) of
        (True, p) \<Rightarrow> on_block mark_cancelled_and_schedule c (st\<lparr>bl_pool := p\<rparr>)
      | (False, p) \<Rightarrow> (st\<lparr>bl_pool := p\<rparr>, []))"

datatype blocking_cb = Withdraw_block nat

fun run_blocking_cb ::
  "blocking_cb \<Rightarrow> ('e, 'v) blocking \<times> wake list \<Rightarrow> ('e, 'v) blocking \<times> wake list" where
  "run_blocking_cb (Withdraw_block c) (st, k) = (case withdraw_block c st of (st', k') \<Rightarrow> (st', k @ k'))"

definition blocking_set_cancel_scope ::
  "scope_ptr \<Rightarrow> ('e, 'v) blocking_awaiter \<Rightarrow> blocking_cb cancel_world \<Rightarrow>
   (('e, 'v) blocking_awaiter \<times> blocking_cb cancel_world) option" where
  "blocking_set_cancel_scope s aw cw =
     map_option (\<lambda>cw'. (aw\<lparr>ba_scope := s\<rparr>, cw')) (bind (ba_guard aw) s cw)"

definition blocking_ready :: "('e, 'v) blocking_awaiter \<Rightarrow> blocking_cb cancel_world \<Rightarrow> bool" where
  "blocking_ready aw cw = (case ba_scope aw of None \<Rightarrow> False | Some s \<Rightarrow> cancelled s cw)"

text \<open>
  \<^verbatim>\<open>await_suspend\<close>, in the parts between which other threads may act: make the block (at the
  address \<open>c\<close>) and arm the guard; hand the block to the pool; remember it; look at the scope
  again.
\<close>

definition blocking_arm ::
  "nat \<Rightarrow> runtime_ptr \<Rightarrow> handle \<Rightarrow> ('e, 'v) blocking_awaiter \<Rightarrow> ('e, 'v) blocking \<Rightarrow>
   blocking_cb cancel_world \<Rightarrow> (arm_result \<times> ('e, 'v) blocking \<times> blocking_cb cancel_world) option" where
  "blocking_arm c rt h aw st cw =
     map_option (\<lambda>(r, cw'). (r, st\<lparr>bl_blocks := (bl_blocks st)(c := make_block (ba_fn aw) rt h)\<rparr>, cw'))
       (arm (ba_guard aw) (Withdraw_block c) cw)"

definition blocking_submit :: "nat \<Rightarrow> ('e, 'v) blocking \<Rightarrow> bool \<times> ('e, 'v) blocking" where
  "blocking_submit c st = (case pool_enqueue c (bl_pool st) of (b, p) \<Rightarrow> (b, st\<lparr>bl_pool := p\<rparr>))"

definition blocking_store :: "nat \<Rightarrow> ('e, 'v) blocking_awaiter \<Rightarrow> ('e, 'v) blocking_awaiter" where
  "blocking_store c aw = aw\<lparr>ba_cb := Some c\<rparr>"

definition blocking_recheck ::
  "nat \<Rightarrow> ('e, 'v) blocking_awaiter \<Rightarrow> ('e, 'v) blocking \<Rightarrow> blocking_cb cancel_world \<Rightarrow>
   ('e, 'v) blocking \<times> wake list" where
  "blocking_recheck c aw st cw =
     (if already_cancelled (ba_scope aw) cw then withdraw_block c st else (st, []))"

text \<open>
  The parts one after the other, when no worker and no cancellation acts between them; how they
  interleave with workers and cancellations is the subject of \<open>Blocking_Await\<close>.
\<close>

definition blocking_suspend ::
  "nat \<Rightarrow> runtime_ptr \<Rightarrow> handle \<Rightarrow> ('e, 'v) blocking_awaiter \<Rightarrow> ('e, 'v) blocking \<Rightarrow>
   blocking_cb cancel_world \<Rightarrow>
   (bool \<times> ('e, 'v) blocking_awaiter \<times> ('e, 'v) blocking \<times> blocking_cb cancel_world \<times> wake list) option" where
  "blocking_suspend c rt h aw st cw =
     (case blocking_arm c rt h aw st cw of
        None \<Rightarrow> None
      | Some (Arm_already_cancelled, st1, cw1) \<Rightarrow> Some (False, aw, st1, cw1, [])
      | Some (Arm_armed, st1, cw1) \<Rightarrow>
          (case blocking_submit c st1 of
             (False, st2) \<Rightarrow> Some (False, aw, st2, cw1, [])
           | (True, st2) \<Rightarrow>
               let aw' = blocking_store c aw
               in (case blocking_recheck c aw' st2 cw1 of (st3, k) \<Rightarrow> Some (True, aw', st3, cw1, k))))"

definition blocking_result ::
  "('e, 'v) blocking_awaiter \<Rightarrow> ('e, 'v) blocking \<Rightarrow> ('e, error_code + 'v) ran option" where
  "blocking_result aw st =
     (case ba_cb aw of
        None \<Rightarrow> Some (Gave (Inl err_cancelled))
      | Some c \<Rightarrow>
          if cb_cancelled (bl_blocks st c) then Some (Gave (Inl err_cancelled))
          else map_option expected_of (read_outcome (cb_outcome (bl_blocks st c))))"

definition blocking_resume ::
  "('e, 'v) blocking_awaiter \<Rightarrow> ('e, 'v) blocking \<Rightarrow> blocking_cb cancel_world \<Rightarrow>
   (('e, error_code + 'v) ran \<times> blocking_cb cancel_world) option" where
  "blocking_resume aw st cw =
     map_option (\<lambda>r. (r, snd (disarm (ba_guard aw) cw))) (blocking_result aw st)"

section \<open>Histories of the blocking functions of a runtime\<close>

text \<open>
  What can happen: a coroutine hands a block to the pool, a callback (or the last part of
  \<^verbatim>\<open>await_suspend\<close>) withdraws one, a worker takes the first block, and a worker that has taken
  a block executes it. \<open>hi_taken\<close> holds the blocks between the last two.
\<close>

record ('e, 'v) history =
  hi_blocking :: "('e, 'v) blocking"
  hi_taken :: "nat list"

datatype ('e, 'v) blocking_op =
    B_submit nat runtime_ptr handle "('e, 'v) ran"
  | B_withdraw nat
  | B_take
  | B_execute nat

fun blocking_step ::
  "('e, 'v) blocking_op \<Rightarrow> ('e, 'v) history \<Rightarrow> ('e, 'v) history \<times> wake list" where
  "blocking_step (B_submit c rt h f) hi =
     (let st = hi_blocking hi;
          st1 = st\<lparr>bl_blocks := (bl_blocks st)(c := make_block f rt h)\<rparr>
      in (hi\<lparr>hi_blocking := snd (blocking_submit c st1)\<rparr>, []))"
| "blocking_step (B_withdraw c) hi =
     (case withdraw_block c (hi_blocking hi) of (st, k) \<Rightarrow> (hi\<lparr>hi_blocking := st\<rparr>, k))"
| "blocking_step B_take hi =
     (case take_item (bl_pool (hi_blocking hi)) of
        (Some c, p) \<Rightarrow> (hi\<lparr>hi_blocking := (hi_blocking hi)\<lparr>bl_pool := p\<rparr>, hi_taken := c # hi_taken hi\<rparr>, [])
      | (None, p) \<Rightarrow> (hi\<lparr>hi_blocking := (hi_blocking hi)\<lparr>bl_pool := p\<rparr>\<rparr>, []))"
| "blocking_step (B_execute c) hi =
     (case on_block execute c (hi_blocking hi) of
        (st, k) \<Rightarrow> (hi\<lparr>hi_blocking := st, hi_taken := remove1 c (hi_taken hi)\<rparr>, k))"

definition pending :: "('e, 'v) history \<Rightarrow> nat list" where
  "pending hi = p_queue (bl_pool (hi_blocking hi)) @ hi_taken hi"

definition wake_at :: "('e, 'v) history \<Rightarrow> nat \<Rightarrow> wake" where
  "wake_at hi c = block_wake (bl_blocks (hi_blocking hi) c)"

definition blocking_inv :: "('e, 'v) history \<Rightarrow> bool" where
  "blocking_inv hi \<longleftrightarrow> distinct (map (wake_at hi) (pending hi))"

definition blocking_waiting :: "('e, 'v) history \<Rightarrow> wake \<Rightarrow> bool" where
  "blocking_waiting hi k \<longleftrightarrow> k \<in> wake_at hi ` set (pending hi)"

fun blocking_ok :: "('e, 'v) blocking_op \<Rightarrow> ('e, 'v) history \<Rightarrow> bool" where
  "blocking_ok (B_submit c rt h f) hi \<longleftrightarrow> c \<notin> set (pending hi) \<and> \<not> blocking_waiting hi (rt, h)"
| "blocking_ok (B_execute c) hi \<longleftrightarrow> c \<in> set (hi_taken hi)"
| "blocking_ok _ hi \<longleftrightarrow> True"

fun blocking_enrols :: "('e, 'v) blocking_op \<Rightarrow> ('e, 'v) history \<Rightarrow> wake \<Rightarrow> bool" where
  "blocking_enrols (B_submit c rt h f) hi k \<longleftrightarrow>
     k = (rt, h) \<and> fst (pool_enqueue c (bl_pool (hi_blocking hi)))"
| "blocking_enrols _ hi k \<longleftrightarrow> False"

lemma block_frames [simp]:
  "block_wake (fst (execute b)) = block_wake b" "snd (execute b) = [block_wake b]"
  "block_wake (fst (mark_cancelled_and_schedule b)) = block_wake b"
  "snd (mark_cancelled_and_schedule b) = [block_wake b]"
  by (simp_all add: execute_def mark_cancelled_and_schedule_def block_wake_def)

lemma on_block_simps [simp]:
  "bl_pool (fst (on_block f c st)) = bl_pool st"
  "bl_blocks (fst (on_block f c st)) = (bl_blocks st)(c := fst (f (bl_blocks st c)))"
  "snd (on_block f c st) = snd (f (bl_blocks st c))"
  by (simp_all add: on_block_def case_prod_beta)

lemma withdraw_block_simps:
  "bl_pool (fst (withdraw_block c st)) = snd (pool_try_cancel c (bl_pool st))"
  "snd (withdraw_block c st) =
     (if fst (pool_try_cancel c (bl_pool st)) then [block_wake (bl_blocks st c)] else [])"
  "bl_blocks (fst (withdraw_block c st)) =
     (if fst (pool_try_cancel c (bl_pool st))
      then (bl_blocks st)(c := (bl_blocks st c)\<lparr>cb_cancelled := True\<rparr>) else bl_blocks st)"
  by (auto simp: withdraw_block_def mark_cancelled_and_schedule_def split: prod.splits bool.splits)

text \<open>Removing one waiting block from the books.\<close>

lemma image_remove:
  assumes "distinct (map f xs)" and "c \<in> set xs" and "set ys = set xs - {c}"
  shows "of_bool (f c = k) + of_bool (k \<in> f ` set ys) = (of_bool (k \<in> f ` set xs) :: nat)"
proof -
  have "inj_on f (set xs)" using assms(1) by (simp add: distinct_map)
  then have "f ` set ys = f ` set xs - {f c}"
    using assms(2,3) by (auto simp: inj_on_def)
  with assms(2) show ?thesis by auto
qed

lemma distinct_map_remove1: "distinct (map f xs) \<Longrightarrow> distinct (map f (remove1 c xs))"
  using set_remove1_subset [of c xs] by (auto simp: distinct_map intro: inj_on_subset)

lemma remove1_append_iff: "c \<notin> set xs \<Longrightarrow> remove1 c (xs @ ys) = xs @ remove1 c ys"
  by (simp add: remove1_append)

text \<open>
  One step takes at most one block out of the books and wakes its coroutine, or leaves them as
  they are, or adds one.
\<close>

lemma books_shrink:
  assumes "blocking_inv hi" and "c \<in> set (pending hi)" and "pending hi' = remove1 c (pending hi)"
    and "wake_at hi' = wake_at hi"
  shows "of_bool (wake_at hi c = k) + of_bool (blocking_waiting hi' k) = (of_bool (blocking_waiting hi k) :: nat)
    \<and> blocking_inv hi'"
proof -
  have d: "distinct (map (wake_at hi) (pending hi))" using assms(1) by (simp add: blocking_inv_def)
  then have "set (pending hi') = set (pending hi) - {c}"
    using assms(3) by (simp add: distinct_map)
  from image_remove [OF d assms(2) this] distinct_map_remove1 [OF d, of c] assms(3,4) show ?thesis
    by (simp add: blocking_waiting_def blocking_inv_def)
qed

lemma books_same:
  assumes "mset (pending hi') = mset (pending hi)" and "\<forall>c \<in> set (pending hi). wake_at hi' c = wake_at hi c"
  shows "blocking_waiting hi' k = blocking_waiting hi k \<and> (blocking_inv hi \<longrightarrow> blocking_inv hi')"
proof -
  have s: "set (pending hi') = set (pending hi)" using assms(1) by (metis set_mset_mset)
  moreover have "distinct (pending hi') = distinct (pending hi)"
    using assms(1) by (metis distinct_count_atmost_1 s)
  moreover have "inj_on (wake_at hi') (set (pending hi)) = inj_on (wake_at hi) (set (pending hi))"
    using assms(2) by (intro inj_on_cong) auto
  ultimately show ?thesis
    using assms(2) by (auto simp: blocking_waiting_def blocking_inv_def distinct_map image_iff)
qed

lemma wake_at_withdraw [simp]:
  "wake_at (hi\<lparr>hi_blocking := fst (withdraw_block c (hi_blocking hi))\<rparr>) = wake_at hi"
  by (auto simp: wake_at_def withdraw_block_simps block_wake_def fun_eq_iff)

definition blocking_balanced :: "('e, 'v) blocking_op \<Rightarrow> ('e, 'v) history \<Rightarrow> wake \<Rightarrow> bool" where
  "blocking_balanced e hi k \<longleftrightarrow>
     count_list (snd (blocking_step e hi)) k + of_bool (blocking_waiting (fst (blocking_step e hi)) k) +
       of_bool False = of_bool (blocking_waiting hi k) + (of_bool (blocking_enrols e hi k) :: nat) \<and>
     blocking_inv (fst (blocking_step e hi))"

lemma submit_balanced:
  assumes inv: "blocking_inv hi" and ok: "blocking_ok (B_submit c rt h f) hi"
  shows "blocking_balanced (B_submit c rt h f) hi k"
proof -
  let ?hi = "fst (blocking_step (B_submit c rt h f) hi)"
  have w: "\<forall>d \<in> set (pending hi). wake_at ?hi d = wake_at hi d" "wake_at ?hi c = (rt, h)"
    using ok by (auto simp: wake_at_def blocking_submit_def make_block_def block_wake_def Let_def
        case_prod_beta)
  note content = blocking_queue.submit_content [of c "bl_pool (hi_blocking hi)"]
  show ?thesis
  proof (cases "fst (pool_enqueue c (bl_pool (hi_blocking hi)))")
    case True
    then have p: "pending ?hi = p_queue (bl_pool (hi_blocking hi)) @ c # hi_taken hi"
      using content by (simp add: pending_def blocking_submit_def Let_def case_prod_beta)
    have "blocking_waiting ?hi k \<longleftrightarrow> k = (rt, h) \<or> blocking_waiting hi k"
      using w p by (auto simp: blocking_waiting_def pending_def image_iff)
    moreover have "blocking_inv ?hi"
      using inv ok w p
      by (auto simp: blocking_inv_def pending_def blocking_waiting_def distinct_map inj_on_def image_iff)
    ultimately show ?thesis
      using True ok by (auto simp: blocking_balanced_def Let_def)
  next
    case False
    then have "pending ?hi = pending hi"
      using content by (simp add: pending_def blocking_submit_def Let_def case_prod_beta)
    with books_same [of ?hi hi k] w inv show ?thesis
      using False by (simp add: blocking_balanced_def Let_def)
  qed
qed

lemma withdraw_balanced:
  assumes inv: "blocking_inv hi"
  shows "blocking_balanced (B_withdraw c) hi k"
proof (cases "c \<in> set (p_queue (bl_pool (hi_blocking hi)))")
  case True
  then have "fst (pool_try_cancel c (bl_pool (hi_blocking hi)))" "c \<in> set (pending hi)"
    by (simp_all add: blocking_queue.withdraw_iff pending_def)
  moreover have "pending (fst (blocking_step (B_withdraw c) hi)) = remove1 c (pending hi)"
    using True by (simp add: pending_def case_prod_beta withdraw_block_simps
        blocking_queue.withdraw_content remove1_append)
  ultimately show ?thesis
    using books_shrink [OF inv, of c "fst (blocking_step (B_withdraw c) hi)" k]
    by (auto simp: blocking_balanced_def case_prod_beta withdraw_block_simps wake_at_def [of hi c]
        of_bool_def split: if_splits)
next
  case False
  then have "pending (fst (blocking_step (B_withdraw c) hi)) = pending hi"
    by (simp add: pending_def case_prod_beta withdraw_block_simps
        blocking_queue.withdraw_content remove1_idem)
  moreover have "\<not> fst (pool_try_cancel c (bl_pool (hi_blocking hi)))"
    using False by (simp add: blocking_queue.withdraw_iff)
  ultimately show ?thesis
    using books_same [of "fst (blocking_step (B_withdraw c) hi)" hi k] inv
    by (simp add: blocking_balanced_def case_prod_beta withdraw_block_simps)
qed

lemma take_balanced:
  assumes inv: "blocking_inv hi"
  shows "blocking_balanced B_take hi k"
proof -
  have "mset (pending (fst (blocking_step B_take hi))) = mset (pending hi)"
    using blocking_queue.next_Some [of "bl_pool (hi_blocking hi)"]
      blocking_queue.next_None [of "bl_pool (hi_blocking hi)"]
    by (cases "take_item (bl_pool (hi_blocking hi))") (auto simp: pending_def split: option.splits)
  moreover have "wake_at (fst (blocking_step B_take hi)) = wake_at hi" "snd (blocking_step B_take hi) = []"
    by (auto simp: wake_at_def fun_eq_iff split: prod.splits option.splits)
  ultimately show ?thesis
    using books_same [of "fst (blocking_step B_take hi)" hi k] inv by (simp add: blocking_balanced_def)
qed

lemma execute_balanced:
  assumes inv: "blocking_inv hi" and ok: "blocking_ok (B_execute c) hi"
  shows "blocking_balanced (B_execute c) hi k"
proof -
  have "distinct (pending hi)" using inv by (simp add: blocking_inv_def distinct_map)
  then have "pending (fst (blocking_step (B_execute c) hi)) = remove1 c (pending hi)" "c \<in> set (pending hi)"
    using ok by (auto simp: pending_def case_prod_beta remove1_append)
  moreover have "wake_at (fst (blocking_step (B_execute c) hi)) = wake_at hi"
    by (auto simp: wake_at_def case_prod_beta fun_eq_iff)
  ultimately show ?thesis
    using books_shrink [OF inv, of c "fst (blocking_step (B_execute c) hi)" k]
    by (auto simp: blocking_balanced_def case_prod_beta wake_at_def [of hi c] of_bool_def split: if_splits)
qed

lemma blocking_step_balance:
  assumes inv: "blocking_inv hi" and ok: "blocking_ok e hi"
  shows "count_list (snd (blocking_step e hi)) k + of_bool (blocking_waiting (fst (blocking_step e hi)) k) +
      of_bool False = of_bool (blocking_waiting hi k) + (of_bool (blocking_enrols e hi k) :: nat) \<and>
    blocking_inv (fst (blocking_step e hi))"
proof -
  have "blocking_balanced e hi k"
    using assms by (cases e) (auto simp del: blocking_ok.simps
      intro: submit_balanced withdraw_balanced take_balanced execute_balanced)
  then show ?thesis by (simp add: blocking_balanced_def)
qed

interpretation blocking: wake_once blocking_step blocking_inv blocking_ok blocking_waiting blocking_enrols
  "\<lambda>_ _ _. False"
  by unfold_locales (use blocking_step_balance in blast)+

section \<open>What awaiting a blocking function gives\<close>

lemma suspend_accepted:
  assumes "arm (ba_guard aw) (Withdraw_block c) cw = Some (Arm_armed, cwa)"
    and "\<not> already_cancelled (ba_scope aw) cwa" and "\<not> p_stop (bl_pool st)"
  shows "blocking_suspend c rt h aw st cw = Some (True, aw\<lparr>ba_cb := Some c\<rparr>,
    \<lparr>bl_pool = (bl_pool st)\<lparr>p_queue := p_queue (bl_pool st) @ [c]\<rparr>,
     bl_blocks = (bl_blocks st)(c := make_block (ba_fn aw) rt h)\<rparr>, cwa, [])"
  using assms by (cases st) (simp add: blocking_suspend_def blocking_arm_def blocking_submit_def pool_enqueue_def
      blocking_recheck_def blocking_store_def Let_def)

text \<open>What is written to one block, by the thread that has taken it and by a cancellation.\<close>

lemma executed_result:
  assumes "bl_blocks st c = make_block f rt h" and "ba_cb aw = Some c"
  shows "snd (on_block execute c st) = [(rt, h)] \<and>
    blocking_result aw (fst (on_block execute c st)) = Some (expected_of f)"
  using assms by (simp add: block_wake_def make_block_def blocking_result_def execute_def)

lemma withdrawn_result:
  assumes "bl_blocks st c = make_block f rt h" and "ba_cb aw = Some c" and "c \<in> set (p_queue (bl_pool st))"
  shows "snd (withdraw_block c st) = [(rt, h)] \<and>
    blocking_result aw (fst (withdraw_block c st)) = Some (Gave (Inl err_cancelled)) \<and>
    p_queue (bl_pool (fst (withdraw_block c st))) = remove1 c (p_queue (bl_pool st))"
  using assms by (simp add: withdraw_block_simps pool_try_cancel_def block_wake_def make_block_def
      blocking_result_def)

definition demo_blocking :: "(nat, nat) blocking" where
  "demo_blocking = \<lparr>bl_pool = \<lparr>p_queue = [8], p_stop = False\<rparr>, bl_blocks = (\<lambda>_. make_block (Gave 0) None 0)\<rparr>"

definition demo_awaiter :: "(nat, nat) ran \<Rightarrow> (nat, nat) blocking_awaiter" where
  "demo_awaiter f = \<lparr>ba_fn = f, ba_scope = Some 0, ba_guard = 3, ba_cb = None\<rparr>"

lemma demo_suspend:
  obtains st1 cw1 where
    "blocking_suspend 5 (Some 0) 9 (demo_awaiter f) demo_blocking demo_scope =
       Some (True, (demo_awaiter f)\<lparr>ba_cb := Some 5\<rparr>, st1, cw1, [])"
    "\<not> already_cancelled (Some 0) cw1" "bl_blocks st1 5 = make_block f (Some 0) 9"
    "p_queue (bl_pool st1) = [8, 5]"
proof -
  obtain cwa where "arm 3 (Withdraw_block 5) demo_scope = Some (Arm_armed, cwa)" "\<not> cancelled 0 cwa"
    using arm_idle [of demo_scope 3 0 "Withdraw_block 5"] by auto
  with suspend_accepted [of "demo_awaiter f" 5 demo_scope cwa demo_blocking] that show ?thesis
    by (simp add: demo_awaiter_def demo_blocking_def already_cancelled_def)
qed

text \<open>
  Over any history of the blocking functions of a runtime, a coroutine that awaits one is
  scheduled exactly once for each time it suspended (and not yet while its block is queued or
  being executed): by the worker that executed its block or by the cancellation that withdrew
  it, whichever took the block out of the queue.
\<close>

lemma blocking_awaiter_woken_exactly_once:
  assumes "blocking_inv hi" and "run_ok blocking_step blocking_ok es hi" and "\<not> blocking_waiting hi k"
  shows "count_list (snd (run blocking_step es hi)) k +
      of_bool (blocking_waiting (fst (run blocking_step es hi)) k) =
    run_count blocking_step (\<lambda>e hi. blocking_enrols e hi k) es hi"
  using blocking.run_balance [OF assms(1,2), of k] assms(3) by simp

definition demo_history :: "(nat, nat) history" where
  "demo_history = \<lparr>hi_blocking = demo_blocking\<lparr>bl_pool := \<lparr>p_queue = [], p_stop = False\<rparr>\<rparr>, hi_taken = []\<rparr>"

lemma blocking_awaiter_woken_exactly_once_witness:
  "count_list (snd (run blocking_step
     [B_submit 1 None 4 (Gave 2), B_submit 2 None 5 (Threw 3), B_take, B_withdraw 1, B_withdraw 2, B_execute 1]
     demo_history)) (None, 4) = 1"
proof -
  let ?es = "[B_submit 1 None 4 (Gave 2), B_submit 2 None 5 (Threw 3), B_take, B_withdraw 1, B_withdraw 2,
    B_execute 1] :: (nat, nat) blocking_op list"
  have "run_ok blocking_step blocking_ok ?es demo_history" and u: "\<not> blocking_waiting demo_history (None, 4)"
    and i: "blocking_inv demo_history"
    and w: "\<not> blocking_waiting (fst (run blocking_step ?es demo_history)) (None, 4)"
    and n: "run_count blocking_step (\<lambda>e hi. blocking_enrols e hi (None, 4)) ?es demo_history = 1"
    by code_simp+
  from blocking_awaiter_woken_exactly_once [OF i this(1) u] w n show ?thesis by simp
qed

text \<open>
  C23. Cancelling the scope of a coroutine that awaits a blocking function: while its block is
  queued, the block is taken out and will not be executed, the coroutine is scheduled exactly
  once and its result is \<^verbatim>\<open>cancelled\<close>; once a worker has taken the block, the cancellation
  does nothing to it and schedules nobody.
\<close>

theorem blocking_cancel_decides_in_queue:
  assumes "cancel_inv cw" and "\<not> cancelled sc cw" and "armed_on sc cw = {}"
    and "g_state (guards cw g) = Idle" and "g_scope (guards cw g) = Some sc"
    and "aw = \<lparr>ba_fn = f, ba_scope = Some sc, ba_guard = g, ba_cb = None\<rparr>" and "\<not> p_stop (bl_pool st)"
    and "blocking_suspend c rt h aw st cw = Some (b, aw', st1, cw1, ks)"
    and "bl_blocks st2 c = bl_blocks st1 c" and "distinct (p_queue (bl_pool st2))"
  shows "b \<and> ks = [] \<and> (\<exists>cw2 st3. if c \<in> set (p_queue (bl_pool st2))
    then cancel run_blocking_cb sc cw1 (st2, k) = Some (cw2, (st3, k @ [(rt, h)])) \<and>
      c \<notin> set (p_queue (bl_pool st3)) \<and>
      map_option fst (blocking_resume aw' st3 cw2) = Some (Gave (Inl err_cancelled))
    else cancel run_blocking_cb sc cw1 (st2, k) = Some (cw2, (st2, k)))"
proof -
  obtain cwa where arm: "arm g (Withdraw_block c) cw = Some (Arm_armed, cwa)" "cancel_inv cwa"
      "armed_on sc cwa = {g}" "g_cb (guards cwa g) = Some (Withdraw_block c)" "\<not> cancelled sc cwa"
    using arm_idle [OF assms(4,5,2,1,3)] by blast
  have s: "b" "ks = []" "cw1 = cwa" "aw' = aw\<lparr>ba_cb := Some c\<rparr>" "bl_blocks st1 c = make_block f rt h"
    using suspend_accepted [of aw c cw cwa st rt h] assms(6,7,8) arm(1,5) by (auto simp: already_cancelled_def)
  obtain cw2 where c: "cancel run_blocking_cb sc cw1 (st2, k) =
      Some (cw2, (fst (withdraw_block c st2), k @ snd (withdraw_block c st2)))"
    using cancel_single [OF arm(2,5,3,4), of run_blocking_cb "(st2, k)"] s(3)
    by (auto simp: case_prod_beta)
  show ?thesis
  proof (cases "c \<in> set (p_queue (bl_pool st2))")
    case True
    have "snd (withdraw_block c st2) = [(rt, h)]"
      "blocking_result aw' (fst (withdraw_block c st2)) = Some (Gave (Inl err_cancelled))"
      "c \<notin> set (p_queue (bl_pool (fst (withdraw_block c st2))))"
      using withdrawn_result [of st2 c f rt h aw'] s(4,5) assms(9,10) True by simp_all
    with c True s(1,2) show ?thesis
      by (intro conjI exI [of _ cw2] exI [of _ "fst (withdraw_block c st2)"])
        (simp_all add: blocking_resume_def)
  next
    case False
    then have "withdraw_block c st2 = (st2, [])"
      by (simp add: withdraw_block_def pool_try_cancel_def)
    with c False s(1,2) show ?thesis by simp
  qed
qed

theorem blocking_cancel_decides_in_queue_witness:
  "\<exists>aw' st1 cw1 cw2 st3. blocking_suspend 5 (Some 0) 9 (demo_awaiter (Gave 1)) demo_blocking demo_scope =
       Some (True, aw', st1, cw1, []) \<and>
     cancel run_blocking_cb 0 cw1 (st1, []) = Some (cw2, (st3, [(Some 0, 9)])) \<and>
     map_option fst (blocking_resume aw' st3 cw2) = Some (Gave (Inl err_cancelled))"
proof -
  obtain st1 cw1 where s: "blocking_suspend 5 (Some 0) 9 (demo_awaiter (Gave 1)) demo_blocking demo_scope =
      Some (True, (demo_awaiter (Gave 1))\<lparr>ba_cb := Some 5\<rparr>, st1, cw1, [])"
      "p_queue (bl_pool st1) = [8, 5]"
    by (rule demo_suspend)
  have st: "\<not> p_stop (bl_pool demo_blocking)" "distinct (p_queue (bl_pool st1))"
    by (simp_all add: demo_blocking_def s(2))
  have q: "5 \<in> set (p_queue (bl_pool st1))" by (simp add: s(2))
  note on_demo = demo_scope_facts(1) demo_scope_facts(2) demo_scope_facts(3) demo_scope_facts(4) demo_scope_facts(5)
  obtain cw2 st3 where "cancel run_blocking_cb 0 cw1 (st1, []) = Some (cw2, (st3, [] @ [(Some 0, 9)]))"
      "map_option fst (blocking_resume ((demo_awaiter (Gave 1))\<lparr>ba_cb := Some 5\<rparr>) st3 cw2) =
        Some (Gave (Inl err_cancelled))"
    using blocking_cancel_decides_in_queue [OF on_demo demo_awaiter_def [of "Gave 1"] st(1) s(1) HOL.refl st(2),
      where k = "[]", unfolded if_P [OF q]] by blast
  with s(1) show ?thesis
    unfolding append_Nil by blast
qed

text \<open>
  A cancellation that comes before the block is in the queue is not lost either: before the
  guard is armed the coroutine does not suspend, and between the arming and the submission
  nobody is scheduled by the callback, but the last part of \<^verbatim>\<open>await_suspend\<close> takes the block
  back and schedules the coroutine, once, with \<^verbatim>\<open>cancelled\<close> (unless a worker was faster).
\<close>

lemma blocking_cancel_before_submit:
  assumes "cancel_inv cw" and "\<not> cancelled sc cw" and "armed_on sc cw = {}"
    and "g_state (guards cw g) = Idle" and "g_scope (guards cw g) = Some sc"
    and "aw = \<lparr>ba_fn = f, ba_scope = Some sc, ba_guard = g, ba_cb = None\<rparr>" and "\<not> p_stop (bl_pool st)"
    and "c \<notin> set (p_queue (bl_pool st))"
  shows "(\<exists>cw1 st1. cancel run_blocking_cb sc cw (st, k) = Some (cw1, (st, k)) \<and>
      blocking_suspend c rt h aw st cw1 = Some (False, aw, st1, cw1, []) \<and>
      blocking_result aw st1 = Some (Gave (Inl err_cancelled))) \<and>
    (\<exists>st1 cw1 cw2 st2 st3. blocking_arm c rt h aw st cw = Some (Arm_armed, st1, cw1) \<and>
      cancel run_blocking_cb sc cw1 (st1, k) = Some (cw2, (st1, k)) \<and>
      blocking_submit c st1 = (True, st2) \<and>
      blocking_recheck c (blocking_store c aw) st2 cw2 = (st3, [(rt, h)]) \<and>
      blocking_result (blocking_store c aw) st3 = Some (Gave (Inl err_cancelled)))"
proof (intro conjI)
  obtain cw1 where cw1: "cancel run_blocking_cb sc cw (st, k) = Some (cw1, (st, k))" "guards cw1 = guards cw"
      "cancelled sc cw1"
    using cancel_none [OF assms(1-3), of run_blocking_cb "(st, k)"] by auto
  then have "arm g (Withdraw_block c) cw1 = Some (Arm_already_cancelled, cw1)"
    using assms(4,5) by (simp add: arm_def cancelled_def)
  with cw1(1) assms(6) show "\<exists>cw1 st1. cancel run_blocking_cb sc cw (st, k) = Some (cw1, (st, k)) \<and>
      blocking_suspend c rt h aw st cw1 = Some (False, aw, st1, cw1, []) \<and>
      blocking_result aw st1 = Some (Gave (Inl err_cancelled))"
    by (simp add: blocking_suspend_def blocking_arm_def blocking_result_def)
next
  obtain cwa where arm: "arm g (Withdraw_block c) cw = Some (Arm_armed, cwa)" "cancel_inv cwa"
      "armed_on sc cwa = {g}" "g_cb (guards cwa g) = Some (Withdraw_block c)" "\<not> cancelled sc cwa"
    using arm_idle [OF assms(4,5,2,1,3)] by blast
  let ?st1 = "st\<lparr>bl_blocks := (bl_blocks st)(c := make_block f rt h)\<rparr>"
  let ?st2 = "?st1\<lparr>bl_pool := (bl_pool st)\<lparr>p_queue := p_queue (bl_pool st) @ [c]\<rparr>\<rparr>"
  have "withdraw_block c ?st1 = (?st1, [])"
    using assms(8) by (simp add: withdraw_block_def pool_try_cancel_def)
  then obtain cw2 where c: "cancel run_blocking_cb sc cwa (?st1, k) = Some (cw2, (?st1, k))" "cancelled sc cw2"
    using cancel_single [OF arm(2,5,3,4), of run_blocking_cb "(?st1, k)"] by auto
  have "snd (withdraw_block c ?st2) = [(rt, h)] \<and>
      blocking_result (blocking_store c aw) (fst (withdraw_block c ?st2)) = Some (Gave (Inl err_cancelled))"
    using withdrawn_result [of ?st2 c f rt h "blocking_store c aw"] by (simp add: blocking_store_def)
  then have "blocking_recheck c (blocking_store c aw) ?st2 cw2 = (fst (withdraw_block c ?st2), [(rt, h)]) \<and>
      blocking_result (blocking_store c aw) (fst (withdraw_block c ?st2)) = Some (Gave (Inl err_cancelled))"
    using c(2) assms(6) by (auto simp: blocking_recheck_def blocking_store_def already_cancelled_def
        intro: prod_eqI)
  moreover have "blocking_arm c rt h aw st cw = Some (Arm_armed, ?st1, cwa)" "blocking_submit c ?st1 = (True, ?st2)"
    using arm(1) assms(6,7) by (simp_all add: blocking_arm_def blocking_submit_def pool_enqueue_def)
  ultimately show "\<exists>st1 cw1 cw2 st2 st3. blocking_arm c rt h aw st cw = Some (Arm_armed, st1, cw1) \<and>
      cancel run_blocking_cb sc cw1 (st1, k) = Some (cw2, (st1, k)) \<and>
      blocking_submit c st1 = (True, st2) \<and>
      blocking_recheck c (blocking_store c aw) st2 cw2 = (st3, [(rt, h)]) \<and>
      blocking_result (blocking_store c aw) st3 = Some (Gave (Inl err_cancelled))"
    using c(1) by blast
qed

lemma blocking_cancel_before_submit_witness:
  "\<exists>st1 cw1 cw2 st2 st3. blocking_arm 5 (Some 0) 9 (demo_awaiter (Gave 1)) demo_blocking demo_scope =
       Some (Arm_armed, st1, cw1) \<and>
     cancel run_blocking_cb 0 cw1 (st1, []) = Some (cw2, (st1, [])) \<and>
     blocking_submit 5 st1 = (True, st2) \<and>
     blocking_recheck 5 (blocking_store 5 (demo_awaiter (Gave 1))) st2 cw2 = (st3, [(Some 0, 9)])"
proof -
  note on_demo = demo_scope_facts(1) demo_scope_facts(2) demo_scope_facts(3) demo_scope_facts(4) demo_scope_facts(5)
  have st: "\<not> p_stop (bl_pool demo_blocking)" "5 \<notin> set (p_queue (bl_pool demo_blocking))"
    by (simp_all add: demo_blocking_def)
  show ?thesis
    using blocking_cancel_before_submit [OF on_demo demo_awaiter_def [of "Gave 1"] st, of "[]" "Some 0" 9]
    by blast
qed

section \<open>A corner the code leaves open\<close>

text \<open>
  \<^verbatim>\<open>await_suspend\<close> stores the block in the awaiter after handing it to the pool. A worker may
  take the block, execute it and schedule the coroutine in between; the coroutine, resumed by
  another thread, then finds no block and reports \<^verbatim>\<open>cancelled\<close> although the function has run.
\<close>

lemma executed_before_stored:
  assumes "ba_cb aw = None" and "bl_blocks st c = make_block (Gave v) rt h"
  shows "snd (on_block execute c st) = [(rt, h)] \<and>
    cb_outcome (bl_blocks (fst (on_block execute c st)) c) = \<lparr>ro_value = Some v, ro_exception = None\<rparr> \<and>
    blocking_result aw (fst (on_block execute c st)) = Some (Gave (Inl err_cancelled))"
  using assms by (simp add: block_wake_def make_block_def execute_def blocking_result_def empty_outcome_def)

end
