(* ===== verification/Runtime.thy ===== *)
theory Runtime
  imports Task Spawn_Blocking
begin

text \<open>
  \<^verbatim>\<open>include/coasio/runtime.hpp\<close> and \<^verbatim>\<open>src/runtime.cpp\<close>: spawning a task as a root,
  joining and aborting it, \<^verbatim>\<open>block_on\<close>, the context guard of a thread, the builder, and the
  destructor of the runtime. The address of a runtime is a number; \<open>cur\<close> is the thread-local
  \<^verbatim>\<open>current_runtime_\<close>. Addresses of freshly allocated objects are arguments. The
  threads are in \<open>Workers\<close> and \<open>Destructor\<close>.
\<close>

section \<open>The current runtime of a thread\<close>

text \<open>A \<^verbatim>\<open>context_guard\<close> is the pointer it saves.\<close>

definition context_enter :: "nat \<Rightarrow> runtime_ptr \<Rightarrow> runtime_ptr \<times> runtime_ptr" where
  "context_enter rt cur = (cur, Some rt)"

definition context_leave :: "runtime_ptr \<Rightarrow> runtime_ptr" where
  "context_leave guard = guard"

text \<open>\<^verbatim>\<open>get_current_io_context\<close> ends the program outside a runtime.\<close>

definition current_io_context :: "(nat \<Rightarrow> 'io) \<Rightarrow> runtime_ptr \<Rightarrow> 'io option" where
  "current_io_context io cur = map_option io cur"

section \<open>Construction\<close>

text \<open>
  \<open>hw\<close> is \<^verbatim>\<open>std::thread::hardware_concurrency()\<close>. The numbers are those of the threads of
  the two kinds and the size of the blocking pool.
\<close>

definition runtime_threads :: "nat \<Rightarrow> nat \<Rightarrow> nat \<Rightarrow> nat \<Rightarrow> nat \<times> nat \<times> nat" where
  "runtime_threads hw io_worker_count worker_count blocking_pool_size =
     (let w = (if worker_count = 0 then (if hw = 0 then 1 else hw) else worker_count);
          w' = (if w = 0 then 1 else w)
      in (io_worker_count, w', blocking_pool_size))"

record runtime_builder =
  rb_io_worker_count :: nat
  rb_worker_count :: nat
  rb_blocking_pool_size :: nat

definition new_builder :: "nat \<Rightarrow> runtime_builder" where
  "new_builder hw = \<lparr>rb_io_worker_count = 1, rb_worker_count = (if hw = 0 then 1 else hw),
     rb_blocking_pool_size = 1\<rparr>"

definition set_io_worker_count :: "nat \<Rightarrow> runtime_builder \<Rightarrow> runtime_builder" where
  "set_io_worker_count n b = b\<lparr>rb_io_worker_count := n\<rparr>"

definition set_worker_count :: "nat \<Rightarrow> runtime_builder \<Rightarrow> runtime_builder" where
  "set_worker_count n b = b\<lparr>rb_worker_count := n\<rparr>"

definition set_blocking_pool_size :: "nat \<Rightarrow> runtime_builder \<Rightarrow> runtime_builder" where
  "set_blocking_pool_size n b = b\<lparr>rb_blocking_pool_size := n\<rparr>"

definition build :: "nat \<Rightarrow> runtime_builder \<Rightarrow> nat \<times> nat \<times> nat" where
  "build hw b = runtime_threads hw (rb_io_worker_count b) (rb_worker_count b) (rb_blocking_pool_size b)"

text \<open>The blocking pool is made by the first call, with \<^verbatim>\<open>std::call_once\<close>.\<close>

definition blocking_pool :: "nat \<Rightarrow> 'i pool_sys option \<Rightarrow> 'i pool_sys" where
  "blocking_pool n_threads p = (case p of None \<Rightarrow> new_pool n_threads | Some p \<Rightarrow> p)"

section \<open>Spawning\<close>

record join_handle =
  jh_rt :: runtime_ptr
  jh_scope :: scope_ptr
  jh_rx :: receiver

definition null_join_handle :: join_handle where
  "null_join_handle = \<lparr>jh_rt = None, jh_scope = None, jh_rx = \<lparr>r_state = None, r_scope = None\<rparr>\<rparr>"

text \<open>
  \<^verbatim>\<open>_spawn(task)\<close> on the runtime at \<open>r\<close>; the new scope is at \<open>sc\<close> and the new channel at
  \<open>a\<close>. The task object is a by-value parameter, destroyed on return.
\<close>

definition spawn ::
  "nat \<Rightarrow> task_obj \<Rightarrow> nat \<Rightarrow> nat \<Rightarrow> ('e, 'v, 'cb) world \<Rightarrow>
   (join_handle \<times> ('e, 'v, 'cb) world \<times> wake list) option" where
  "spawn r t sc a w =
     (if \<not> task_valid t w then
        map_option (\<lambda>(w', k). (null_join_handle, w', k)) (task_destroy t w)
      else case t of None \<Rightarrow> None
        | Some h \<Rightarrow>
          let w1 = w\<lparr>w_cancel := upd_scope sc (\<lambda>_. new_scope) (w_cancel w)\<rparr>;
              (tx, rx, ch) = make_oneshot a (w_channels w1);
              w2 = upd_promise h (\<lambda>p. p\<lparr>pr_owning_scope := Some sc\<rparr>) (w1\<lparr>w_channels := ch\<rparr>);
              (s, _, ch', k) = sender_assign False (pr_sender (promise_of w2 h)) tx (w_channels w2);
              w3 = upd_promise h (\<lambda>p. p\<lparr>pr_sender := s, pr_owner_rt := Some r, pr_scope_raw := Some sc\<rparr>)
                     (w2\<lparr>w_channels := ch'\<rparr>);
              (_, _, w4) = task_detach t w3;
              w5 = upd_rt r (schedule (Some h)) (register_root r h w4)
          in Some (\<lparr>jh_rt = Some r, jh_scope = Some sc, jh_rx = \<lparr>r_state = rx, r_scope = None\<rparr>\<rparr>, w5, k))"

section \<open>The join handle\<close>

definition abort ::
  "('cb \<Rightarrow> 'u \<Rightarrow> 'u) \<Rightarrow> join_handle \<Rightarrow> 'cb cancel_world \<Rightarrow> 'u \<Rightarrow> ('cb cancel_world \<times> 'u) option" where
  "abort rn j cw u = (case jh_scope j of None \<Rightarrow> Some (cw, u) | Some s \<Rightarrow> cancel rn s cw u)"

definition join_cancelled :: "join_handle \<Rightarrow> 'cb cancel_world \<Rightarrow> bool" where
  "join_cancelled j cw = already_cancelled (jh_scope j) cw"

text \<open>The body of \<^verbatim>\<open>join()\<close> after the receiver has been awaited with the result \<open>r\<close>.\<close>

definition join_body :: "error_code + ('e, 'v) root_outcome \<Rightarrow> ('e, error_code + 'v) ran option" where
  "join_body r =
     (case r of
        Inl e \<Rightarrow> Some (Gave (Inl e))
      | Inr out \<Rightarrow> map_option expected_of (read_outcome out))"

definition join_body_void :: "error_code + ('e, 'v) root_outcome \<Rightarrow> ('e, error_code + unit) ran" where
  "join_body_void r =
     (case r of
        Inl e \<Rightarrow> Gave (Inl e)
      | Inr out \<Rightarrow> (case ro_exception out of Some e \<Rightarrow> Threw e | None \<Rightarrow> Gave (Inr ())))"

section \<open>Blocking on a task\<close>

text \<open>
  \<^verbatim>\<open>_block_on\<close> spawns a coroutine that awaits the task, stores its value or exception in a
  \<^verbatim>\<open>std::promise\<close> and itself returns normally; the caller waits for the future.
\<close>

datatype ('e, 'v) future = Not_ready | Value 'v | Exception 'e

fun block_on_body :: "('e, 'v) ran \<Rightarrow> ('e, 'v) future" where
  "block_on_body (Gave v) = Value v"
| "block_on_body (Threw e) = Exception e"

fun future_get :: "('e, 'v) future \<Rightarrow> ('e, 'v) ran option" where
  "future_get Not_ready = None"
| "future_get (Value v) = Some (Gave v)"
| "future_get (Exception e) = Some (Threw e)"

text \<open>
  The coroutine that \<^verbatim>\<open>_block_on\<close> spawns, at \<open>h\<close>: until it hands over to the task it awaits
  (the result is the coroutine to resume, null if the task has finished already), and from
  there to its end. \<^verbatim>\<open>co_await\<close> destroys its awaiter, and with it the frame of the task, before
  the result or the exception is stored.
\<close>

definition block_on_begin ::
  "handle \<Rightarrow> task_obj \<Rightarrow> ('e, 'v, 'cb) world \<Rightarrow> (handle option \<times> ('e, 'v, 'cb) world) option" where
  "block_on_begin h t w =
     (case await_transform_task h t w of
        None \<Rightarrow> None
      | Some (t', w1) \<Rightarrow>
          if task_await_ready t' w1 then Some (None, w1)
          else map_option (\<lambda>(c, w2). (Some c, w2)) (task_await_suspend t' h w1))"

definition block_on_end ::
  "handle \<Rightarrow> task_obj \<Rightarrow> ('e, 'v, 'cb) world \<Rightarrow>
   (('e, 'v) future \<times> ('e, 'v, 'cb) world \<times> wake list) option" where
  "block_on_end h t w =
     (case task_await_resume t w of
        None \<Rightarrow> None
      | Some r \<Rightarrow>
          (case task_awaiter_destroy t w of
             None \<Rightarrow> None
           | Some (w1, k1) \<Rightarrow>
               (case final_suspend_void h (upd_promise h (end_body_void (Gave ())) w1) of
                  None \<Rightarrow> None
                | Some (w2, _, k2) \<Rightarrow> Some (block_on_body r, w2, k1 @ k2))))"

text \<open>
  \<^verbatim>\<open>_block_on\<close> up to the wait for the future: the join handle it gets is a temporary, so the
  receiver in it is destroyed at once.
\<close>

definition block_on_spawn ::
  "nat \<Rightarrow> handle \<Rightarrow> nat \<Rightarrow> nat \<Rightarrow> ('e, 'v, 'cb) world \<Rightarrow> (('e, 'v, 'cb) world \<times> wake list) option" where
  "block_on_spawn r h sc a w =
     map_option (\<lambda>(j, w1, k).
         (w1\<lparr>w_channels := receiver_destroy (r_state (jh_rx j)) (w_channels w1)\<rparr>, k))
       (spawn r (Some h) sc a w)"

section \<open>What may be spawned\<close>

text \<open>
  \<^verbatim>\<open>runtime::spawn\<close> and \<^verbatim>\<open>runtime::block_on\<close> take a task, or a callable that makes one when it is
  invoked: it makes the frame, or throws, and nothing is spawned. Anything else does not compile.
\<close>

datatype ('x, 'w) spawn_arg = Task_arg task_obj | Callable_arg "'w \<Rightarrow> ('x, task_obj) ran \<times> 'w"

fun invoke :: "('x, 'w) spawn_arg \<Rightarrow> 'w \<Rightarrow> ('x, task_obj) ran \<times> 'w" where
  "invoke (Task_arg t) w = (Gave t, w)"
| "invoke (Callable_arg f) w = f w"

definition runtime_spawn ::
  "nat \<Rightarrow> ('x, ('e, 'v, 'cb) world) spawn_arg \<Rightarrow> nat \<Rightarrow> nat \<Rightarrow> ('e, 'v, 'cb) world \<Rightarrow>
   (('x, join_handle) ran \<times> ('e, 'v, 'cb) world \<times> wake list) option" where
  "runtime_spawn r arg sc a w =
     (case invoke arg w of
        (Threw x, w') \<Rightarrow> Some (Threw x, w', [])
      | (Gave t, w') \<Rightarrow> map_option (\<lambda>(j, w'', k). (Gave j, w'', k)) (spawn r t sc a w'))"

text \<open>
  \<^verbatim>\<open>block_on\<close> up to the wait for the future: the task is handed to the coroutine at \<open>h\<close> that
  \<^verbatim>\<open>_block_on\<close> spawns.
\<close>

definition runtime_block_on ::
  "nat \<Rightarrow> ('x, ('e, 'v, 'cb) world) spawn_arg \<Rightarrow> handle \<Rightarrow> nat \<Rightarrow> nat \<Rightarrow> ('e, 'v, 'cb) world \<Rightarrow>
   (('x, task_obj) ran \<times> ('e, 'v, 'cb) world \<times> wake list) option" where
  "runtime_block_on r arg h sc a w =
     (case invoke arg w of
        (Threw x, w') \<Rightarrow> Some (Threw x, w', [])
      | (Gave t, w') \<Rightarrow> map_option (\<lambda>(w'', k). (Gave t, w'', k)) (block_on_spawn r h sc a w'))"

text \<open>The awaiter that \<^verbatim>\<open>runtime::spawn_blocking\<close> makes, for the pool of the runtime.\<close>

definition runtime_spawn_blocking ::
  "nat \<Rightarrow> ('e, 'v) ran \<Rightarrow> nat \<Rightarrow> nat \<times> ('e, 'v) blocking_awaiter" where
  "runtime_spawn_blocking r f g = (r, blocking_awaiter_new f g)"

section \<open>The functions without a runtime\<close>

text \<open>
  \<^verbatim>\<open>coasio::spawn\<close> and \<^verbatim>\<open>coasio::spawn_blocking\<close> (\<^verbatim>\<open>include/coasio.hpp\<close>) use the runtime of the
  thread; without one they end the program.
\<close>

definition free_spawn ::
  "runtime_ptr \<Rightarrow> ('x, ('e, 'v, 'cb) world) spawn_arg \<Rightarrow> nat \<Rightarrow> nat \<Rightarrow> ('e, 'v, 'cb) world \<Rightarrow>
   (('x, join_handle) ran \<times> ('e, 'v, 'cb) world \<times> wake list) option" where
  "free_spawn cur arg sc a w = (case cur of None \<Rightarrow> None | Some r \<Rightarrow> runtime_spawn r arg sc a w)"

definition free_spawn_blocking ::
  "runtime_ptr \<Rightarrow> ('e, 'v) ran \<Rightarrow> nat \<Rightarrow> (nat \<times> ('e, 'v) blocking_awaiter) option" where
  "free_spawn_blocking cur f g = (case cur of None \<Rightarrow> None | Some r \<Rightarrow> Some (runtime_spawn_blocking r f g))"

section \<open>Destruction\<close>

text \<open>
  The first part of \<^verbatim>\<open>~runtime\<close>: cancel the scope of every live root, along the list. The
  callbacks that this runs act on \<open>u\<close>.
\<close>

partial_function (option) cancel_roots_from ::
  "('cb \<Rightarrow> 'u \<Rightarrow> 'u) \<Rightarrow> nat option \<Rightarrow> ('e, 'v, 'cb) world \<Rightarrow> 'u \<Rightarrow> (('e, 'v, 'cb) world \<times> 'u) option" where
  "cancel_roots_from rn n w u =
     (case n of
        None \<Rightarrow> Some (w, u)
      | Some h \<Rightarrow>
          (case (case pr_scope_raw (promise_of w h) of
                   None \<Rightarrow> Some (w_cancel w, u)
                 | Some s \<Rightarrow> cancel rn s (w_cancel w) u) of
             None \<Rightarrow> None
           | Some (cw, u') \<Rightarrow>
               cancel_roots_from rn (pr_next (promise_of w h)) (w\<lparr>w_cancel := cw\<rparr>) u'))"

declare cancel_roots_from.simps [code]

definition cancel_roots ::
  "('cb \<Rightarrow> 'u \<Rightarrow> 'u) \<Rightarrow> nat \<Rightarrow> ('e, 'v, 'cb) world \<Rightarrow> 'u \<Rightarrow> (('e, 'v, 'cb) world \<times> 'u) option" where
  "cancel_roots rn r w u = cancel_roots_from rn (rt_roots_head (w_rts w r)) w u"

text \<open>After the roots have drained, the workers are told to stop.\<close>

definition request_stop :: "nat \<Rightarrow> ('e, 'v, 'cb) world \<Rightarrow> ('e, 'v, 'cb) world option" where
  "request_stop r w =
     (if drained r w then Some (upd_rt r (\<lambda>t. t\<lparr>rt_stop := True\<rparr>) w) else None)"

end
