(* ===== verification/Timer.thy ===== *)
theory Timer
  imports Async_Op Runtime
begin

text \<open>
  \<^verbatim>\<open>time::timer\<close> of \<^verbatim>\<open>include/coasio/time.hpp\<close>: a timer of Asio, made for the context of the current
  runtime, whose members are those of Asio. \<^verbatim>\<open>wait()\<close> is not modelled: it is const and calls the
  non-const \<^verbatim>\<open>asio_handle()\<close>, so it has no meaning. \<^verbatim>\<open>sleep\<close> is in \<open>Async_Op\<close>.
\<close>

section \<open>Asio's timers\<close>

text \<open>
  Points in time have the type \<open>'p\<close>, durations \<open>'d\<close>, contexts \<open>'io\<close> and timers \<open>'t\<close>. Members that change
  a timer return the number of waits they cancelled, or throw.
\<close>

record ('io, 'p, 'd, 't, 'e) asio_timers =
  tm_new :: "'io \<Rightarrow> 't"
  tm_new_at :: "'io \<Rightarrow> 'p \<Rightarrow> 't"
  tm_new_after :: "'io \<Rightarrow> 'd \<Rightarrow> 't"
  tm_cancel :: "'t \<Rightarrow> ('e, nat) ran \<times> 't"
  tm_cancel_one :: "'t \<Rightarrow> ('e, nat) ran \<times> 't"
  tm_expires_after :: "'t \<Rightarrow> 'd \<Rightarrow> ('e, nat) ran \<times> 't"
  tm_expires_at :: "'t \<Rightarrow> 'p \<Rightarrow> ('e, nat) ran \<times> 't"
  tm_expiry :: "'t \<Rightarrow> 'p"

section \<open>The class\<close>

text \<open>A timer object is the timer it holds. The three ways to create one need a current runtime.\<close>

definition timer_create ::
  "('io, 'p, 'd, 't, 'e) asio_timers \<Rightarrow> (nat \<Rightarrow> 'io) \<Rightarrow> runtime_ptr \<Rightarrow> 't option" where
  "timer_create T io cur = map_option (tm_new T) (current_io_context io cur)"

definition timer_create_at ::
  "('io, 'p, 'd, 't, 'e) asio_timers \<Rightarrow> (nat \<Rightarrow> 'io) \<Rightarrow> runtime_ptr \<Rightarrow> 'p \<Rightarrow> 't option" where
  "timer_create_at T io cur expiry_time = map_option (\<lambda>c. tm_new_at T c expiry_time) (current_io_context io cur)"

definition timer_create_after ::
  "('io, 'p, 'd, 't, 'e) asio_timers \<Rightarrow> (nat \<Rightarrow> 'io) \<Rightarrow> runtime_ptr \<Rightarrow> 'd \<Rightarrow> 't option" where
  "timer_create_after T io cur expiry_time =
     map_option (\<lambda>c. tm_new_after T c expiry_time) (current_io_context io cur)"

definition timer_cancel :: "('io, 'p, 'd, 't, 'e) asio_timers \<Rightarrow> 't \<Rightarrow> ('e, nat) ran \<times> 't" where
  "timer_cancel T t = tm_cancel T t"

definition timer_cancel_one :: "('io, 'p, 'd, 't, 'e) asio_timers \<Rightarrow> 't \<Rightarrow> ('e, nat) ran \<times> 't" where
  "timer_cancel_one T t = tm_cancel_one T t"

definition timer_expires_after ::
  "('io, 'p, 'd, 't, 'e) asio_timers \<Rightarrow> 'd \<Rightarrow> 't \<Rightarrow> ('e, nat) ran \<times> 't" where
  "timer_expires_after T expiry_time t = tm_expires_after T t expiry_time"

definition timer_expires_at ::
  "('io, 'p, 'd, 't, 'e) asio_timers \<Rightarrow> 'p \<Rightarrow> 't \<Rightarrow> ('e, nat) ran \<times> 't" where
  "timer_expires_at T expiry_time t = tm_expires_at T t expiry_time"

definition timer_expiry :: "('io, 'p, 'd, 't, 'e) asio_timers \<Rightarrow> 't \<Rightarrow> 'p" where
  "timer_expiry T t = tm_expiry T t"

end
