(* ===== verification/Cancel_That.thy ===== *)
theory Cancel_That
  imports Timer
begin

text \<open>
  The program \<^verbatim>\<open>examples/cancel_that.cpp\<close>: a main coroutine that spawns a task which sleeps, aborts it
  and waits for it to be gone. A coroutine is the place where it is suspended; it is resumed with the
  result of what it awaits, writes lines, and asks for the next thing. What an error code of Asio
  says is a parameter.
\<close>

section \<open>The two coroutines\<close>

datatype work_at = Work_starts | Work_sleeps | Work_ended int

datatype work_action = Work_writes string | Work_asks_sleep int

fun long_running_work ::
  "(error_code \<Rightarrow> string) \<Rightarrow> error_code + unit \<Rightarrow> work_at \<Rightarrow> work_at \<times> work_action list" where
  "long_running_work msg result Work_starts =
     (Work_sleeps, [Work_writes ''work: starting, will sleep 5s'', Work_asks_sleep 5000])"
| "long_running_work msg result Work_sleeps =
     (case result of
        Inl e \<Rightarrow> (Work_ended (-1), [Work_writes (''work: cancelled ('' @ msg e @ '')'')])
      | Inr _ \<Rightarrow> (Work_ended 42, [Work_writes ''work: finished normally'']))"
| "long_running_work msg result (Work_ended n) = (Work_ended n, [])"

datatype main_at = Main_starts | Main_first_sleep | Main_second_sleep | Main_ended int

datatype main_action = Main_spawns_work | Main_asks_sleep int | Main_writes string | Main_aborts

fun user_main :: "main_at \<Rightarrow> main_at \<times> main_action list" where
  "user_main Main_starts = (Main_first_sleep, [Main_spawns_work, Main_asks_sleep 1000])"
| "user_main Main_first_sleep =
     (Main_second_sleep, [Main_writes ''runner: aborting the work task now'', Main_aborts, Main_asks_sleep 200])"
| "user_main Main_second_sleep = (Main_ended 0, [])"
| "user_main (Main_ended n) = (Main_ended n, [])"

section \<open>The abort\<close>

text \<open>
  The work suspends in its sleep; the abort of its join handle emits the signal to the wait of its timer, once,
  and when Asio then completes the wait with an error, the work says so and returns -1. When the timer
  has expired before the abort, which then does nothing, the work returns 42.
\<close>

lemma abort_ends_the_work:
  assumes "cancel_inv cw" and "\<not> cancelled sc cw" and "armed_on sc cw = {}"
    and "g_state (guards cw g) = Idle" and "g_scope (guards cw g) = Some sc" and "jh_scope j = Some sc"
    and "aw = (sleep 5000 g)\<lparr>sl_scope := Some sc\<rparr>"
  shows "\<exists>aw1 cw1 cw2 cw3. sleep_ready aw cw = (False, aw) \<and>
    sleep_suspend timer wait a (Some r) h aw sigs cw = Some (aw1, sigs(a := wait (timer 5000) (sigs a)), cw1, []) \<and>
    (\<forall>sg. abort (run_emit_cb emit) j cw1 sg = Some (cw2, sg(a := emit (sg a)))) \<and>
    (\<forall>ec. is_error ec \<longrightarrow> snd (snd (sleep_complete (Some r) h ec aw1 cw2)) = [(Some r, h)] \<and>
       long_running_work msg (fst (sleep_resume (fst (sleep_complete (Some r) h ec aw1 cw2)) cw)) Work_sleeps =
         (Work_ended (-1), [Work_writes (''work: cancelled ('' @ msg ec @ '')'')])) \<and>
    (\<forall>sg. abort (run_emit_cb emit) j (fst (snd (sleep_complete (Some r) h no_error aw1 cw1))) sg = Some (cw3, sg)) \<and>
    long_running_work msg (fst (sleep_resume (fst (sleep_complete (Some r) h no_error aw1 cw1)) cw)) Work_sleeps =
      (Work_ended 42, [Work_writes ''work: finished normally''])"
proof -
  have g: "sl_guard aw = g" "sl_scope aw = Some sc" "sl_duration aw = 5000" using assms(7) by (simp_all add: sleep_def)
  obtain cw1 where cw1: "arm g (Emit a) cw = Some (Arm_armed, cw1)" "cancel_inv cw1" "armed_on sc cw1 = {g}"
      "g_cb (guards cw1 g) = Some (Emit a)" "g_scope (guards cw1 g) = Some sc" "\<not> cancelled sc cw1"
    using arm_idle [OF assms(4,5,2,1,3), of "Emit a"] by blast
  obtain cw2 where cw2: "\<forall>sg. cancel (run_emit_cb emit) sc cw1 sg = Some (cw2, sg(a := emit (sg a)))"
    using cancel_single_uniform [OF cw1(2,6,3,4), of "run_emit_cb emit"] by auto
  have "cancel_inv (snd (disarm g cw1))" "armed_on sc (snd (disarm g cw1)) = {}" "\<not> cancelled sc (snd (disarm g cw1))"
    using disarm_armed [OF cw1(2,3,5)] cw1(6) by (simp_all add: disarm_frame(2))
  then have "\<exists>cw3. \<forall>sg. cancel (run_emit_cb emit) sc (snd (disarm g cw1)) sg = Some (cw3, sg)"
    by (intro cancel_none_uniform)
  then obtain cw3 where cw3: "\<forall>sg. cancel (run_emit_cb emit) sc (snd (disarm g cw1)) sg = Some (cw3, sg)" by blast
  show ?thesis
  proof (rule exI [of _ "aw\<lparr>sl_timer := Some (timer 5000)\<rparr>"], rule exI [of _ cw1], rule exI [of _ cw2], rule exI [of _ cw3])
  qed (use cw1(1) cw2 cw3 assms(2,6) g in \<open>simp add: sleep_ready_def sleep_suspend_defs already_cancelled_def sleep_complete_def
      sleep_resume_def abort_def Let_def\<close>)
qed

end
