(* ===== verification/Runtime_Laws.thy ===== *)
theory Runtime_Laws
  imports Runtime
begin

text \<open>
  What the runtime promises: the counter of live roots is exact, what a spawned task does
  reaches its join handle, an aborted or destroyed runtime cancels its tasks.
\<close>

section \<open>The counter of live roots\<close>

text \<open>Spawns and final suspensions, as the list of roots sees them.\<close>

datatype root_op = Reg nat | Unreg nat

fun root_step :: "nat \<Rightarrow> root_op \<Rightarrow> ('e, 'v, 'cb) world \<Rightarrow> ('e, 'v, 'cb) world" where
  "root_step r (Reg n) w = register_root r n w"
| "root_step r (Unreg n) w = unregister_root r n w"

fun live_after :: "root_op \<Rightarrow> nat set \<Rightarrow> nat set" where
  "live_after (Reg n) L = insert n L"
| "live_after (Unreg n) L = L - {n}"

text \<open>A root is registered once, and unregistered while it is registered.\<close>

primrec roots_ok :: "root_op list \<Rightarrow> nat set \<Rightarrow> bool" where
  "roots_ok [] L \<longleftrightarrow> True"
| "roots_ok (e # es) L \<longleftrightarrow>
     (case e of Reg n \<Rightarrow> n \<notin> L \<and> Suc (card L) < 2 ^ 64 | Unreg n \<Rightarrow> n \<in> L) \<and> roots_ok es (live_after e L)"

lemma root_chain_distinct: "root_chain r w xs \<Longrightarrow> distinct xs"
  unfolding root_chain_def by (blast dest: root_list.chain_distinct)

lemma root_run_chain:
  "root_chain r w xs \<Longrightarrow> length xs < 2 ^ 64 \<Longrightarrow> roots_ok es (set xs) \<Longrightarrow>
   \<exists>ys. root_chain r (fold (root_step r) es w) ys \<and> set ys = fold live_after es (set xs) \<and> length ys < 2 ^ 64"
proof (induction es arbitrary: w xs)
  case (Cons e es)
  have d: "distinct xs" using Cons.prems(1) by (rule root_chain_distinct)
  show ?case
  proof (cases e)
    case (Reg n)
    then have n: "n \<notin> set xs" "Suc (length xs) < 2 ^ 64"
      using Cons.prems(3) d by (simp_all add: distinct_card)
    have "root_chain r (root_step r e w) (n # xs)" "set (n # xs) = live_after e (set xs)"
      using root_chain_register [OF Cons.prems(1) n] Reg by simp_all
    with Cons.IH [of "root_step r e w" "n # xs"] Cons.prems(3) n(2) show ?thesis by simp
  next
    case (Unreg n)
    then have n: "n \<in> set xs" using Cons.prems(3) by simp
    have "root_chain r (root_step r e w) (remove1 n xs)" "set (remove1 n xs) = live_after e (set xs)"
      using root_chain_unregister [OF Cons.prems(1) n Cons.prems(2)] Unreg d by simp_all
    moreover have "length (remove1 n xs) < 2 ^ 64"
      using Cons.prems(2) by (simp add: length_remove1 less_imp_diff_less)
    ultimately show ?thesis
      using Cons.IH [of "root_step r e w" "remove1 n xs"] Cons.prems(3) by simp
  qed
qed auto

text \<open>
  The counter of live roots is exact: after any history of registrations and
  unregistrations, in any order, from an empty runtime, \<^verbatim>\<open>live_roots_\<close> is the number of roots
  registered and not unregistered, so the wait of the destructor ends exactly when there is
  none left, and then the list is empty.
\<close>

lemma live_roots_is_exact:
  assumes "w_rts w r = new_runtime" and "roots_ok es {}"
  shows "rt_live (w_rts (fold (root_step r) es w) r) = card (fold live_after es {}) \<and>
    (drained r (fold (root_step r) es w) \<longleftrightarrow> fold live_after es {} = {}) \<and>
    (drained r (fold (root_step r) es w) \<longrightarrow> rt_roots_head (w_rts (fold (root_step r) es w) r) = None)"
proof -
  have "root_chain r w []"
    using assms(1) by (simp add: root_chain_def root_links_def dll_def new_runtime_def)
  from root_run_chain [OF this] assms(2) obtain ys where
    ys: "root_chain r (fold (root_step r) es w) ys" "set ys = fold live_after es {}"
    by auto
  have "card (set ys) = length ys" using root_chain_distinct [OF ys(1)] by (rule distinct_card)
  moreover have "root_links r (fold (root_step r) es w) ys" "rt_live (w_rts (fold (root_step r) es w) r) = length ys"
    using ys(1) by (simp_all add: root_chain_def)
  moreover have "rt_roots_head (w_rts (fold (root_step r) es w) r) = head_ptr ys"
    using calculation(2) unfolding root_links_def by (rule dll_head)
  ultimately show ?thesis
    using ys(2) by (auto simp: drained_def)
qed

lemma live_roots_is_exact_witness:
  "rt_live (w_rts (fold (root_step 0) [Reg 1, Reg 2, Reg 3, Unreg 2, Unreg 3] demo_runtime_world) 0) = 1 \<and>
   \<not> drained 0 (fold (root_step 0) [Reg 1, Reg 2, Reg 3, Unreg 2, Unreg 3] demo_runtime_world)"
  using live_roots_is_exact [of demo_runtime_world 0 "[Reg 1, Reg 2, Reg 3, Unreg 2, Unreg 3]"]
  by (simp add: insert_Diff_if)

section \<open>Spawning, finishing, joining\<close>

text \<open>What \<^verbatim>\<open>_spawn\<close> makes of the frame of a task, and what the task keeps while it runs.\<close>

definition spawned :: "nat \<Rightarrow> nat \<Rightarrow> nat \<Rightarrow> handle \<Rightarrow> ('e, 'v, 'cb) world \<Rightarrow> bool" where
  "spawned r sc a h w \<longleftrightarrow> fr_alive (w_frames w h) \<and> pr_detached (promise_of w h) \<and>
     pr_owner_rt (promise_of w h) = Some r \<and> pr_sender (promise_of w h) = Some a \<and>
     pr_scope_raw (promise_of w h) = Some sc \<and> pr_exception (promise_of w h) = None"

lemma root_links_frames:
  assumes "\<And>x. pr_next (promise_of w x) = pr_next (promise_of w' x)"
    and "\<And>x. pr_prev (promise_of w x) = pr_prev (promise_of w' x)" and "w_rts w r = w_rts w' r"
  shows "root_chain r w xs = root_chain r w' xs"
  unfolding root_chain_def using root_links_cong [of w r w' xs] assms by auto

text \<open>What \<^verbatim>\<open>_spawn\<close> makes of the world, as one term.\<close>

definition spawned_world :: "nat \<Rightarrow> handle \<Rightarrow> nat \<Rightarrow> nat \<Rightarrow> ('e, 'v, 'cb) world \<Rightarrow> ('e, 'v, 'cb) world" where
  "spawned_world r h sc a w =
     upd_promise h (\<lambda>p. p\<lparr>pr_owning_scope := Some sc, pr_sender := Some a, pr_owner_rt := Some r,
        pr_scope_raw := Some sc, pr_detached := True\<rparr>)
      (w\<lparr>w_cancel := upd_scope sc (\<lambda>_. new_scope) (w_cancel w), w_channels := (w_channels w)(a := new_oneshot)\<rparr>)"

lemma spawn_equation:
  assumes "\<not> fr_done (w_frames w h)" and "pr_sender (promise_of w h) = None"
  shows "spawn r (Some h) sc a w = Some (\<lparr>jh_rt = Some r, jh_scope = Some sc,
      jh_rx = \<lparr>r_state = Some a, r_scope = None\<rparr>\<rparr>,
      upd_rt r (schedule (Some h)) (register_root r h (spawned_world r h sc a w)), [])"
  using assms by (cases w) (simp add: spawn_def task_valid_def make_oneshot_def sender_assign_def
      sender_destroy_def task_detach_def task_release_def Let_def upd_promise_def upd_frame_def spawned_world_def)

lemma spawned_world_chain [simp]: "root_chain r (spawned_world r h sc a w) xs = root_chain r w xs"
  by (subst root_links_frames [where w' = w]) (auto simp: spawned_world_def)

text \<open>
  Spawning a task: it becomes a live root of the runtime and is put at the end of its run queue
  once, with a fresh scope that is not cancelled and a fresh channel to the join handle; it is
  detached, so it will destroy itself, and nobody is woken. Spawning an empty task returns the
  null handle and leaves everything alone.
\<close>

lemma spawn_effect:
  assumes "root_chain r w xs" and "h \<notin> set xs" and "Suc (length xs) < 2 ^ 64"
    and "fr_alive (w_frames w h)" and "\<not> fr_done (w_frames w h)"
    and "pr_sender (promise_of w h) = None" and "pr_exception (promise_of w h) = None"
  shows "\<exists>w'. spawn r (Some h) sc a w = Some (\<lparr>jh_rt = Some r, jh_scope = Some sc,
      jh_rx = \<lparr>r_state = Some a, r_scope = None\<rparr>\<rparr>, w', []) \<and>
    root_chain r w' (h # xs) \<and> rt_queue (w_rts w' r) = rt_queue (w_rts w r) @ [h] \<and>
    spawned r sc a h w' \<and> pr_owning_scope (promise_of w' h) = Some sc \<and>
    \<not> cancelled sc (w_cancel w') \<and> w_channels w' = (w_channels w)(a := new_oneshot) \<and>
    spawn r None sc a w = Some (null_join_handle, w, [])"
proof -
  let ?w3 = "spawned_world r h sc a w"
  let ?w' = "upd_rt r (schedule (Some h)) (register_root r h ?w3)"
  note s = spawn_equation [OF assms(5,6), of r sc a]
  have "root_chain r (register_root r h ?w3) (h # xs)"
    using assms(1-3) by (intro root_chain_register) simp_all
  then have c: "root_chain r ?w' (h # xs)"
    by (simp add: root_chain_def root_links_def schedule_def put_task_in_queue_def)
  have "spawned r sc a h ?w'" "pr_owning_scope (promise_of ?w' h) = Some sc"
    using assms(4,7) by (simp_all add: spawned_def spawned_world_def)
  moreover have "rt_queue (w_rts ?w' r) = rt_queue (w_rts w r) @ [h]"
    by (simp add: schedule_def put_task_in_queue_def spawned_world_def)
  moreover have "\<not> cancelled sc (w_cancel ?w')" "w_channels ?w' = (w_channels w)(a := new_oneshot)"
    by (simp_all add: cancelled_def new_scope_def spawned_world_def)
  moreover have "spawn r None sc a w = Some (null_join_handle, w, [])"
    by (simp add: spawn_def task_valid_def task_destroy_def)
  ultimately show ?thesis using s c by blast
qed

text \<open>The channel of a join handle before the task has finished, its receiver not given up.\<close>

definition undelivered :: "'v oneshot \<Rightarrow> bool" where
  "undelivered s \<longleftrightarrow> \<not> o_ready s \<and> \<not> o_receiver_dropped s \<and> \<not> o_cancelled s"

lemma sent_channel:
  assumes "undelivered s"
  shows "set_value v s = (Inr (), s\<lparr>o_value := Some v, o_ready := True, o_waiter := None\<rparr>,
    wake_if (o_rt s) (o_waiter s))"
  using assms by (simp add: set_value_def undelivered_def Let_def)

text \<open>
  The final suspension of a detached task whose body has ended: the channel first gets the
  outcome and then loses its sender.
\<close>

lemma final_suspend_equation:
  assumes "fr_alive (w_frames w h)" and "pr_sender (eb (promise_of w h)) = Some a"
    and "pr_owner_rt (eb (promise_of w h)) = Some r" and "pr_detached (eb (promise_of w h))"
    and "set_value (oc (eb (promise_of w h))) (w_channels w a) = (rv, s1, k1)"
    and "mark_sender_dropped s1 = (s2, k2)"
  shows "final_suspend_with oc h (upd_promise h eb w) = Some
    ((upd_frame h (\<lambda>f. f\<lparr>fr_alive := False\<rparr>) (unregister_root r h
       ((upd_frame h (\<lambda>f. f\<lparr>fr_done := True\<rparr>) (upd_promise h eb w))\<lparr>w_channels := (w_channels w)(a := s1)\<rparr>)))
     \<lparr>w_channels := (w_channels w)(a := s2)\<rparr>, None, k1 @ k2)"
proof -
  let ?w0 = "upd_frame h (\<lambda>f. f\<lparr>fr_done := True\<rparr>) (upd_promise h eb w)"
  let ?w2 = "unregister_root r h (?w0\<lparr>w_channels := (w_channels w)(a := s1)\<rparr>)"
  have "send_outcome oc h ?w0 = (?w0\<lparr>w_channels := (w_channels w)(a := s1)\<rparr>, k1)"
    using assms(2,5) by (simp add: send_outcome_def send_def)
  moreover have "destroy_frame h ?w2 =
      Some ((upd_frame h (\<lambda>f. f\<lparr>fr_alive := False\<rparr>) ?w2)\<lparr>w_channels := (w_channels w)(a := s2)\<rparr>, k2)"
    using assms(1,2,6) by (simp add: destroy_frame_def sender_destroy_def)
  ultimately show ?thesis
    using assms(3,4) by (simp add: final_suspend_with_def Let_def)
qed

lemma final_suspend_detached:
  assumes "fr_alive (w_frames w h)" and "pr_sender (eb (promise_of w h)) = Some a"
    and "pr_owner_rt (eb (promise_of w h)) = Some r" and "pr_detached (eb (promise_of w h))"
    and "pr_next (eb (promise_of w h)) = pr_next (promise_of w h)"
    and "pr_prev (eb (promise_of w h)) = pr_prev (promise_of w h)"
    and "set_value (oc (eb (promise_of w h))) (w_channels w a) = (rv, s1, k1)"
    and "mark_sender_dropped s1 = (s2, k2)"
  shows "\<exists>w'. final_suspend_with oc h (upd_promise h eb w) = Some (w', None, k1 @ k2) \<and>
    w_channels w' = (w_channels w)(a := s2) \<and> \<not> fr_alive (w_frames w' h) \<and>
    (\<forall>x. x \<noteq> h \<longrightarrow> fr_alive (w_frames w' x) = fr_alive (w_frames w x)) \<and>
    (\<forall>ys. root_chain r w ys \<and> h \<in> set ys \<and> length ys < 2 ^ 64 \<longrightarrow> root_chain r w' (remove1 h ys))"
proof -
  let ?w0 = "upd_frame h (\<lambda>f. f\<lparr>fr_done := True\<rparr>) (upd_promise h eb w)"
  let ?w1 = "?w0\<lparr>w_channels := (w_channels w)(a := s1)\<rparr>"
  let ?w2 = "unregister_root r h ?w1"
  let ?w3 = "(upd_frame h (\<lambda>f. f\<lparr>fr_alive := False\<rparr>) ?w2)\<lparr>w_channels := (w_channels w)(a := s2)\<rparr>"
  note f = final_suspend_equation [where eb = eb and oc = oc, OF assms(1-4,7,8)]
  have "root_chain r ?w3 (remove1 h ys)" if "root_chain r w ys \<and> h \<in> set ys \<and> length ys < 2 ^ 64" for ys
  proof -
    have "root_chain r ?w1 ys"
      using that assms(5,6) by (subst root_links_frames [where w' = w]) auto
    then have "root_chain r ?w2 (remove1 h ys)"
      using that by (intro root_chain_unregister) auto
    then show ?thesis by (subst root_links_frames [where w' = ?w2]) auto
  qed
  with f show ?thesis by (intro exI [of _ ?w3]) simp
qed

text \<open>With a join handle that has not been given up, its waiter is woken once.\<close>

lemma final_suspend_spawned:
  assumes "spawned r sc a h w" and "undelivered (w_channels w a)"
    and "pr_sender (eb (promise_of w h)) = Some a" "pr_owner_rt (eb (promise_of w h)) = Some r"
    and "pr_detached (eb (promise_of w h))" "pr_next (eb (promise_of w h)) = pr_next (promise_of w h)"
    and "pr_prev (eb (promise_of w h)) = pr_prev (promise_of w h)"
  shows "\<exists>w'. final_suspend_with oc h (upd_promise h eb w) =
      Some (w', None, wake_if (o_rt (w_channels w a)) (o_waiter (w_channels w a))) \<and>
    w_channels w' = (w_channels w)(a := (w_channels w a)\<lparr>o_value := Some (oc (eb (promise_of w h))),
      o_ready := True, o_waiter := None\<rparr>) \<and>
    \<not> fr_alive (w_frames w' h) \<and>
    (\<forall>ys. root_chain r w ys \<and> h \<in> set ys \<and> length ys < 2 ^ 64 \<longrightarrow> root_chain r w' (remove1 h ys))"
proof -
  have "fr_alive (w_frames w h)" using assms(1) by (simp add: spawned_def)
  from final_suspend_detached [where oc = oc and eb = eb, OF this assms(3-7)
      sent_channel [OF assms(2), of "oc (eb (promise_of w h))"]]
  show ?thesis by (fastforce simp: mark_sender_dropped_def)
qed

text \<open>With one that has, nobody is.\<close>

lemma final_suspend_unjoined:
  assumes "spawned r sc a h w" and "o_receiver_dropped (w_channels w a)" and "o_waiter (w_channels w a) = None"
    and "pr_sender (eb (promise_of w h)) = Some a" "pr_owner_rt (eb (promise_of w h)) = Some r"
    and "pr_detached (eb (promise_of w h))" "pr_next (eb (promise_of w h)) = pr_next (promise_of w h)"
    and "pr_prev (eb (promise_of w h)) = pr_prev (promise_of w h)"
  shows "\<exists>w'. final_suspend_with oc h (upd_promise h eb w) = Some (w', None, []) \<and>
    \<not> fr_alive (w_frames w' h) \<and> (\<forall>x. x \<noteq> h \<longrightarrow> fr_alive (w_frames w' x) = fr_alive (w_frames w x)) \<and>
    (\<forall>ys. root_chain r w ys \<and> h \<in> set ys \<and> length ys < 2 ^ 64 \<longrightarrow> root_chain r w' (remove1 h ys))"
proof -
  have a: "fr_alive (w_frames w h)" using assms(1) by (simp add: spawned_def)
  have "set_value v (w_channels w a) = (Inl v, w_channels w a, [])" for v
    using assms(2) by (simp add: set_value_def)
  moreover have "\<exists>s2. mark_sender_dropped (w_channels w a) = (s2, [])"
    using assms(3) by (simp add: mark_sender_dropped_def wake_if_def Let_def)
  then obtain s2 where "mark_sender_dropped (w_channels w a) = (s2, [])" by blast
  ultimately show ?thesis
    using final_suspend_detached [where oc = oc and eb = eb and ?k1.0 = "[]" and ?k2.0 = "[]", OF a assms(4-8)]
    by fastforce
qed

text \<open>The outcome is stored for the join handle, which reads the result of the body from it.\<close>

lemma spawned_ends:
  assumes "spawned r sc a h w" and "undelivered (w_channels w a)" and "root_chain r w ys"
    and "h \<in> set ys" and "length ys < 2 ^ 64"
  shows "\<exists>w' out. final_suspend h (upd_promise h (end_body res) w) =
      Some (w', None, wake_if (o_rt (w_channels w a)) (o_waiter (w_channels w a))) \<and>
    root_chain r w' (remove1 h ys) \<and> \<not> fr_alive (w_frames w' h) \<and>
    resume_value c (w_channels w' a) = Some (Inr out) \<and>
    join_body (Inr out) = Some (case res of Threw e \<Rightarrow> Threw e | Gave v \<Rightarrow> Gave (Inr v))"
proof -
  let ?out = "outcome_of (end_body res (promise_of w h))"
  obtain w' where w': "final_suspend h (upd_promise h (end_body res) w) =
      Some (w', None, wake_if (o_rt (w_channels w a)) (o_waiter (w_channels w a)))"
    "w_channels w' = (w_channels w)(a := (w_channels w a)\<lparr>o_value := Some ?out, o_ready := True, o_waiter := None\<rparr>)"
    "\<not> fr_alive (w_frames w' h)" "root_chain r w' (remove1 h ys)"
    using final_suspend_spawned [OF assms(1,2), of "end_body res" outcome_of] assms(1,3-5)
    by (auto simp: final_suspend_def spawned_def)
  have "read_outcome ?out = Some res"
    using assms(1) by (intro read_outcome_of) (simp add: spawned_def)
  then have "join_body (Inr ?out) = Some (case res of Threw e \<Rightarrow> Threw e | Gave v \<Rightarrow> Gave (Inr v))"
    by (cases res) (simp_all add: join_body_def)
  with w' show ?thesis
    by (intro exI [of _ w'] exI [of _ ?out]) (simp add: resume_value_def)
qed

lemma root_leaves:
  assumes "root_chain r w ys" and "root_chain r w' (remove1 h ys)" and "h \<in> set ys"
  shows "Suc (rt_live (w_rts w' r)) = rt_live (w_rts w r)"
  using assms length_pos_if_in_set [OF assms(3)] by (simp add: root_chain_def length_remove1)

text \<open>
  Joining a spawned task gives what the task does: when its body ends with a value or an
  exception, and the join handle has not been given up, its final suspension stores the
  outcome in the handle's channel, schedules the coroutine that waits in \<^verbatim>\<open>join()\<close> (if one
  does) and nobody else, takes the task out of the list of live roots, and destroys its frame;
  \<^verbatim>\<open>join()\<close> then returns the value or rethrows the exception.
\<close>

lemma join_returns_task_result:
  assumes "spawned r sc a h w" and "undelivered (w_channels w a)" and "root_chain r w ys"
    and "h \<in> set ys" and "length ys < 2 ^ 64"
  shows "\<exists>w' out. final_suspend h (upd_promise h (end_body res) w) =
      Some (w', None, wake_if (o_rt (w_channels w a)) (o_waiter (w_channels w a))) \<and>
    root_chain r w' (remove1 h ys) \<and> Suc (rt_live (w_rts w' r)) = rt_live (w_rts w r) \<and>
    \<not> fr_alive (w_frames w' h) \<and>
    resume_value c (w_channels w' a) = Some (Inr out) \<and>
    join_body (Inr out) = Some (case res of Threw e \<Rightarrow> Threw e | Gave v \<Rightarrow> Gave (Inr v))"
  using spawned_ends [OF assms] root_leaves [OF assms(3) _ assms(4)] by blast

text \<open>The same of a \<^verbatim>\<open>task<void>\<close>.\<close>

lemma join_returns_void_result:
  assumes "spawned r sc a h w" and "undelivered (w_channels w a)" and "root_chain r w ys"
    and "h \<in> set ys" and "length ys < 2 ^ 64"
  shows "\<exists>w' out. final_suspend_void h (upd_promise h (end_body_void res) w) =
      Some (w', None, wake_if (o_rt (w_channels w a)) (o_waiter (w_channels w a))) \<and>
    root_chain r w' (remove1 h ys) \<and> resume_value c (w_channels w' a) = Some (Inr out) \<and>
    join_body_void (Inr out) = (case res of Threw e \<Rightarrow> Threw e | Gave v \<Rightarrow> Gave (Inr v))"
proof -
  have p: "pr_exception (promise_of w h) = None" using assms(1) by (simp add: spawned_def)
  have e: "pr_sender (end_body_void res (promise_of w h)) = Some a"
    "pr_owner_rt (end_body_void res (promise_of w h)) = Some r" "pr_detached (end_body_void res (promise_of w h))"
    "pr_next (end_body_void res (promise_of w h)) = pr_next (promise_of w h)"
    "pr_prev (end_body_void res (promise_of w h)) = pr_prev (promise_of w h)"
    using assms(1) by (cases res; simp add: spawned_def return_void_def unhandled_exception_def)+
  have j: "join_body_void (Inr (outcome_of_void (end_body_void res (promise_of w h)))) =
      (case res of Threw e \<Rightarrow> Threw e | Gave v \<Rightarrow> Gave (Inr v))"
    using p by (cases res) (simp_all add: join_body_void_def outcome_of_void_def return_void_def
        unhandled_exception_def empty_outcome_def)
  from final_suspend_spawned [OF assms(1,2), of "end_body_void res" outcome_of_void] e assms(3-5) j show ?thesis
    by (auto simp: final_suspend_void_eq resume_value_def)
qed

lemma demo_spawned:
  obtains j w where "spawn 0 (Some 5) 2 3 demo_runtime_world = Some (j, w, [])" "root_chain 0 w [5]"
    "spawned 0 2 3 5 w" "w_channels w 3 = new_oneshot" "rt_live (w_rts w 0) = 1"
proof -
  let ?j = "\<lparr>jh_rt = Some 0, jh_scope = Some 2, jh_rx = \<lparr>r_state = Some 3, r_scope = None\<rparr>\<rparr>"
  have "\<exists>w. spawn 0 (Some 5) 2 3 demo_runtime_world = Some (?j, w, []) \<and> rt_roots_head (w_rts w 0) = Some 5 \<and>
      rt_live (w_rts w 0) = 1 \<and> pr_next (promise_of w 5) = None \<and> pr_prev (promise_of w 5) = None \<and>
      spawned 0 2 3 5 w \<and> w_channels w 3 = new_oneshot"
    by (simp add: spawn_def task_valid_def make_oneshot_def sender_assign_def sender_destroy_def
        task_detach_def task_release_def Let_def register_root_def new_runtime_def spawned_def to_size_def
        schedule_def put_task_in_queue_def)
  then obtain w where w: "spawn 0 (Some 5) 2 3 demo_runtime_world = Some (?j, w, [])"
      "rt_roots_head (w_rts w 0) = Some 5" "rt_live (w_rts w 0) = 1"
      "pr_next (promise_of w 5) = None" "pr_prev (promise_of w 5) = None" "spawned 0 2 3 5 w"
      "w_channels w 3 = new_oneshot"
    by blast
  then have "root_chain 0 w [5]" by (simp add: root_chain_def root_links_def dll_def last_ptr_def)
  with w that show ?thesis by blast
qed

lemma join_returns_task_result_witness:
  "\<exists>j w w' out. spawn 0 (Some 5) 2 3 demo_runtime_world = Some (j, w, []) \<and>
     final_suspend 5 (upd_promise 5 (end_body (Gave 42)) w) = Some (w', None, []) \<and>
     rt_live (w_rts w' 0) = 0 \<and> resume_value False (w_channels w' 3) = Some (Inr out) \<and>
     join_body (Inr out) = Some (Gave (Inr 42))"
proof -
  obtain j w where w: "spawn 0 (Some 5) 2 3 demo_runtime_world = Some (j, w, [])" "root_chain 0 w [5]"
    "spawned 0 2 3 5 w" "w_channels w 3 = new_oneshot" "rt_live (w_rts w 0) = 1"
    by (rule demo_spawned)
  have u: "undelivered (w_channels w 3)"
    by (simp add: w(4) undelivered_def new_oneshot_def)
  have "5 \<in> set [5 :: nat]" "length [5 :: nat] < 2 ^ 64" by simp_all
  from join_returns_task_result [OF w(3) u w(2) this, of "Gave 42" False] w(1,4,5) show ?thesis
    by (auto simp: new_oneshot_def wake_if_def)
qed

text \<open>
  A task that throws does not take a worker down: \<^verbatim>\<open>unhandled_exception\<close> keeps the exception,
  which is the caller's. \<^verbatim>\<open>block_on\<close> stores it in the future, so its wrapper never throws.
\<close>

lemma block_on_returns: "future_get (block_on_body r) = Some r"
  by (cases r) simp_all

section \<open>Destruction\<close>

lemma cancel_sets_flags:
  assumes "cancel_inv cw"
  shows "\<exists>cw' u'. cancel rn s cw u = Some (cw', u') \<and> cancel_inv cw' \<and> cancelled s cw' \<and>
    (\<forall>t. cancelled t cw \<longrightarrow> cancelled t cw')"
proof (cases "cancelled s cw")
  case True
  with assms show ?thesis by (simp add: cancel_def)
next
  case False
  obtain cw' u' where c: "cancel rn s cw u = Some (cw', u')" "cancel_inv cw'"
    using assms by (rule cancel_total)
  obtain xs where "cancel_locked rn s cw u =
      Some (fire_all s xs (upd_scope s (\<lambda>r. r\<lparr>s_cancelled := True\<rparr>) cw), fold rn (callbacks xs cw) u)"
    by (rule cancel_locked_drains [OF assms False])
  with c False show ?thesis
    by (auto simp: cancel_def fire_all_def cancelled_def)
qed

lemma cancel_roots_seg:
  assumes "seg (\<lambda>n. pr_next (promise_of w n)) p pr n xs l None" and "cancel_inv (w_cancel w)"
  shows "\<exists>cw u'. cancel_roots_from rn n w u = Some (w\<lparr>w_cancel := cw\<rparr>, u') \<and> cancel_inv cw \<and>
    (\<forall>t. cancelled t (w_cancel w) \<longrightarrow> cancelled t cw) \<and>
    (\<forall>h \<in> set xs. \<forall>s. pr_scope_raw (promise_of w h) = Some s \<longrightarrow> cancelled s cw)"
  using assms
proof (induction xs arbitrary: n pr w u)
  case Nil
  then show ?case
    by (subst cancel_roots_from.simps) (auto intro!: exI [of _ "w_cancel w"])
next
  case (Cons h xs)
  have n: "n = Some h" and seg: "seg (\<lambda>n. pr_next (promise_of w n)) p (Some h) (pr_next (promise_of w h)) xs l None"
    using Cons.prems(1) by auto
  obtain cw1 u1 where c: "(case pr_scope_raw (promise_of w h) of None \<Rightarrow> Some (w_cancel w, u)
      | Some s \<Rightarrow> cancel rn s (w_cancel w) u) = Some (cw1, u1)" "cancel_inv cw1"
      "\<forall>t. cancelled t (w_cancel w) \<longrightarrow> cancelled t cw1"
      "\<forall>s. pr_scope_raw (promise_of w h) = Some s \<longrightarrow> cancelled s cw1"
    using cancel_sets_flags [OF Cons.prems(2)] Cons.prems(2)
    by (cases "pr_scope_raw (promise_of w h)") fastforce+
  have "seg (\<lambda>n. pr_next (promise_of (w\<lparr>w_cancel := cw1\<rparr>) n)) p (Some h) (pr_next (promise_of w h)) xs l None"
    using seg by simp
  from Cons.IH [OF this, of u1] c(2) obtain cw u' where
    r: "cancel_roots_from rn (pr_next (promise_of w h)) (w\<lparr>w_cancel := cw1\<rparr>) u1 = Some (w\<lparr>w_cancel := cw\<rparr>, u')"
      "cancel_inv cw" "\<forall>t. cancelled t cw1 \<longrightarrow> cancelled t cw"
      "\<forall>h \<in> set xs. \<forall>s. pr_scope_raw (promise_of w h) = Some s \<longrightarrow> cancelled s cw"
    by auto
  have "cancel_roots_from rn n w u = Some (w\<lparr>w_cancel := cw\<rparr>, u')"
    using r(1) c(1) n by (subst cancel_roots_from.simps) simp
  with r c show ?case by auto
qed

text \<open>
  The destructor of the runtime cancels every live root: its walk along the list returns,
  leaves the list, the frames and the run queue alone, and afterwards the scope of each root
  that was live is cancelled, so that every awaiter armed on it has been resolved; and the
  workers are told to stop only when no root is live.
\<close>

lemma destructor_cancels_every_root:
  assumes "root_chain r w xs" and "cancel_inv (w_cancel w)"
  shows "\<exists>cw u'. cancel_roots rn r w u = Some (w\<lparr>w_cancel := cw\<rparr>, u') \<and>
    (\<forall>h \<in> set xs. \<forall>s. pr_scope_raw (promise_of w h) = Some s \<longrightarrow> cancelled s cw \<and> armed_on s cw = {}) \<and>
    (\<forall>w'. request_stop r (w\<lparr>w_cancel := cw\<rparr>) = Some w' \<longrightarrow> xs = [])"
proof -
  have "seg (\<lambda>n. pr_next (promise_of w n)) (\<lambda>n. pr_prev (promise_of w n)) None
      (rt_roots_head (w_rts w r)) xs (last_ptr xs) None"
    using assms(1) by (simp add: root_chain_def root_links_def dll_def)
  from cancel_roots_seg [OF this assms(2), of rn u] obtain cw u' where
    c: "cancel_roots rn r w u = Some (w\<lparr>w_cancel := cw\<rparr>, u')" "cancel_inv cw"
      "\<forall>h \<in> set xs. \<forall>s. pr_scope_raw (promise_of w h) = Some s \<longrightarrow> cancelled s cw"
    unfolding cancel_roots_def by blast
  have "armed_on s cw = {}" if "cancelled s cw" for s
    using c(2) that by (auto simp: cancel_inv_def scope_ok_def cancelled_def)
  with c assms(1) show ?thesis
    by (intro exI [of _ cw] exI [of _ u']) (auto simp: request_stop_def drained_def root_chain_def split: if_splits)
qed

lemma destructor_cancels_every_root_witness:
  "\<exists>j w cw u. spawn 0 (Some 5) 2 3 demo_runtime_world = Some (j, w, []) \<and>
     cancel_roots (\<lambda>g l. g # l) 0 w [] = Some (w\<lparr>w_cancel := cw\<rparr>, u) \<and> cancelled 2 cw"
proof -
  obtain j w where w: "spawn 0 (Some 5) 2 3 demo_runtime_world = Some (j, w, [])" "root_chain 0 w [5]"
    "spawned 0 2 3 5 w" "w_channels w 3 = new_oneshot" "rt_live (w_rts w 0) = 1"
    by (rule demo_spawned)
  have "fresh_world (w_cancel w)"
    using w(1) by (auto simp: spawn_def task_valid_def make_oneshot_def sender_assign_def sender_destroy_def
        task_detach_def task_release_def Let_def fresh_world_def demo_runtime_world_def new_guard_def new_scope_def)
  then have "cancel_inv (w_cancel w)" by (rule fresh_world_inv)
  from destructor_cancels_every_root [OF w(2) this, of "\<lambda>g l. g # l" "[]"] w(1,3) show ?thesis
    by (auto simp: spawned_def)
qed

end
