(* ===== verification/Workers.thy ===== *)
theory Workers
  imports Runtime_Laws
begin

text \<open>
  The worker threads of a runtime (\<^verbatim>\<open>worker::run\<close> in \<^verbatim>\<open>src/runtime.cpp\<close>, the queue operations
  of \<^verbatim>\<open>include/coasio/runtime.hpp\<close>), the condition variable they sleep on, and the part of the
  destructor that stops and joins them, as a step relation. The test of the stop flag at the
  head of the loop is made without the lock, so it is a step of its own; what happens under the
  lock of the queue is one step. While a worker resumes a coroutine, the coroutine may schedule
  others; so may every other thread, at any time. A sleeping worker has no step of its own: it
  goes on when it is notified. It may also wake up for no reason, which is a step beside those
  of the workers and never counted on.
\<close>

section \<open>The run queue as its users see it\<close>

definition schedule_accepts :: "handle \<Rightarrow> runtime \<Rightarrow> bool \<times> runtime" where
  "schedule_accepts h t = (True, schedule (Some h) t)"

definition next_handle :: "runtime \<Rightarrow> handle option \<times> runtime" where
  "next_handle t =
     (case get_next_task_from_queue t of (Got h, t') \<Rightarrow> (Some h, t') | (_, t') \<Rightarrow> (None, t'))"

interpretation run_queue: fifo_queue schedule_accepts next_handle rt_queue
proof unfold_locales
  show "rt_queue t = (case fst (next_handle t) of None \<Rightarrow> [] | Some x \<Rightarrow> [x]) @ rt_queue (snd (next_handle t))"
    for t
    by (cases "rt_queue t") (simp_all add: next_handle_def get_next_task_from_queue_def)
qed (simp add: schedule_accepts_def schedule_def put_task_in_queue_def)

lemma get_next_cases:
  "get_next_task_from_queue t = (Blocked, t') \<longleftrightarrow> rt_queue t = [] \<and> \<not> rt_stop t \<and> t' = t"
  "get_next_task_from_queue t = (No_task, t') \<longleftrightarrow> rt_queue t = [] \<and> rt_stop t \<and> t' = t"
  "get_next_task_from_queue t = (Got h, t') \<longleftrightarrow>
     (\<exists>hs. rt_queue t = h # hs \<and> t' = t\<lparr>rt_queue := hs\<rparr>)"
  by (auto simp: get_next_task_from_queue_def neq_Nil_conv)

section \<open>Threads\<close>

text \<open>
  A worker tests the flag, is about to take the lock (or to test the condition again after
  waking up), sleeps, resumes a coroutine, or has left its loop.
\<close>

datatype worker = At_test | At_queue | On_queue | Resuming handle | Gone

datatype worker_log = Scheduled handle | Resumed handle | Suspended handle

record workers =
  ws_rt :: runtime
  ws_threads :: "worker list"
  ws_phase :: phase

definition new_workers :: "nat \<Rightarrow> workers" where
  "new_workers n = \<lparr>ws_rt = new_runtime, ws_threads = replicate n At_test, ws_phase = Alive\<rparr>"

abbreviation at :: "nat \<Rightarrow> worker \<Rightarrow> workers \<Rightarrow> bool" where
  "at i t s \<equiv> i < length (ws_threads s) \<and> ws_threads s ! i = t"

definition goes :: "nat \<Rightarrow> worker \<Rightarrow> workers \<Rightarrow> workers" where
  "goes i t s = s\<lparr>ws_threads := (ws_threads s)[i := t]\<rparr>"

inductive run_step :: "workers \<Rightarrow> worker_log list \<Rightarrow> workers \<Rightarrow> bool" where
  w_leave: "\<lbrakk>at i At_test s; rt_stop (ws_rt s)\<rbrakk> \<Longrightarrow> run_step s [] (goes i Gone s)"
| w_enter: "\<lbrakk>at i At_test s; \<not> rt_stop (ws_rt s)\<rbrakk> \<Longrightarrow> run_step s [] (goes i At_queue s)"
| w_sleep: "\<lbrakk>at i At_queue s; get_next_task_from_queue (ws_rt s) = (Blocked, t)\<rbrakk> \<Longrightarrow>
    run_step s [] (goes i On_queue (s\<lparr>ws_rt := t\<rparr>))"
| w_nothing: "\<lbrakk>at i At_queue s; get_next_task_from_queue (ws_rt s) = (No_task, t)\<rbrakk> \<Longrightarrow>
    run_step s [] (goes i At_test (s\<lparr>ws_rt := t\<rparr>))"
| w_resume: "\<lbrakk>at i At_queue s; get_next_task_from_queue (ws_rt s) = (Got h, t)\<rbrakk> \<Longrightarrow>
    run_step s [Resumed h] (goes i (Resuming h) (s\<lparr>ws_rt := t\<rparr>))"
| w_back: "at i (Resuming h) s \<Longrightarrow> run_step s [Suspended h] (goes i At_test s)"

text \<open>Wake-ups for no reason.\<close>

definition spurious_wakeup :: "workers \<Rightarrow> workers \<Rightarrow> bool" where
  "spurious_wakeup s s' \<longleftrightarrow> (\<exists>i. at i On_queue s \<and> s' = goes i At_queue s)"

text \<open>Scheduling, by any thread.\<close>

inductive env_step :: "workers \<Rightarrow> worker_log list \<Rightarrow> workers \<Rightarrow> bool" where
  e_schedule: "notify_one On_queue At_queue (ws_threads s) ts \<Longrightarrow>
    env_step s [Scheduled h] (s\<lparr>ws_rt := schedule (Some h) (ws_rt s), ws_threads := ts\<rparr>)"

text \<open>The destructor sets the flag and notifies everybody.\<close>

inductive stop_step :: "workers \<Rightarrow> workers \<Rightarrow> bool" where
  e_stop: "ws_phase s = Alive \<Longrightarrow>
    stop_step s (s\<lparr>ws_rt := (ws_rt s)\<lparr>rt_stop := True\<rparr>, ws_phase := Stopping\<rparr>)"
| e_notify: "ws_phase s = Stopping \<Longrightarrow>
    stop_step s (s\<lparr>ws_threads := notify_all On_queue At_queue (ws_threads s), ws_phase := Joining\<rparr>)"

inductive runtime_run :: "workers \<Rightarrow> worker_log list \<Rightarrow> workers \<Rightarrow> bool" for s0 where
  r_start: "runtime_run s0 [] s0"
| r_work: "runtime_run s0 l s \<Longrightarrow> run_step s k s' \<Longrightarrow> runtime_run s0 (l @ k) s'"
| r_env: "runtime_run s0 l s \<Longrightarrow> env_step s k s' \<Longrightarrow> runtime_run s0 (l @ k) s'"
| r_stop: "runtime_run s0 l s \<Longrightarrow> stop_step s s' \<Longrightarrow> runtime_run s0 l s'"
| r_wake: "runtime_run s0 l s \<Longrightarrow> spurious_wakeup s s' \<Longrightarrow> runtime_run s0 l s'"

inductive_cases run_stepE: "run_step s k s'"

section \<open>Invariants\<close>

definition awake :: "worker \<Rightarrow> bool" where
  "awake t \<longleftrightarrow> t \<noteq> On_queue \<and> t \<noteq> Gone"

definition workers_inv :: "workers \<Rightarrow> bool" where
  "workers_inv s \<longleftrightarrow>
     (rt_queue (ws_rt s) \<noteq> [] \<and> \<not> rt_stop (ws_rt s) \<longrightarrow>
        ws_threads s = [] \<or> (\<exists>t \<in> set (ws_threads s). awake t)) \<and>
     (Gone \<in> set (ws_threads s) \<longrightarrow> rt_stop (ws_rt s)) \<and>
     (rt_stop (ws_rt s) \<longleftrightarrow> ws_phase s \<noteq> Alive) \<and>
     (ws_phase s = Joining \<longrightarrow> On_queue \<notin> set (ws_threads s))"

lemma goes_simps [simp]:
  "ws_rt (goes i t s) = ws_rt s" "ws_phase (goes i t s) = ws_phase s"
  "ws_threads (goes i t s) = (ws_threads s)[i := t]"
  by (simp_all add: goes_def)

lemma run_step_inv: "run_step s k s' \<Longrightarrow> workers_inv s \<Longrightarrow> workers_inv s'"
proof (induction rule: run_step.induct)
  case (w_enter i s)
  then show ?case
    using update_sat [of i "ws_threads s" awake At_queue]
    by (auto simp: workers_inv_def awake_def dest!: set_update_sub)
next
  case (w_resume i s h t)
  then show ?case
    using update_sat [of i "ws_threads s" awake "Resuming h"]
    by (auto simp: workers_inv_def get_next_cases awake_def dest!: set_update_sub)
next
  case (w_back i h s)
  then show ?case
    using update_sat [of i "ws_threads s" awake At_test]
    by (auto simp: workers_inv_def awake_def dest!: set_update_sub)
qed (auto simp: workers_inv_def get_next_cases dest!: set_update_sub)

lemma env_step_inv: "env_step s k s' \<Longrightarrow> workers_inv s \<Longrightarrow> workers_inv s'"
proof (induction rule: env_step.induct)
  case (e_schedule s ts h)
  have r: "rt_stop (schedule (Some h) (ws_rt s)) = rt_stop (ws_rt s)"
    by (simp add: schedule_def put_task_in_queue_def)
  have g: "Gone \<in> set ts \<Longrightarrow> Gone \<in> set (ws_threads s)" "On_queue \<in> set ts \<Longrightarrow> On_queue \<in> set (ws_threads s)"
    using e_schedule(1) by (auto simp: notify_one_def dest!: set_update_sub split: if_splits)
  have "ts = [] \<or> (\<exists>t \<in> set ts. awake t)" if "Gone \<notin> set (ws_threads s)"
    using notify_one_awake [OF e_schedule(1), of awake Gone] that by (auto simp: awake_def)
  with e_schedule(2) r g show ?case by (auto simp: workers_inv_def)
qed

lemma stop_step_inv: "stop_step s s' \<Longrightarrow> workers_inv s \<Longrightarrow> workers_inv s'"
  by (induction rule: stop_step.induct)
    (auto simp: workers_inv_def notify_all_def image_iff split: if_splits)

lemma spurious_wakeup_inv: "spurious_wakeup s s' \<Longrightarrow> workers_inv s \<Longrightarrow> workers_inv s'"
  using update_sat [of _ "ws_threads s" awake At_queue]
  by (auto simp: spurious_wakeup_def workers_inv_def awake_def dest!: set_update_sub)

lemma runtime_run_inv: "runtime_run (new_workers n) l s \<Longrightarrow> workers_inv s"
proof (induction rule: runtime_run.induct)
  case r_start
  show ?case by (auto simp: workers_inv_def new_workers_def new_runtime_def)
qed (auto intro: run_step_inv env_step_inv stop_step_inv spurious_wakeup_inv)

lemma runtime_run_length: "runtime_run (new_workers n) l s \<Longrightarrow> length (ws_threads s) = n"
proof (induction rule: runtime_run.induct)
  case (r_work l s k s')
  from r_work(2,3) show ?case by (cases rule: run_step.cases) auto
next
  case (r_env l s k s')
  from r_env(2,3) show ?case by (cases rule: env_step.cases) auto
next
  case (r_stop l s s')
  from r_stop(2,3) show ?case by (cases rule: stop_step.cases) auto
next
  case (r_wake l s s')
  then show ?case by (auto simp: spurious_wakeup_def)
qed (simp add: new_workers_def)

section \<open>The books of the run queue\<close>

definition schedules :: "worker_log list \<Rightarrow> handle list" where
  "schedules l = concat (map (\<lambda>e. case e of Scheduled h \<Rightarrow> [h] | _ \<Rightarrow> []) l)"

definition resumes :: "worker_log list \<Rightarrow> handle list" where
  "resumes l = concat (map (\<lambda>e. case e of Resumed h \<Rightarrow> [h] | _ \<Rightarrow> []) l)"

lemma log_simps [simp]:
  "schedules [] = []" "schedules (a @ b) = schedules a @ schedules b" "schedules [Scheduled h] = [h]"
  "schedules [Resumed h] = []" "schedules [Suspended h] = []"
  "resumes [] = []" "resumes (a @ b) = resumes a @ resumes b" "resumes [Scheduled h] = []"
  "resumes [Resumed h] = [h]" "resumes [Suspended h] = []"
  by (simp_all add: schedules_def resumes_def)

definition run_books :: "worker_log list \<Rightarrow> workers \<Rightarrow> bool" where
  "run_books l s \<longleftrightarrow> resumes l @ rt_queue (ws_rt s) = schedules l \<and>
     (\<forall>h. count_list l (Resumed h) = count_list l (Suspended h) + count_list (ws_threads s) (Resuming h))"

lemma next_handle_simps:
  "get_next_task_from_queue t = (Got h, t') \<Longrightarrow> next_handle t = (Some h, t')"
  "get_next_task_from_queue t = (Blocked, t') \<Longrightarrow> next_handle t = (None, t')"
  "get_next_task_from_queue t = (No_task, t') \<Longrightarrow> next_handle t = (None, t')"
  by (simp_all add: next_handle_def)

lemma goes_count:
  "i < length (ws_threads s) \<Longrightarrow>
   count_list (ws_threads (goes i t s)) a + of_bool (ws_threads s ! i = a) =
   count_list (ws_threads s) a + (of_bool (t = a) :: nat)"
  by (simp add: count_list_update)

lemma goes_other [simp]:
  "i < length ts \<Longrightarrow> ts ! i \<noteq> a \<Longrightarrow> t \<noteq> a \<Longrightarrow> count_list (ts[i := t]) a = count_list ts a"
  using count_list_update [of i ts t a] by simp

lemma run_step_books: "run_step s k s' \<Longrightarrow> run_books l s \<Longrightarrow> run_books (l @ k) s'"
proof (induction rule: run_step.induct)
  case (w_sleep i s t)
  with run_queue.next_None [of "ws_rt s"] show ?case
    by (auto simp: run_books_def next_handle_simps)
next
  case (w_nothing i s t)
  with run_queue.next_None [of "ws_rt s"] show ?case
    by (auto simp: run_books_def next_handle_simps)
next
  case (w_resume i s h t)
  have "rt_queue (ws_rt s) = h # rt_queue t"
    using run_queue.next_Some [of "ws_rt s" h] next_handle_simps(1) [OF w_resume(2)] by simp
  moreover have "count_list ((ws_threads s)[i := Resuming h]) (Resuming h) = Suc (count_list (ws_threads s) (Resuming h))"
    using count_list_update [of i "ws_threads s" "Resuming h" "Resuming h"] w_resume(1) by simp
  ultimately show ?case using w_resume by (auto simp: run_books_def)
next
  case (w_back i h s)
  have "count_list (ws_threads s) (Resuming h) = Suc (count_list (ws_threads (goes i At_test s)) (Resuming h))"
    and "g \<noteq> h \<Longrightarrow> count_list (ws_threads (goes i At_test s)) (Resuming g) = count_list (ws_threads s) (Resuming g)" for g
    using goes_count [of i s At_test "Resuming h"] goes_count [of i s At_test "Resuming g"] w_back(1) by auto
  with w_back show ?case by (auto simp: run_books_def)
qed (auto simp: run_books_def)

lemma env_step_books: "env_step s k s' \<Longrightarrow> run_books l s \<Longrightarrow> run_books (l @ k) s'"
proof (induction rule: env_step.induct)
  case (e_schedule s ts h)
  have "rt_queue (schedule (Some h) (ws_rt s)) = rt_queue (ws_rt s) @ [h]"
    using run_queue.submit_content [of h "ws_rt s"] by (simp add: schedule_accepts_def)
  moreover have "count_list ts (Resuming g) = count_list (ws_threads s) (Resuming g)" for g
    using e_schedule(1) by (intro notify_count) auto
  ultimately show ?case using e_schedule by (auto simp: run_books_def)
qed

lemma stop_step_books: "stop_step s s' \<Longrightarrow> run_books l s \<Longrightarrow> run_books l s'"
  by (induction rule: stop_step.induct) (auto simp: run_books_def notify_count)

lemma spurious_wakeup_books: "spurious_wakeup s s' \<Longrightarrow> run_books l s \<Longrightarrow> run_books l s'"
  by (auto simp: spurious_wakeup_def run_books_def)

lemma count_replicate_test [simp]: "count_list (replicate n At_test) (Resuming h) = 0"
  by (induction n) auto

lemma runtime_run_books: "runtime_run (new_workers n) l s \<Longrightarrow> run_books l s"
proof (induction rule: runtime_run.induct)
  case r_start
  show ?case by (simp add: run_books_def new_workers_def new_runtime_def)
qed (auto intro: run_step_books env_step_books stop_step_books spurious_wakeup_books)

section \<open>What the workers promise\<close>

text \<open>Steps of the workers alone.\<close>

abbreviation workers_alone :: "nat \<Rightarrow> workers \<Rightarrow> worker_log list \<Rightarrow> workers \<Rightarrow> bool" where
  "workers_alone \<equiv> steps run_step (\<lambda>_ _ _. False)"

lemma workers_alone_one: "run_step s k s' \<Longrightarrow> workers_alone 1 s k s'"
  by (metis One_nat_def append.right_neutral steps.idle steps.more)

lemma workers_alone_more:
  "run_step s k s1 \<Longrightarrow> workers_alone m s1 l s' \<Longrightarrow> workers_alone (Suc m) s (k @ l) s'"
  by (rule steps.more)

text \<open>
  A worker that is awake takes the first handle in at most three steps: it finishes what it
  resumes, tests the flag, takes.
\<close>

lemma at_queue_takes:
  assumes "at i At_queue s" and "rt_queue (ws_rt s) = h # hs"
  shows "\<exists>s'. workers_alone 1 s [Resumed h] s'"
proof -
  have "get_next_task_from_queue (ws_rt s) = (Got h, (ws_rt s)\<lparr>rt_queue := hs\<rparr>)"
    using assms(2) by (simp add: get_next_cases)
  from workers_alone_one [OF run_step.w_resume [OF assms(1) this]] show ?thesis by blast
qed

lemma at_test_takes:
  assumes "at i At_test s" and "\<not> rt_stop (ws_rt s)" and "rt_queue (ws_rt s) = h # hs"
  shows "\<exists>s'. workers_alone 2 s [Resumed h] s'"
proof -
  have "at i At_queue (goes i At_queue s)" using assms(1) by simp
  from at_queue_takes [OF this] assms(3) obtain s' where "workers_alone 1 (goes i At_queue s) [Resumed h] s'"
    by auto
  from workers_alone_more [OF run_step.w_enter [OF assms(1,2)] this] show ?thesis
    by (auto simp: numeral_2_eq_2)
qed

lemma resuming_takes:
  assumes "at i (Resuming g) s" and "\<not> rt_stop (ws_rt s)" and "rt_queue (ws_rt s) = h # hs"
  shows "\<exists>s'. workers_alone 3 s [Suspended g, Resumed h] s'"
proof -
  have "at i At_test (goes i At_test s)" using assms(1) by simp
  from at_test_takes [OF this] assms(2,3) obtain s' where "workers_alone 2 (goes i At_test s) [Resumed h] s'"
    by auto
  from workers_alone_more [OF run_step.w_back [OF assms(1)] this] show ?thesis
    by (auto simp: numeral_2_eq_2 numeral_3_eq_3)
qed

lemma awake_takes:
  assumes "i < length (ws_threads s)" "awake (ws_threads s ! i)" "\<not> rt_stop (ws_rt s)"
    and "rt_queue (ws_rt s) = h # hs"
  shows "\<exists>m k s'. m \<le> 3 \<and> workers_alone m s (k @ [Resumed h]) s' \<and> resumes k = []"
proof (cases "ws_threads s ! i")
  case At_test
  with at_test_takes [of i s h hs] assms show ?thesis by (intro exI [of _ 2] exI [of _ "[]"]) auto
next
  case At_queue
  with at_queue_takes [of i s h hs] assms show ?thesis by (intro exI [of _ 1] exI [of _ "[]"]) auto
next
  case (Resuming g)
  with resuming_takes [of i s g h hs] assms show ?thesis
    by (intro exI [of _ 3] exI [of _ "[Suspended g]"]) auto
qed (use assms(2) in \<open>simp_all add: awake_def\<close>)

text \<open>
  C26. The workers resume every scheduled coroutine once and in order: along every run of the
  threads, with any wake-ups, the handles resumed so far followed by those in the run queue are
  those scheduled so far; a handle is resumed on one thread for each time it was scheduled.
  While the runtime is not being destroyed, a queued handle is never left while all workers
  sleep: some worker is awake, and without being woken, by anything scheduled or for no reason,
  the workers can resume the first handle in at most three steps (what a worker is resuming
  suspending or ending first).
\<close>

theorem scheduled_coroutines_are_resumed:
  assumes "runtime_run (new_workers n) l s"
  shows "resumes l @ rt_queue (ws_rt s) = schedules l \<and>
    count_list l (Resumed h) = count_list l (Suspended h) + count_list (ws_threads s) (Resuming h) \<and>
    (0 < n \<and> ws_phase s = Alive \<and> rt_queue (ws_rt s) \<noteq> [] \<longrightarrow>
      (\<exists>t \<in> set (ws_threads s). t \<noteq> On_queue) \<and>
      (\<exists>m k s'. m \<le> 3 \<and> workers_alone m s (k @ [Resumed (hd (rt_queue (ws_rt s)))]) s' \<and> resumes k = []))"
proof -
  note books = runtime_run_books [OF assms, unfolded run_books_def]
  have "(\<exists>t \<in> set (ws_threads s). t \<noteq> On_queue) \<and>
      (\<exists>m k s'. m \<le> 3 \<and> workers_alone m s (k @ [Resumed (hd (rt_queue (ws_rt s)))]) s' \<and> resumes k = [])"
    if a: "0 < n" "ws_phase s = Alive" "rt_queue (ws_rt s) \<noteq> []"
  proof -
    have nostop: "\<not> rt_stop (ws_rt s)" and "ws_threads s \<noteq> []"
      using a runtime_run_inv [OF assms] runtime_run_length [OF assms] by (auto simp: workers_inv_def)
    with a(3) obtain i where i: "i < length (ws_threads s)" "awake (ws_threads s ! i)"
      using runtime_run_inv [OF assms] by (auto simp: workers_inv_def in_set_conv_nth)
    moreover have "ws_threads s ! i \<noteq> On_queue" using i(2) by (simp add: awake_def)
    ultimately show ?thesis
      using awake_takes [OF i nostop, of "hd (rt_queue (ws_rt s))" "tl (rt_queue (ws_rt s))"] a(3)
      by (metis list.collapse nth_mem)
  qed
  with books show ?thesis by blast
qed

text \<open>A run for the examples: two workers, a handle scheduled; then one takes the lock, and the handle.\<close>

lemma demo_workers:
  "runtime_run (new_workers 2) [Scheduled 7]
     \<lparr>ws_rt = new_runtime\<lparr>rt_queue := [7]\<rparr>, ws_threads = [At_test, At_test], ws_phase = Alive\<rparr>"
  "runtime_run (new_workers 2) [Scheduled 7, Resumed 7]
     \<lparr>ws_rt = new_runtime, ws_threads = [Resuming 7, At_test], ws_phase = Alive\<rparr>"
proof -
  let ?s = "\<lparr>ws_rt = new_runtime\<lparr>rt_queue := [7]\<rparr>, ws_threads = [At_test, At_test], ws_phase = Alive\<rparr>"
  have "env_step (new_workers 2) [Scheduled 7] ?s"
    using env_step.e_schedule [of "new_workers 2" "[At_test, At_test]" 7]
    by (simp add: new_workers_def notify_one_def schedule_def put_task_in_queue_def numeral_2_eq_2 new_runtime_def)
  with runtime_run.r_start have "runtime_run (new_workers 2) ([] @ [Scheduled 7]) ?s" by (rule runtime_run.r_env)
  then show 1: "runtime_run (new_workers 2) [Scheduled 7] ?s" by simp
  have "run_step ?s [] (goes 0 At_queue ?s)"
    by (rule run_step.w_enter) (simp_all add: new_runtime_def)
  with 1 have 2: "runtime_run (new_workers 2) ([Scheduled 7] @ []) (goes 0 At_queue ?s)" by (rule runtime_run.r_work)
  have "run_step (goes 0 At_queue ?s) [Resumed 7] (goes 0 (Resuming 7) ((goes 0 At_queue ?s)\<lparr>ws_rt := new_runtime\<rparr>))"
    by (rule run_step.w_resume) (simp_all add: get_next_task_from_queue_def new_runtime_def)
  with 2 have "runtime_run (new_workers 2) (([Scheduled 7] @ []) @ [Resumed 7])
      (goes 0 (Resuming 7) ((goes 0 At_queue ?s)\<lparr>ws_rt := new_runtime\<rparr>))" by (rule runtime_run.r_work)
  then show "runtime_run (new_workers 2) [Scheduled 7, Resumed 7]
      \<lparr>ws_rt = new_runtime, ws_threads = [Resuming 7, At_test], ws_phase = Alive\<rparr>"
    by (simp add: goes_def)
qed

theorem scheduled_coroutines_are_resumed_witness:
  "\<exists>l s m k s'. runtime_run (new_workers 2) l s \<and> rt_queue (ws_rt s) = [7] \<and> schedules l = [7] \<and> resumes l = [] \<and>
     m \<le> 3 \<and> workers_alone m s (k @ [Resumed 7]) s'"
proof -
  let ?s = "\<lparr>ws_rt = new_runtime\<lparr>rt_queue := [7]\<rparr>, ws_threads = [At_test, At_test], ws_phase = Alive\<rparr>"
  obtain m k s' where "m \<le> 3" "workers_alone m ?s (k @ [Resumed 7]) s'"
    using scheduled_coroutines_are_resumed [OF demo_workers(1)] by auto
  then show ?thesis
    using demo_workers(1)
    by (intro exI [of _ "[Scheduled 7]"] exI [of _ ?s] exI [of _ m] exI [of _ k] exI [of _ s']) simp
qed

section \<open>Joining the workers\<close>

fun steps_left :: "worker \<Rightarrow> nat" where
  "steps_left Gone = 0"
| "steps_left At_test = 1"
| "steps_left (Resuming h) = 2"
| "steps_left At_queue = 3"
| "steps_left On_queue = 4"

definition workers_left :: "workers \<Rightarrow> nat" where
  "workers_left s = sum_list (map steps_left (ws_threads s))"

lemma goes_left:
  "i < length (ws_threads s) \<Longrightarrow>
   workers_left (goes i t s) + steps_left (ws_threads s ! i) = workers_left s + steps_left t"
  by (simp add: workers_left_def sum_list_update_nat)

lemma stopping_step_closer:
  "run_step s k s' \<Longrightarrow> workers_inv s \<Longrightarrow> ws_phase s \<noteq> Alive \<Longrightarrow>
   ws_phase s' = ws_phase s \<and> workers_left s' < workers_left s"
proof (induction rule: run_step.induct)
  case (w_leave i s)
  with goes_left [of i s Gone] show ?case by simp
next
  case (w_enter i s)
  then show ?case by (auto simp: workers_inv_def)
next
  case (w_sleep i s t)
  then show ?case by (auto simp: workers_inv_def get_next_cases)
next
  case (w_nothing i s t)
  with goes_left [of i "s\<lparr>ws_rt := t\<rparr>" At_test] show ?case by (simp add: workers_left_def)
next
  case (w_resume i s h t)
  with goes_left [of i "s\<lparr>ws_rt := t\<rparr>" "Resuming h"] show ?case by (simp add: workers_left_def)
next
  case (w_back i h s)
  with goes_left [of i s At_test] show ?case by simp
qed

lemma notify_one_left:
  "notify_one On_queue At_queue ts ts' \<Longrightarrow> sum_list (map steps_left ts') \<le> sum_list (map steps_left ts)"
  using sum_list_update_nat [of _ ts steps_left At_queue]
  by (fastforce simp: notify_one_def split: if_splits)

lemma notify_all_left:
  "sum_list (map steps_left (notify_all On_queue At_queue ts)) \<le> sum_list (map steps_left ts)"
  by (induction ts) (auto simp: notify_all_def)

lemma scheduling_no_further:
  "env_step s k s' \<Longrightarrow> ws_phase s' = ws_phase s \<and> workers_left s' \<le> workers_left s \<and>
     (ws_threads s' = [] \<longleftrightarrow> ws_threads s = [])"
  by (induction rule: env_step.induct)
    (auto simp: workers_left_def notify_one_left dest: notify_length(1))

lemma wakeup_no_further:
  "spurious_wakeup s s' \<Longrightarrow> ws_phase s' = ws_phase s \<and> workers_left s' \<le> workers_left s"
  using goes_left [of _ s At_queue] by (fastforce simp: spurious_wakeup_def)

lemma joining_can_step:
  assumes "workers_inv s" and "ws_phase s = Joining" and "\<not> set (ws_threads s) \<subseteq> {Gone}"
  shows "\<exists>k s'. run_step s k s'"
proof -
  obtain i where i: "i < length (ws_threads s)" "ws_threads s ! i \<noteq> Gone"
    using assms(3) by (metis in_set_conv_nth insertI1 subsetI)
  have stop: "rt_stop (ws_rt s)" and "ws_threads s ! i \<noteq> On_queue"
    using assms(1,2) i(1) by (auto simp: workers_inv_def in_set_conv_nth)
  then show ?thesis
  proof (cases "ws_threads s ! i")
    case At_queue
    obtain r t where r: "get_next_task_from_queue (ws_rt s) = (r, t)" by fastforce
    with i(1) At_queue show ?thesis by (cases r) (blast intro: run_step.intros)+
  qed (use i stop in \<open>blast intro: run_step.intros\<close>)+
qed

lemma workers_left_bound:
  assumes "runtime_run (new_workers n) l s"
  shows "workers_left s \<le> 4 * n"
proof -
  have "steps_left t \<le> 4" for t by (cases t) auto
  then have "sum_list (map steps_left ts) \<le> 4 * length ts" for ts
    by (induction ts) (auto intro: order_trans [OF add_mono])
  then show ?thesis using runtime_run_length [OF assms] by (simp add: workers_left_def flip: runtime_run_length [OF assms])
qed

text \<open>
  For the examples: the run above, the other worker having gone to sleep before the destructor
  sets the flag.
\<close>

lemma demo_stopping:
  obtains l s where "runtime_run (new_workers 2) l s" "ws_phase s = Stopping" "Resumed 7 \<in> set l"
    "ws_threads s = [Resuming 7, On_queue]"
proof -
  let ?s = "\<lparr>ws_rt = new_runtime, ws_threads = [Resuming 7, At_test], ws_phase = Alive\<rparr>"
  let ?s1 = "goes 1 On_queue (goes 1 At_queue ?s)"
  let ?s2 = "?s1\<lparr>ws_rt := (ws_rt ?s1)\<lparr>rt_stop := True\<rparr>, ws_phase := Stopping\<rparr>"
  let ?l = "[Scheduled 7, Resumed 7]"
  have "run_step ?s [] (goes 1 At_queue ?s)" by (rule run_step.w_enter) (simp_all add: new_runtime_def)
  with demo_workers(2) have "runtime_run (new_workers 2) (?l @ []) (goes 1 At_queue ?s)" by (rule runtime_run.r_work)
  moreover have "run_step (goes 1 At_queue ?s) [] ?s1"
    using run_step.w_sleep [of 1 "goes 1 At_queue ?s" "ws_rt ?s"]
    by (simp add: get_next_cases goes_def new_runtime_def)
  ultimately have "runtime_run (new_workers 2) ((?l @ []) @ []) ?s1" by (rule runtime_run.r_work)
  moreover have "stop_step ?s1 ?s2" by (rule stop_step.e_stop) simp
  ultimately have "runtime_run (new_workers 2) ((?l @ []) @ []) ?s2" by (rule runtime_run.r_stop)
  then have "runtime_run (new_workers 2) ?l ?s2" by simp
  then show thesis by (rule that) simp_all
qed

section \<open>A corner the code leaves open\<close>

text \<open>
  Once the flag is set, a worker that comes back to the head of its loop leaves, even if handles
  are queued; these are never resumed, and their frames are not destroyed.
\<close>

lemma stopped_worker_leaves_work:
  assumes "at i At_test s" and "rt_stop (ws_rt s)" and "run_step s k s'" and "ws_threads s = [At_test]"
  shows "k = [] \<and> ws_threads s' = [Gone] \<and> rt_queue (ws_rt s') = rt_queue (ws_rt s)"
  using assms(3) by (cases rule: run_stepE) (use assms in \<open>auto simp: goes_def\<close>)

end
