(* ===== verification/Destructor.thy ===== *)
theory Destructor
  imports Workers
begin

text \<open>
  The threads of \<^verbatim>\<open>asio::io_context\<close> (\<^verbatim>\<open>io_worker::run\<close> in \<^verbatim>\<open>src/runtime.cpp\<close>) beside the workers, and
  the end of \<^verbatim>\<open>~runtime\<close>, from the setting of the flag on, which comes after the drain wait: it
  notifies the workers, resets the work guard, polls the context, joins the threads of the
  context and then the workers.

  The context is Asio's, a parameter: in a state it has the handlers that may be the next to be
  executed, each with the coroutine it schedules, if any, and the state it leaves; and it has
  unfinished work or not. Asio documents that \<^verbatim>\<open>run()\<close> executes handlers until no work is left, the
  work guard counting as work, and that \<^verbatim>\<open>poll()\<close> executes those that are ready.
\<close>

record 'io io_api =
  io_handlers :: "'io \<Rightarrow> (handle option \<times> 'io) list"
  io_work :: "'io \<Rightarrow> bool"

datatype io_thread = In_run | Io_gone

datatype dtor_phase = Flagged | Notified | Polling | Joining_io | Joining_workers | Returned

record 'io dtor =
  dt_ws :: workers
  dt_io :: 'io
  dt_guard :: bool
  dt_io_threads :: "io_thread list"
  dt_phase :: dtor_phase

text \<open>The runtime, its workers being in the state \<open>t\<close>, when its destructor has set the flag.\<close>

definition dtor_flagged :: "workers \<Rightarrow> 'io \<Rightarrow> nat \<Rightarrow> 'io dtor" where
  "dtor_flagged t io m = \<lparr>dt_ws = t, dt_io = io, dt_guard = True,
     dt_io_threads = replicate m In_run, dt_phase = Flagged\<rparr>"

text \<open>Executing one handler.\<close>

definition handled ::
  "'io io_api \<Rightarrow> 'io dtor \<Rightarrow> worker_log list \<Rightarrow> 'io dtor \<Rightarrow> bool" where
  "handled api s k s' \<longleftrightarrow> (\<exists>h io t. (h, io) \<in> set (io_handlers api (dt_io s)) \<and>
     (case h of None \<Rightarrow> k = [] \<and> t = dt_ws s
      | Some h \<Rightarrow> k = [Scheduled h] \<and> env_step (dt_ws s) k t) \<and>
     s' = s\<lparr>dt_io := io, dt_ws := t\<rparr>)"

inductive dtor_step :: "'io io_api \<Rightarrow> 'io dtor \<Rightarrow> worker_log list \<Rightarrow> 'io dtor \<Rightarrow> bool" for api where
  d_worker: "run_step (dt_ws s) k t \<Longrightarrow> dtor_step api s k (s\<lparr>dt_ws := t\<rparr>)"
| d_handler: "\<lbrakk>In_run \<in> set (dt_io_threads s); handled api s k s'\<rbrakk> \<Longrightarrow> dtor_step api s k s'"
| d_run_returns: "\<lbrakk>i < length (dt_io_threads s); dt_io_threads s ! i = In_run; \<not> dt_guard s;
      \<not> io_work api (dt_io s)\<rbrakk> \<Longrightarrow>
    dtor_step api s [] (s\<lparr>dt_io_threads := (dt_io_threads s)[i := Io_gone]\<rparr>)"
| d_notify: "\<lbrakk>dt_phase s = Flagged; stop_step (dt_ws s) t\<rbrakk> \<Longrightarrow>
    dtor_step api s [] (s\<lparr>dt_ws := t, dt_phase := Notified\<rparr>)"
| d_reset: "dt_phase s = Notified \<Longrightarrow> dtor_step api s [] (s\<lparr>dt_guard := False, dt_phase := Polling\<rparr>)"
| d_poll: "\<lbrakk>dt_phase s = Polling; handled api s k s'\<rbrakk> \<Longrightarrow> dtor_step api s k s'"
| d_polled: "dt_phase s = Polling \<Longrightarrow> dtor_step api s [] (s\<lparr>dt_phase := Joining_io\<rparr>)"
| d_join_io: "\<lbrakk>dt_phase s = Joining_io; set (dt_io_threads s) \<subseteq> {Io_gone}\<rbrakk> \<Longrightarrow>
    dtor_step api s [] (s\<lparr>dt_io_threads := [], dt_phase := Joining_workers\<rparr>)"
| d_join_workers: "\<lbrakk>dt_phase s = Joining_workers; set (ws_threads (dt_ws s)) \<subseteq> {Gone}\<rbrakk> \<Longrightarrow>
    dtor_step api s [] (s\<lparr>dt_ws := (dt_ws s)\<lparr>ws_threads := []\<rparr>, dt_phase := Returned\<rparr>)"

text \<open>
  Beside these: until the destructor has returned any thread may schedule a coroutine, and
  sleeping workers may wake up for no reason.
\<close>

definition dtor_beside :: "'io dtor \<Rightarrow> worker_log list \<Rightarrow> 'io dtor \<Rightarrow> bool" where
  "dtor_beside s k s' \<longleftrightarrow> dt_phase s \<noteq> Returned \<and> (\<exists>t. s' = s\<lparr>dt_ws := t\<rparr> \<and>
     (env_step (dt_ws s) k t \<or> k = [] \<and> spurious_wakeup (dt_ws s) t))"

abbreviation dtor_run :: "'io io_api \<Rightarrow> nat \<Rightarrow> 'io dtor \<Rightarrow> worker_log list \<Rightarrow> 'io dtor \<Rightarrow> bool" where
  "dtor_run api \<equiv> steps (dtor_step api) dtor_beside"

text \<open>
  What the destructor relies on: operations in flight complete, and as no coroutine is left that
  could start another (all roots have finished), what is outstanding is finite, with a bound \<open>lft\<close>.
\<close>

definition io_finite :: "'io io_api \<Rightarrow> ('io \<Rightarrow> nat) \<Rightarrow> bool" where
  "io_finite api lft \<longleftrightarrow> (\<forall>io. (io_work api io \<longleftrightarrow> io_handlers api io \<noteq> []) \<and>
     (\<forall>x \<in> set (io_handlers api io). lft (snd x) < lft io))"

section \<open>Every step brings the end closer\<close>

fun phases_left :: "dtor_phase \<Rightarrow> nat" where
  "phases_left Flagged = 5"
| "phases_left Notified = 4"
| "phases_left Polling = 3"
| "phases_left Joining_io = 2"
| "phases_left Joining_workers = 1"
| "phases_left Returned = 0"

definition dtor_left :: "('io \<Rightarrow> nat) \<Rightarrow> 'io dtor \<Rightarrow> nat" where
  "dtor_left lft s = workers_left (dt_ws s) + lft (dt_io s) +
     count_list (dt_io_threads s) In_run + phases_left (dt_phase s)"

definition dtor_inv :: "'io io_api \<Rightarrow> ('io \<Rightarrow> nat) \<Rightarrow> 'io dtor \<Rightarrow> bool" where
  "dtor_inv api lft s \<longleftrightarrow> io_finite api lft \<and> workers_inv (dt_ws s) \<and>
     ws_phase (dt_ws s) = (if dt_phase s = Flagged then Stopping else Joining) \<and>
     (dt_guard s \<longrightarrow> dt_phase s \<in> {Flagged, Notified})"

lemma dtor_inv_phase: "dtor_inv api lft s \<Longrightarrow> ws_phase (dt_ws s) \<noteq> Alive"
  by (simp add: dtor_inv_def)

text \<open>Scheduling and wake-ups for no reason, while the destructor stops the threads.\<close>

lemma beside_effect:
  assumes "env_step (dt_ws s) k t \<or> k = [] \<and> spurious_wakeup (dt_ws s) t" and "dtor_inv api lft s"
  shows "dtor_inv api lft (s\<lparr>dt_ws := t\<rparr>)" "workers_left t \<le> workers_left (dt_ws s)"
proof -
  have "workers_inv t" "ws_phase t = ws_phase (dt_ws s)" "workers_left t \<le> workers_left (dt_ws s)"
    using assms env_step_inv spurious_wakeup_inv scheduling_no_further wakeup_no_further
    unfolding dtor_inv_def by metis+
  with assms(2) show "dtor_inv api lft (s\<lparr>dt_ws := t\<rparr>)" "workers_left t \<le> workers_left (dt_ws s)"
    by (simp_all add: dtor_inv_def)
qed

lemma handled_effect:
  assumes "handled api s k s'" and "dtor_inv api lft s"
  shows "dtor_inv api lft s'" "dtor_left lft s' < dtor_left lft s"
proof -
  obtain h io t where h: "(h, io) \<in> set (io_handlers api (dt_io s))"
      "case h of None \<Rightarrow> k = [] \<and> t = dt_ws s | Some h \<Rightarrow> k = [Scheduled h] \<and> env_step (dt_ws s) k t"
      "s' = s\<lparr>dt_io := io, dt_ws := t\<rparr>"
    using assms(1) by (auto simp: handled_def)
  have t: "dtor_inv api lft (s\<lparr>dt_ws := t\<rparr>) \<and> workers_left t \<le> workers_left (dt_ws s)"
    using h(2) assms(2) beside_effect [of s k t] by (cases h) auto
  have "lft io < lft (dt_io s)"
    using h(1) assms(2) by (force simp: dtor_inv_def io_finite_def)
  with h(3) t show "dtor_inv api lft s'" "dtor_left lft s' < dtor_left lft s"
    by (auto simp: dtor_inv_def dtor_left_def)
qed

lemma stop_step_left:
  "stop_step t t' \<Longrightarrow> ws_phase t = Stopping \<Longrightarrow> ws_phase t' = Joining \<and> workers_left t' \<le> workers_left t"
  by (induction rule: stop_step.induct) (simp_all add: workers_left_def notify_all_left)

lemma run_returns_count:
  "i < length ts \<Longrightarrow> ts ! i = In_run \<Longrightarrow> count_list (ts[i := Io_gone]) In_run < count_list ts In_run"
  using count_list_update [of i ts Io_gone In_run] by simp

lemma dtor_step_closer:
  "dtor_step api s k s' \<Longrightarrow> dtor_inv api lft s \<Longrightarrow>
   dtor_inv api lft s' \<and> dtor_left lft s' < dtor_left lft s"
proof (induction rule: dtor_step.induct)
  case (d_worker s k t)
  then have w: "workers_inv (dt_ws s)" by (simp add: dtor_inv_def)
  with d_worker stopping_step_closer [OF d_worker(1) w dtor_inv_phase [OF d_worker(2)]] run_step_inv [OF d_worker(1)]
  show ?case by (simp add: dtor_inv_def dtor_left_def)
next
  case (d_notify s t)
  with stop_step_left [of "dt_ws s" t] stop_step_inv [of "dt_ws s" t] show ?case
    by (simp add: dtor_inv_def dtor_left_def)
next
  case (d_join_workers s)
  then have "workers_left ((dt_ws s)\<lparr>ws_threads := []\<rparr>) \<le> workers_left (dt_ws s)"
    by (simp add: workers_left_def)
  with d_join_workers show ?case
    by (auto simp: dtor_inv_def dtor_left_def workers_inv_def)
qed (auto simp: dtor_inv_def dtor_left_def run_returns_count dest: handled_effect)

lemma dtor_beside_no_further:
  "dtor_beside s k s' \<Longrightarrow> dtor_inv api lft s \<Longrightarrow> dtor_inv api lft s' \<and> dtor_left lft s' \<le> dtor_left lft s"
  using beside_effect [of s k _ api lft] by (auto simp: dtor_beside_def dtor_left_def)

lemma dtor_can_step:
  assumes inv: "dtor_inv api lft s" and phase: "dt_phase s \<noteq> Returned"
  shows "\<exists>k s'. dtor_step api s k s'"
proof (cases "dt_phase s")
  case Flagged
  then have "stop_step (dt_ws s) ((dt_ws s)\<lparr>ws_threads := notify_all On_queue At_queue (ws_threads (dt_ws s)),
      ws_phase := Joining\<rparr>)"
    using inv by (intro stop_step.e_notify) (simp add: dtor_inv_def)
  with Flagged show ?thesis by (blast intro: dtor_step.d_notify)
next
  case Joining_io
  show ?thesis
  proof (cases "set (dt_io_threads s) \<subseteq> {Io_gone}")
    case False
    then obtain i where i: "i < length (dt_io_threads s)" "dt_io_threads s ! i = In_run"
      by (metis (full_types) in_set_conv_nth insertI1 io_thread.exhaust subsetI)
    show ?thesis
    proof (cases "io_work api (dt_io s)")
      case True
      then obtain h io where x: "(h, io) \<in> set (io_handlers api (dt_io s))"
        using inv by (cases "io_handlers api (dt_io s)") (auto simp: dtor_inv_def io_finite_def)
      have "\<exists>k s'. handled api s k s'"
      proof (cases h)
        case None
        with x show ?thesis unfolding handled_def by fastforce
      next
        case (Some h')
        have "On_queue \<notin> set (ws_threads (dt_ws s))"
          using inv Joining_io by (simp add: dtor_inv_def workers_inv_def)
        then have "notify_one On_queue At_queue (ws_threads (dt_ws s)) (ws_threads (dt_ws s))"
          by (simp add: notify_one_def)
        from env_step.e_schedule [OF this, of h'] x Some show ?thesis
          unfolding handled_def by fastforce
      qed
      then show ?thesis using i by (metis dtor_step.d_handler nth_mem)
    next
      case False
      then show ?thesis
        using i inv Joining_io dtor_step.d_run_returns [of i s api] by (auto simp: dtor_inv_def)
    qed
  qed (use Joining_io dtor_step.d_join_io in blast)
next
  case Joining_workers
  then show ?thesis
    using inv joining_can_step [of "dt_ws s"] dtor_step.d_join_workers [of s api] dtor_step.d_worker [of s]
    by (metis dtor_inv_def dtor_phase.distinct(7))
qed (use phase dtor_step.d_reset dtor_step.d_polled in blast)+

interpretation dtor_join: joining "dtor_step api" dtor_beside "dtor_inv api lft"
  "\<lambda>s. dt_phase s = Returned" "dtor_left lft"
  for api :: "'io io_api" and lft :: "'io \<Rightarrow> nat"
  by unfold_locales (blast dest: dtor_step_closer dtor_beside_no_further dtor_can_step)+

section \<open>What has happened when it returns\<close>

text \<open>Along the way: the log \<open>l\<close> is one of the workers, and no thread of the context leaves work behind.\<close>

definition dtor_books :: "'io io_api \<Rightarrow> nat \<Rightarrow> nat \<Rightarrow> worker_log list \<Rightarrow> 'io dtor \<Rightarrow> bool" where
  "dtor_books api n m l s \<longleftrightarrow>
     (dt_phase s \<noteq> Returned \<longrightarrow> runtime_run (new_workers n) l (dt_ws s)) \<and>
     (dt_phase s = Returned \<longrightarrow> ws_threads (dt_ws s) = [] \<and>
        (\<forall>h. count_list l (Resumed h) = count_list l (Suspended h))) \<and>
     (Io_gone \<in> set (dt_io_threads s) \<longrightarrow> \<not> io_work api (dt_io s)) \<and>
     (if dt_phase s \<in> {Joining_workers, Returned}
      then dt_io_threads s = [] \<and> (0 < m \<longrightarrow> \<not> io_work api (dt_io s))
      else length (dt_io_threads s) = m)"

lemma handled_books:
  assumes "handled api s k s'" and "io_finite api lft" and "dtor_books api n m l s" and "dt_phase s \<noteq> Returned"
  shows "dtor_books api n m (l @ k) s'"
proof -
  obtain h io t where h: "(h, io) \<in> set (io_handlers api (dt_io s))"
      "case h of None \<Rightarrow> k = [] \<and> t = dt_ws s | Some h \<Rightarrow> k = [Scheduled h] \<and> env_step (dt_ws s) k t"
      "s' = s\<lparr>dt_io := io, dt_ws := t\<rparr>"
    using assms(1) by (auto simp: handled_def)
  have "io_work api (dt_io s)"
    using h(1) assms(2) by (auto simp: io_finite_def)
  moreover have "runtime_run (new_workers n) (l @ k) t"
    using h(2) assms(3,4) by (cases h) (auto simp: dtor_books_def intro: runtime_run.r_env)
  ultimately show ?thesis
    using assms(3,4) h(3) by (auto simp: dtor_books_def split: if_splits)
qed

lemma none_resuming:
  assumes "runtime_run (new_workers n) l t" and "set (ws_threads t) \<subseteq> {Gone}"
  shows "count_list l (Resumed h) = count_list l (Suspended h)"
  using runtime_run_books [OF assms(1)] assms(2) by (auto simp: run_books_def count_list_0_iff)

lemma dtor_step_books:
  "dtor_step api s k s' \<Longrightarrow> io_finite api lft \<Longrightarrow> dtor_books api n m l s \<Longrightarrow> dtor_books api n m (l @ k) s'"
proof (induction rule: dtor_step.induct)
  case (d_worker s k t)
  have "dt_phase s \<noteq> Returned"
  proof
    assume "dt_phase s = Returned"
    then have "ws_threads (dt_ws s) = []" using d_worker.prems(2) by (simp add: dtor_books_def)
    with d_worker.hyps show False by (cases rule: run_stepE) auto
  qed
  with d_worker show ?case by (auto simp: dtor_books_def intro: runtime_run.r_work)
next
  case (d_handler s k s')
  then have "dt_phase s \<noteq> Returned" by (auto simp: dtor_books_def)
  with d_handler show ?case by (blast intro: handled_books)
next
  case (d_notify s t)
  then show ?case by (auto simp: dtor_books_def intro: runtime_run.r_stop)
next
  case (d_poll s k s')
  then show ?case by (intro handled_books) auto
next
  case (d_join_io s)
  then have "0 < m \<Longrightarrow> Io_gone \<in> set (dt_io_threads s)"
    by (cases "dt_io_threads s") (auto simp: dtor_books_def)
  with d_join_io show ?case by (auto simp: dtor_books_def)
next
  case (d_join_workers s)
  then show ?case using none_resuming by (fastforce simp: dtor_books_def)
qed (auto simp: dtor_books_def dest!: set_update_sub split: if_splits)

lemma dtor_beside_books:
  "dtor_beside s k s' \<Longrightarrow> dtor_books api n m l s \<Longrightarrow> dtor_books api n m (l @ k) s'"
  by (auto simp: dtor_beside_def dtor_books_def intro: runtime_run.r_env runtime_run.r_wake)

lemma dtor_run_books:
  "dtor_run api j s k s' \<Longrightarrow> io_finite api lft \<Longrightarrow> dtor_books api n m l s \<Longrightarrow> dtor_books api n m (l @ k) s'"
proof (induction arbitrary: l rule: steps.induct)
  case (more s k s1 j k' s')
  from more.IH [OF more.prems(1) dtor_step_books [OF more.hyps(1) more.prems]] show ?case by simp
next
  case (beside s k s1 j k' s')
  from beside.IH [OF beside.prems(1) dtor_beside_books [OF beside.hyps(1) beside.prems(2)]] show ?case by simp
qed simp

lemma flagged_ready:
  assumes "runtime_run (new_workers n) l t" and "ws_phase t = Stopping" and "io_finite api lft"
  shows "dtor_inv api lft (dtor_flagged t io m)" "dtor_books api n m l (dtor_flagged t io m)"
    "dtor_left lft (dtor_flagged t io m) \<le> 4 * n + lft io + m + 5"
proof -
  show "dtor_inv api lft (dtor_flagged t io m)"
    using assms runtime_run_inv [OF assms(1)] by (simp add: dtor_inv_def dtor_flagged_def)
  show "dtor_books api n m l (dtor_flagged t io m)"
    using assms(1) by (simp add: dtor_books_def dtor_flagged_def)
  have "count_list (replicate m In_run) In_run = m" by (induction m) auto
  then show "dtor_left lft (dtor_flagged t io m) \<le> 4 * n + lft io + m + 5"
    using workers_left_bound [OF assms(1)] by (simp add: dtor_left_def dtor_flagged_def)
qed

text \<open>
  C27. The destructor of the runtime returns, once it is past the drain wait: take any state of
  the threads in which it has just set the flag, and any run from there, in which other threads
  schedule coroutines and sleeping workers wake up for no reason as they like. If what Asio has in
  flight is finite (\<open>io_finite\<close>), the destructor and the threads it joins make a bounded number of
  steps, and at the end of the run either one of them can go on, without any wake-up but those of
  the notifications (a coroutine that is being resumed suspending or ending), or the destructor
  has returned; and then all threads of both kinds have been joined, no coroutine was cut off in
  the middle of being resumed, and, if the runtime has threads for the context at all, no work of
  the context is left undone.
\<close>

theorem destructor_returns:
  assumes "runtime_run (new_workers n) l t" and "ws_phase t = Stopping" and "io_finite api lft"
    and "dtor_run api j (dtor_flagged t io m) k s"
  shows "j \<le> 4 * n + lft io + m + 5 \<and>
    (if dt_phase s = Returned
     then ws_threads (dt_ws s) = [] \<and> dt_io_threads s = [] \<and> (0 < m \<longrightarrow> \<not> io_work api (dt_io s)) \<and>
       (\<forall>h. count_list (l @ k) (Resumed h) = count_list (l @ k) (Suspended h))
     else \<exists>k' s'. dtor_step api s k' s')"
proof -
  note ready = flagged_ready [OF assms(1-3), where io = io and m = m]
  have "j \<le> 4 * n + lft io + m + 5"
    using dtor_join.bounded [OF assms(4) ready(1)] ready(3) by linarith
  moreover have "\<exists>k' s'. dtor_step api s k' s'" if "dt_phase s \<noteq> Returned"
    using dtor_join.never_stuck [OF assms(4) ready(1) that] .
  moreover have "ws_threads (dt_ws s) = [] \<and> dt_io_threads s = [] \<and> (0 < m \<longrightarrow> \<not> io_work api (dt_io s)) \<and>
       (\<forall>h. count_list (l @ k) (Resumed h) = count_list (l @ k) (Suspended h))" if "dt_phase s = Returned"
    using that dtor_run_books [OF assms(4,3) ready(2)] by (auto simp: dtor_books_def)
  ultimately show ?thesis by simp
qed

text \<open>A context whose state is the number of its operations in flight; each schedules a coroutine.\<close>

definition demo_io :: "nat io_api" where
  "demo_io = \<lparr>io_handlers = (\<lambda>io. if io = 0 then [] else [(Some io, io - 1)]), io_work = (\<lambda>io. io \<noteq> 0)\<rparr>"

theorem destructor_returns_witness:
  "\<exists>l t j k s. runtime_run (new_workers 2) l t \<and> Resumed 7 \<in> set l \<and> On_queue \<in> set (ws_threads t) \<and>
     dtor_run demo_io j (dtor_flagged t 3 1) k s \<and> dt_phase s = Returned \<and> j \<le> 17 \<and>
     dt_io_threads s = [] \<and> dt_io s = 0 \<and>
     count_list (l @ k) (Resumed 7) = count_list (l @ k) (Suspended 7)"
proof -
  obtain l t where t: "runtime_run (new_workers 2) l t" "ws_phase t = Stopping" "Resumed 7 \<in> set l"
      "ws_threads t = [Resuming 7, On_queue]"
    by (rule demo_stopping)
  have io: "io_finite demo_io (\<lambda>io. io)" by (simp add: io_finite_def demo_io_def)
  obtain j k s where k: "dtor_run demo_io j (dtor_flagged t 3 1) k s" "dt_phase s = Returned"
    using dtor_join.finishes [OF flagged_ready(1) [OF t(1,2) io]] by metis
  note main = destructor_returns [OF t(1,2) io k(1)]
  have "j \<le> 17" "dt_io_threads s = []" "dt_io s = 0"
      "count_list (l @ k) (Resumed 7) = count_list (l @ k) (Suspended 7)"
    using main k(2) by (auto simp: demo_io_def)
  with t k show ?thesis
    by (intro exI [of _ l] exI [of _ t] exI [of _ j] exI [of _ k] exI [of _ s]) simp
qed

end
