(* ===== verification/Echo_Metrics.thy ===== *)
theory Echo_Metrics
  imports Coasio_Error Complex_Main "HOL-Library.Multiset" "HOL-Library.Word"
begin

text \<open>
  The monitor of \<^verbatim>\<open>examples/echo_server.cpp\<close>: the counters of the server, the ring buffer of the
  last samples and its percentiles, and one turn of \<^verbatim>\<open>metrics_monitor_task\<close>. A \<^verbatim>\<open>double\<close> is the
  rational number it stands for; the two operations on doubles that round, the conversion of a
  64-bit integer and the product with a percentile, are written out.
\<close>

section \<open>Doubles\<close>

text \<open>
  Rounding to a significand of 53 bits, to nearest and to even on a tie. The significands below
  are those of the literals \<^verbatim>\<open>0.50\<close>, \<^verbatim>\<open>0.90\<close> and \<^verbatim>\<open>0.99\<close>, over \<open>2 ^ 53\<close>.
\<close>

fun excess_bits :: "nat \<Rightarrow> nat" where
  "excess_bits v = (if v < 2 ^ 53 then 0 else Suc (excess_bits (v div 2)))"

declare excess_bits.simps [simp del]

definition round53 :: "nat \<Rightarrow> nat" where
  "round53 v =
     (let u = 2 ^ excess_bits v; q = v div u; r = v mod u
      in if 2 * r < u \<or> (2 * r = u \<and> even q) then q * u else Suc q * u)"

type_synonym double = rat

definition double_of :: "64 word \<Rightarrow> double" where
  "double_of n = of_nat (round53 (unat n))"

datatype percentile = P50 | P90 | P99

fun significand :: "percentile \<Rightarrow> nat" where
  "significand P50 = 4503599627370496"
| "significand P90 = 8106479329266893"
| "significand P99 = 8917127262193582"

text \<open>\<^verbatim>\<open>std::ceil(percentile * size)\<close>\<close>

definition ceil_product :: "percentile \<Rightarrow> nat \<Rightarrow> nat" where
  "ceil_product p n = (round53 (significand p * n) + (2 ^ 53 - 1)) div 2 ^ 53"

section \<open>The ring buffer\<close>

record rolling_metrics =
  samples :: "double list"
  max_size :: nat
  ring_head :: nat

definition new_rolling :: "nat \<Rightarrow> rolling_metrics" where
  "new_rolling window_size = \<lparr>samples = [], max_size = window_size, ring_head = 0\<rparr>"

text \<open>With a window of size 0 the vector is indexed out of range.\<close>

definition add_sample :: "double \<Rightarrow> rolling_metrics \<Rightarrow> rolling_metrics option" where
  "add_sample val m =
     (if length (samples m) < max_size m then Some (m\<lparr>samples := samples m @ [val]\<rparr>)
      else if ring_head m < length (samples m) then
        Some (m\<lparr>samples := (samples m)[ring_head m := val], ring_head := (ring_head m + 1) mod max_size m\<rparr>)
      else None)"

definition get_percentile_value :: "double list \<Rightarrow> percentile \<Rightarrow> double option" where
  "get_percentile_value xs p =
     (let idx = to_size (int (ceil_product p (length xs)) - 1);
          i = (if length xs - 1 < idx then length xs - 1 else idx)
      in if i < length xs then Some (xs ! i) else None)"

definition get_percentiles :: "rolling_metrics \<Rightarrow> (double \<times> double \<times> double) option" where
  "get_percentiles m =
     (if samples m = [] then Some (0, 0, 0)
      else
        let xs = sort (samples m)
        in case (get_percentile_value xs P50, get_percentile_value xs P90, get_percentile_value xs P99) of
             (Some a, Some b, Some c) \<Rightarrow> Some (a, b, c)
           | _ \<Rightarrow> None)"

section \<open>The monitor\<close>

record server_stats =
  active_clients :: "64 word"
  total_bytes_received :: "64 word"
  total_bytes_sent :: "64 word"

definition new_stats :: server_stats where
  "new_stats = \<lparr>active_clients = 0, total_bytes_received = 0, total_bytes_sent = 0\<rparr>"

record monitor =
  last_received :: "64 word"
  last_sent :: "64 word"
  in_metrics :: rolling_metrics
  out_metrics :: rolling_metrics

definition new_monitor :: monitor where
  "new_monitor = \<lparr>last_received = 0, last_sent = 0, in_metrics = new_rolling 60, out_metrics = new_rolling 60\<rparr>"

text \<open>What one turn prints.\<close>

record report =
  rp_clients :: "64 word"
  rp_download :: double
  rp_upload :: double
  rp_in :: "double \<times> double \<times> double"
  rp_out :: "double \<times> double \<times> double"

text \<open>
  One turn of the loop after the sleep has given \<open>slp_res\<close>. The three counters are read one
  after the other while the handlers change them, so their values are arguments. The first
  component is the error that is printed before the task returns, or the state and the report.
\<close>

definition monitor_turn ::
  "error_code + unit \<Rightarrow> 64 word \<Rightarrow> 64 word \<Rightarrow> 64 word \<Rightarrow> monitor \<Rightarrow> (error_code + monitor \<times> report) option" where
  "monitor_turn slp_res current_received current_sent current_clients m =
     (case slp_res of
        Inl e \<Rightarrow> Some (Inl e)
      | Inr _ \<Rightarrow>
          (let bytes_in_per_sec = current_received - last_received m;
               bytes_out_per_sec = current_sent - last_sent m;
               download_speed = double_of bytes_in_per_sec / 1024;
               upload_speed = double_of bytes_out_per_sec / 1024
           in case (add_sample download_speed (in_metrics m), add_sample upload_speed (out_metrics m)) of
                (Some im, Some om) \<Rightarrow>
                  (case (get_percentiles im, get_percentiles om) of
                     (Some ip, Some op) \<Rightarrow>
                       Some (Inr (\<lparr>last_received = current_received, last_sent = current_sent,
                                   in_metrics = im, out_metrics = om\<rparr>,
                                  \<lparr>rp_clients = current_clients, rp_download = download_speed,
                                   rp_upload = upload_speed, rp_in = ip, rp_out = op\<rparr>))
                   | _ \<Rightarrow> None)
              | _ \<Rightarrow> None))"

text \<open>The turns of the loop up to an error of the sleep, with the reports.\<close>

primrec monitor_run ::
  "((error_code + unit) \<times> 64 word \<times> 64 word \<times> 64 word) list \<Rightarrow> monitor \<Rightarrow>
   ((error_code option \<times> monitor) \<times> report list) option" where
  "monitor_run [] m = Some ((None, m), [])"
| "monitor_run (t # ts) m =
     (case monitor_turn (fst t) (fst (snd t)) (fst (snd (snd t))) (snd (snd (snd t))) m of
        None \<Rightarrow> None
      | Some (Inl e) \<Rightarrow> Some ((Some e, m), [])
      | Some (Inr (m', rp)) \<Rightarrow>
          map_option (\<lambda>(r, rps). (r, rp # rps)) (monitor_run ts m'))"

section \<open>Nearest rank\<close>

text \<open>The product of doubles gives the exact rank, for all sizes of a window of 60.\<close>

fun percent :: "percentile \<Rightarrow> nat" where
  "percent P50 = 50"
| "percent P90 = 90"
| "percent P99 = 99"

lemma excess_bits_bound: "v < 2 ^ (53 + e) \<Longrightarrow> excess_bits v \<le> e"
proof (induction e arbitrary: v)
  case 0
  then show ?case by (simp add: excess_bits.simps)
next
  case (Suc e)
  have "v < 2 ^ (53 + e) * 2" using Suc.prems by (simp only: add_Suc_right power_Suc mult.commute)
  then have "v div 2 < 2 ^ (53 + e)" by (rule less_mult_imp_div_less)
  from Suc.IH [OF this] show ?case by (subst excess_bits.simps) simp
qed

lemma round53_near:
  assumes "v < 2 ^ 59"
  shows "round53 v \<le> v + 32" and "v \<le> round53 v + 32"
proof -
  let ?u = "2 ^ excess_bits v :: nat"
  have "excess_bits v \<le> 6" using excess_bits_bound [of v 6] assms by simp
  then have "?u \<le> 2 ^ 6" by (intro power_increasing) simp_all
  then have u: "?u \<le> 64" by simp
  have v: "v = v div ?u * ?u + v mod ?u" by (rule div_mult_mod_eq [symmetric])
  have r: "v mod ?u < ?u" by simp
  show "round53 v \<le> v + 32" "v \<le> round53 v + 32"
    using u v r by (simp_all only: round53_def Let_def mult_Suc split: if_split) linarith+
qed

lemma round53_exact:
  assumes "v < 2 ^ 59" and "64 dvd v"
  shows "round53 v = v"
proof -
  let ?u = "2 ^ excess_bits v :: nat"
  have "excess_bits v \<le> 6" using excess_bits_bound [of v 6] assms by simp
  then have "?u dvd 2 ^ 6" by (intro le_imp_power_dvd) 
  then have "?u dvd v" using assms(2) by (simp add: dvd_trans)
  then show ?thesis by (simp add: round53_def)
qed

lemma ceil_between:
  assumes "(k - 1) * 2 ^ 53 < w" and "w \<le> k * 2 ^ 53" and "0 < k"
  shows "(w + (2 ^ 53 - 1)) div 2 ^ 53 = (k :: nat)"
proof -
  have "w + (2 ^ 53 - 1) = k * 2 ^ 53 + (w - 1 - (k - 1) * 2 ^ 53)" "w - 1 - (k - 1) * 2 ^ 53 < 2 ^ 53"
    using assms by (cases k; simp)+
  then show ?thesis by simp
qed

lemma excess_bits_least: "2 ^ (52 + e) \<le> v \<Longrightarrow> e \<le> excess_bits v"
proof (induction e arbitrary: v)
  case (Suc e)
  have d: "2 ^ (52 + e) * 2 \<le> v" using Suc.prems by (simp only: add_Suc_right power_Suc mult.commute)
  then have "2 ^ (52 + e) \<le> v div 2" by (simp add: div_greater_zero_iff less_eq_div_iff_mult_less_eq)
  from Suc.IH [OF this] have "e \<le> excess_bits (v div 2)" .
  moreover have "\<not> v < 2 ^ 53"
  proof -
    have "(2 :: nat) ^ 52 \<le> 2 ^ (52 + e)" by (rule power_increasing) simp_all
    with d show ?thesis by simp
  qed
  ultimately show ?case by (subst excess_bits.simps) simp
qed simp

lemma round53_down:
  assumes "v = k * 2 ^ 53 + r" and "v < 2 ^ 59" and "2 ^ (52 + e) \<le> v" and "2 * r < 2 ^ e"
  shows "round53 v = k * 2 ^ 53"
proof -
  let ?e = "excess_bits v"
  let ?u = "2 ^ ?e :: nat"
  have "?e \<le> 6" using excess_bits_bound [of v 6] assms(2) by simp
  then have m: "2 ^ 53 = 2 ^ (53 - ?e) * ?u" by (simp flip: power_add)
  have "(2 :: nat) ^ e \<le> ?u" using excess_bits_least [OF assms(3)] by (rule power_increasing) simp
  with assms(4) have r: "2 * r < ?u" by linarith
  have "v = k * 2 ^ (53 - ?e) * ?u + r" using assms(1) m by (simp only: mult.assoc)
  moreover have "r < ?u" using r by linarith
  ultimately have "v mod ?u = (k * 2 ^ (53 - ?e) * ?u + r) mod ?u" "v div ?u = (k * 2 ^ (53 - ?e) * ?u + r) div ?u" "r < ?u"
    by (metis+)
  then have "v mod ?u = r" "v div ?u = k * 2 ^ (53 - ?e)" by simp_all
  with r m show ?thesis by (simp add: round53_def mult.assoc)
qed

lemma ceil_div:
  assumes "\<not> d dvd m" and "0 < d"
  shows "0 < (m + (d - 1)) div d" "m < d * ((m + (d - 1)) div d)" "d * ((m + (d - 1)) div d - 1) < (m :: nat)"
proof -
  let ?q = "m div d" and ?r = "m mod d"
  have r: "0 < ?r" "?r < d" "m = d * ?q + ?r"
    using assms by (simp_all add: dvd_eq_mod_eq_0)
  have "m + (d - 1) = (?r - 1) + (?q + 1) * d"
  proof -
    have "(?q + 1) * d = d * ?q + d" by (simp add: algebra_simps)
    with r show ?thesis by linarith
  qed
  then have "(m + (d - 1)) div d = (?q + 1) + (?r - 1) div d"
    using div_mult_self1 [of d "?r - 1" "?q + 1"] assms(2) by simp
  moreover have "(?r - 1) div d = 0" using r(1,2) by (intro div_less) linarith
  ultimately have k: "(m + (d - 1)) div d = ?q + 1" by simp
  show "0 < (m + (d - 1)) div d" unfolding k by simp
  show "m < d * ((m + (d - 1)) div d)" unfolding k distrib_left using r by linarith
  show "d * ((m + (d - 1)) div d - 1) < m" unfolding k add_diff_cancel_right' using r by linarith
qed

lemma ceil_product_exact:
  assumes "n \<le> 60"
  shows "ceil_product p n = (percent p * n + 99) div 100"
proof -
  let ?v = "significand p * n" and ?k = "(percent p * n + 99) div 100"
  have s: "100 * significand p \<le> percent p * 2 ^ 53 + 20" "percent p * 2 ^ 53 \<le> 100 * significand p + 8" "significand p < 2 ^ 53"
    by (cases p; simp)+
  have v: "100 * ?v \<le> percent p * n * 2 ^ 53 + 1200" "percent p * n * 2 ^ 53 \<le> 100 * ?v + 480" "?v < 2 ^ 59"
  proof -
    have "100 * ?v \<le> (percent p * 2 ^ 53 + 20) * n" "percent p * 2 ^ 53 * n \<le> (100 * significand p + 8) * n"
      using s mult_le_mono1 [OF s(1), of n] mult_le_mono1 [OF s(2), of n] by (simp_all add: ac_simps)
    moreover have "?v \<le> 2 ^ 53 * 60" using s(3) assms by (intro mult_le_mono) simp_all
    ultimately show "100 * ?v \<le> percent p * n * 2 ^ 53 + 1200" "percent p * n * 2 ^ 53 \<le> 100 * ?v + 480" "?v < 2 ^ 59"
      using assms by (simp_all add: algebra_simps)
  qed
  consider "n = 0" | "0 < n" "\<not> 100 dvd percent p * n" | "p = P50" "0 < n" "2 dvd n" | "p = P90" "0 < n" "10 dvd n" | "p = P99" "0 < n" "100 dvd n"
  proof (cases p)
    case P50
    then have "100 dvd percent p * n \<longleftrightarrow> 2 dvd n" by (simp; presburger?)
    with P50 that(1-3) show thesis by blast
  next
    case P90
    have "10 dvd n" if "100 dvd 90 * n"
    proof -
      have "10 * 10 dvd 10 * (9 * n)" using that by simp
      then have "10 dvd 9 * n" by (subst (asm) nat_mult_dvd_cancel_disj) simp
      then show ?thesis using dvd_diff_nat [OF dvd_triv_left [of 10 n], of "9 * n"] by simp
    qed
    with P90 have "100 dvd percent p * n \<longleftrightarrow> 10 dvd n" by auto
    with P90 that(1,2,4) show thesis by blast
  next
    case P99
    have "100 dvd n" if "100 dvd 99 * n"
      using dvd_diff_nat [OF dvd_triv_left that, of n] by simp
    with P99 have "100 dvd percent p * n \<longleftrightarrow> 100 dvd n" by auto
    with P99 that(1,2,5) show thesis by blast
  qed
  then show ?thesis
  proof cases
    case 2
    let ?w = "round53 ?v"
    have k: "0 < ?k" "percent p * n < 100 * ?k" "100 * (?k - 1) < percent p * n"
      using ceil_div [OF 2(2)] by simp_all
    have "(?k - 1) * 2 ^ 53 < ?w" "?w \<le> ?k * 2 ^ 53"
      using k v(1,2) round53_near [OF v(3)] by simp_all
    with k(1) show ?thesis unfolding ceil_product_def by (intro ceil_between)
  next
    case 3
    then obtain j where j: "n = 2 * j" by (elim dvdE)
    then have "?v = j * 2 ^ 53" using 3 by simp
    moreover have "round53 ?v = ?v" by (rule round53_exact [OF v(3)]) (simp add: calculation)
    ultimately show ?thesis using 3 j by (simp add: ceil_product_def)
  next
    case 4
    then obtain j where j: "n = 10 * j" "0 < j" "j \<le> 6" using assms by (elim dvdE) auto
    then have w: "?v = 9 * j * 2 ^ 53 + 2 * j" using 4 by simp
    have "round53 ?v = 9 * j * 2 ^ 53"
    proof (cases "j \<le> 3")
      case True
      with j w show ?thesis by (intro round53_down [OF w v(3), of 4]) simp_all
    next
      case False
      with j w show ?thesis by (intro round53_down [OF w v(3), of 6]) simp_all
    qed
    then show ?thesis using 4 j by (simp add: ceil_product_def)
  next
    case 1
    then show ?thesis by (simp add: ceil_product_def round53_def)
  next
    case 5
    then show ?thesis using assms dvd_imp_le [of 100 n] by simp
  qed
qed

text \<open>
  The value at the nearest rank: a member of the list such that at least \<open>q\<close> percent of the list
  are not greater, and less than \<open>q\<close> percent are smaller.
\<close>

definition nearest_rank :: "nat \<Rightarrow> double list \<Rightarrow> double \<Rightarrow> bool" where
  "nearest_rank q xs v \<longleftrightarrow> v \<in> set xs \<and>
     q * length xs \<le> 100 * length (filter (\<lambda>x. x \<le> v) xs) \<and>
     100 * length (filter (\<lambda>x. x < v) xs) < q * length xs"

lemma sorted_ranks:
  assumes "sorted xs" and "i < length xs"
  shows "Suc i \<le> length (filter (\<lambda>x. x \<le> xs ! i) xs)" and "length (filter (\<lambda>x. x < xs ! i) xs) \<le> i"
proof -
  have "{0..i} \<subseteq> {j. j < length xs \<and> xs ! j \<le> xs ! i}"
    using assms by (auto simp: sorted_nth_mono)
  then have "card {0..i} \<le> card {j. j < length xs \<and> xs ! j \<le> xs ! i}"
    by (intro card_mono) auto
  then show "Suc i \<le> length (filter (\<lambda>x. x \<le> xs ! i) xs)"
    by (simp add: length_filter_conv_card)
  have "{j. j < length xs \<and> xs ! j < xs ! i} \<subseteq> {0..<i}"
    using assms(1) by (auto simp: not_le [symmetric] sorted_nth_mono)
  then have "card {j. j < length xs \<and> xs ! j < xs ! i} \<le> card {0..<i}"
    by (intro card_mono) auto
  then show "length (filter (\<lambda>x. x < xs ! i) xs) \<le> i"
    by (simp add: length_filter_conv_card)
qed

lemma nearest_rank_mset:
  assumes "mset xs = mset ys"
  shows "nearest_rank q xs v = nearest_rank q ys v"
proof -
  have "length (filter P xs) = length (filter P ys)" for P
    using assms by (metis mset_eq_length mset_filter)
  with mset_eq_length [OF assms] mset_eq_setD [OF assms] show ?thesis
    by (simp add: nearest_rank_def)
qed

lemma get_percentile_value_rank:
  assumes "sorted xs" and "xs \<noteq> []" and "length xs \<le> 60"
  shows "\<exists>v. get_percentile_value xs p = Some v \<and> nearest_rank (percent p) xs v"
proof -
  let ?n = "length xs" and ?r = "(percent p * length xs + 99) div 100"
  have n: "0 < ?n" "?n \<le> 60" using assms by simp_all
  have p: "0 < percent p" "percent p \<le> 99" by (cases p; simp)+
  have r: "0 < ?r" "?r \<le> ?n" "percent p * ?n \<le> 100 * ?r" "100 * (?r - 1) < percent p * ?n"
  proof -
    have m: "0 < percent p * ?n" "percent p * ?n \<le> 99 * ?n"
      using n p mult_le_mono1 [OF p(2), of ?n] by simp_all
    show "0 < ?r" "?r \<le> ?n" "percent p * ?n \<le> 100 * ?r" "100 * (?r - 1) < percent p * ?n"
      using m by linarith+
  qed
  have "to_size (int ?r - 1) = ?r - 1"
    using r(1,2) n(2) by (simp add: to_size_nonneg ptrdiff_max_def)
  then have v: "get_percentile_value xs p = Some (xs ! (?r - 1))"
    using r(1,2) n by (simp add: get_percentile_value_def ceil_product_exact Let_def) linarith
  note k = sorted_ranks [OF assms(1), of "?r - 1"]
  have "nearest_rank (percent p) xs (xs ! (?r - 1))"
    unfolding nearest_rank_def using k r by (intro conjI) (auto intro: order_trans [OF r(3)])
  with v show ?thesis by blast
qed

section \<open>The last samples\<close>

definition last_n :: "nat \<Rightarrow> 'a list \<Rightarrow> 'a list" where
  "last_n n xs = drop (length xs - n) xs"

text \<open>The ring, read from its head, holds the last samples in the order in which they came.\<close>

definition ring_holds :: "double list \<Rightarrow> rolling_metrics \<Rightarrow> bool" where
  "ring_holds vs m \<longleftrightarrow> 0 < max_size m \<and> ring_head m < max_size m \<and>
     length (samples m) = min (max_size m) (length vs) \<and>
     (length vs < max_size m \<longrightarrow> ring_head m = 0) \<and>
     drop (ring_head m) (samples m) @ take (ring_head m) (samples m) = last_n (max_size m) vs"

lemma new_ring_holds: "0 < n \<Longrightarrow> ring_holds [] (new_rolling n)"
  by (simp add: ring_holds_def new_rolling_def last_n_def)

lemma last_n_snoc:
  "0 < n \<Longrightarrow> last_n n (vs @ [v]) = (if length vs < n then vs @ [v] else tl (last_n n vs) @ [v])"
  by (auto simp: last_n_def drop_Suc tl_drop Suc_diff_le not_less)

lemma ring_turn:
  assumes "h < length xs"
  shows "drop (Suc h mod length xs) (xs[h := v]) @ take (Suc h mod length xs) (xs[h := v]) =
    tl (drop h xs @ take h xs) @ [v]"
proof (cases "Suc h = length xs")
  case True
  then have "xs[h := v] = take h xs @ [v]" "drop h xs = [xs ! h]"
    using assms by (simp_all add: upd_conv_take_nth_drop flip: Cons_nth_drop_Suc)
  with True show ?thesis by simp
next
  case False
  with assms have h: "Suc h < length xs" by simp
  then have "take (Suc h) (xs[h := v]) = take h xs @ [v]"
    by (simp add: take_Suc_conv_app_nth)
  moreover have "tl (drop h xs @ take h xs) = drop (Suc h) xs @ take h xs"
    using assms by (simp add: tl_append2 drop_Suc tl_drop)
  ultimately show ?thesis using h by simp
qed

lemma add_sample_holds:
  assumes "ring_holds vs m"
  shows "\<exists>m'. add_sample v m = Some m' \<and> ring_holds (vs @ [v]) m' \<and> max_size m' = max_size m"
proof (cases "length (samples m) < max_size m")
  case True
  note r = assms [unfolded ring_holds_def]
  have l: "length vs < max_size m" using True r by (simp add: min_def split: if_splits)
  then have h: "ring_head m = 0" using r by blast
  then have s: "length vs < max_size m" "ring_head m = 0" "samples m = vs"
    using l r by (auto simp: last_n_def h)
  with True assms have "ring_holds (vs @ [v]) (m\<lparr>samples := samples m @ [v]\<rparr>)"
    by (simp add: ring_holds_def last_n_snoc)
  with True show ?thesis by (simp add: add_sample_def)
next
  case False
  then have f: "length (samples m) = max_size m" "\<not> length vs < max_size m" "0 < max_size m"
      "ring_head m < length (samples m)"
    using assms unfolding ring_holds_def by linarith+
  let ?m = "m\<lparr>samples := (samples m)[ring_head m := v], ring_head := (ring_head m + 1) mod max_size m\<rparr>"
  have "ring_holds (vs @ [v]) ?m"
    using assms f ring_turn [OF f(4), of v] by (simp add: ring_holds_def last_n_snoc)
  with f False show ?thesis by (simp add: add_sample_def)
qed

lemma ring_percentiles:
  assumes "ring_holds vs m" and "max_size m \<le> 60" and "vs \<noteq> []"
  shows "\<exists>a b c. get_percentiles m = Some (a, b, c) \<and> nearest_rank 50 (last_n (max_size m) vs) a \<and>
    nearest_rank 90 (last_n (max_size m) vs) b \<and> nearest_rank 99 (last_n (max_size m) vs) c"
proof -
  let ?s = "sort (samples m)"
  have s: "samples m \<noteq> []" "length ?s \<le> 60" "sorted ?s" "?s \<noteq> []"
  proof -
    have l: "length (samples m) = min (max_size m) (length vs)" "0 < max_size m"
      using assms(1) by (simp_all add: ring_holds_def)
    then have "0 < length (samples m)" using assms(3) by simp
    then show "samples m \<noteq> []" by simp
    then show "?s \<noteq> []" by (metis set_empty set_sort)
    show "length ?s \<le> 60" "sorted ?s" using l assms(2) by simp_all
  qed
  have "mset (last_n (max_size m) vs) = mset (drop (ring_head m) (samples m) @ take (ring_head m) (samples m))"
    using assms(1) by (simp only: ring_holds_def)
  also have "\<dots> = mset (take (ring_head m) (samples m) @ drop (ring_head m) (samples m))"
    by (simp only: mset_append add.commute)
  also have "\<dots> = mset ?s" by simp
  finally have e: "nearest_rank q ?s v = nearest_rank q (last_n (max_size m) vs) v" for q v
    by (intro nearest_rank_mset) (rule sym)
  show ?thesis
    using get_percentile_value_rank [OF s(3,4,2), of P50] get_percentile_value_rank [OF s(3,4,2), of P90]
      get_percentile_value_rank [OF s(3,4,2), of P99] s(1)
    by (auto simp: get_percentiles_def e)
qed

section \<open>What the monitor prints\<close>

text \<open>The speeds between successive values of a counter, from 0.\<close>

definition speeds :: "64 word list \<Rightarrow> double list" where
  "speeds rs = map2 (\<lambda>a b. double_of (b - a) / 1024) (0 # rs) rs"

lemma speeds_snoc: "speeds (rs @ [r]) = speeds rs @ [double_of (r - last (0 # rs)) / 1024]"
proof -
  have "zip (a # rs @ [r]) (rs @ [r]) = zip (a # rs) rs @ [(last (a # rs), r)]" for a :: "64 word"
    by (induction rs arbitrary: a) simp_all
  then show ?thesis by (simp add: speeds_def)
qed

lemma speeds_length [simp]: "length (speeds rs) = length rs"
  by (simp add: speeds_def)

definition monitors :: "64 word list \<Rightarrow> 64 word list \<Rightarrow> monitor \<Rightarrow> bool" where
  "monitors rs ss m \<longleftrightarrow> last_received m = last (0 # rs) \<and> last_sent m = last (0 # ss) \<and>
     ring_holds (speeds rs) (in_metrics m) \<and> ring_holds (speeds ss) (out_metrics m) \<and>
     max_size (in_metrics m) = 60 \<and> max_size (out_metrics m) = 60"

lemma new_monitors: "monitors [] [] new_monitor"
  using new_ring_holds [of 60] by (simp add: monitors_def new_monitor_def speeds_def new_rolling_def)

text \<open>A report on the counters read so far, the last of them in this turn.\<close>

definition reports :: "64 word list \<Rightarrow> 64 word list \<Rightarrow> 64 word \<Rightarrow> report \<Rightarrow> bool" where
  "reports rs ss c rp \<longleftrightarrow> rp_clients rp = c \<and>
     rp_download rp = last (speeds rs) \<and> rp_upload rp = last (speeds ss) \<and>
     (\<forall>(q, v) \<in> {(50, fst (rp_in rp)), (90, fst (snd (rp_in rp))), (99, snd (snd (rp_in rp)))}.
        nearest_rank q (last_n 60 (speeds rs)) v) \<and>
     (\<forall>(q, v) \<in> {(50, fst (rp_out rp)), (90, fst (snd (rp_out rp))), (99, snd (snd (rp_out rp)))}.
        nearest_rank q (last_n 60 (speeds ss)) v)"

lemma monitor_turn_reports:
  assumes "monitors rs ss m"
  shows "\<exists>m' rp. monitor_turn (Inr ()) r s c m = Some (Inr (m', rp)) \<and>
    monitors (rs @ [r]) (ss @ [s]) m' \<and> reports (rs @ [r]) (ss @ [s]) c rp"
proof -
  note m = assms [unfolded monitors_def]
  obtain im where im: "add_sample (double_of (r - last_received m) / 1024) (in_metrics m) = Some im"
      "ring_holds (speeds (rs @ [r])) im" "max_size im = 60"
    using add_sample_holds [of "speeds rs" "in_metrics m"] m by (fastforce simp: speeds_snoc)
  obtain om where om: "add_sample (double_of (s - last_sent m) / 1024) (out_metrics m) = Some om"
      "ring_holds (speeds (ss @ [s])) om" "max_size om = 60"
    using add_sample_holds [of "speeds ss" "out_metrics m"] m by (fastforce simp: speeds_snoc)
  have n: "speeds (rs @ [r]) \<noteq> []" "speeds (ss @ [s]) \<noteq> []" by (simp_all add: speeds_snoc)
  obtain a b d where ip: "get_percentiles im = Some (a, b, d)"
      "nearest_rank 50 (last_n 60 (speeds (rs @ [r]))) a" "nearest_rank 90 (last_n 60 (speeds (rs @ [r]))) b"
      "nearest_rank 99 (last_n 60 (speeds (rs @ [r]))) d"
    using ring_percentiles [OF im(2) _ n(1)] im(3) by auto
  obtain a' b' d' where op: "get_percentiles om = Some (a', b', d')"
      "nearest_rank 50 (last_n 60 (speeds (ss @ [s]))) a'" "nearest_rank 90 (last_n 60 (speeds (ss @ [s]))) b'"
      "nearest_rank 99 (last_n 60 (speeds (ss @ [s]))) d'"
    using ring_percentiles [OF om(2) _ n(2)] om(3) by auto
  let ?m' = "\<lparr>last_received = r, last_sent = s, in_metrics = im, out_metrics = om\<rparr>"
  let ?rp = "\<lparr>rp_clients = c, rp_download = double_of (r - last_received m) / 1024,
    rp_upload = double_of (s - last_sent m) / 1024, rp_in = (a, b, d), rp_out = (a', b', d')\<rparr>"
  have "monitor_turn (Inr ()) r s c m = Some (Inr (?m', ?rp))"
    using im(1) om(1) ip(1) op(1) by (simp add: monitor_turn_def Let_def)
  moreover have "monitors (rs @ [r]) (ss @ [s]) ?m'" using im om by (simp add: monitors_def)
  moreover have "reports (rs @ [r]) (ss @ [s]) c ?rp"
    using ip op m by (simp add: reports_def speeds_snoc)
  ultimately show ?thesis by blast
qed

lemma monitor_run_reports:
  assumes "monitors rs ss m"
  shows "\<exists>m' rps. monitor_run (map (\<lambda>(r, s, c). (Inr (), r, s, c)) ts) m = Some ((None, m'), rps) \<and>
    length rps = length ts \<and> (\<forall>i < length ts. reports (rs @ map fst (take (Suc i) ts))
      (ss @ map (\<lambda>t. fst (snd t)) (take (Suc i) ts)) (snd (snd (ts ! i))) (rps ! i))"
  using assms
proof (induction ts arbitrary: rs ss m)
  case (Cons t ts)
  obtain r s c where t: "t = (r, s, c)" by (cases t)
  obtain m1 rp where m1: "monitor_turn (Inr ()) r s c m = Some (Inr (m1, rp))"
      "monitors (rs @ [r]) (ss @ [s]) m1" "reports (rs @ [r]) (ss @ [s]) c rp"
    using monitor_turn_reports [OF Cons.prems] by blast
  from Cons.IH [OF m1(2)] obtain m' rps where
    ih: "monitor_run (map (\<lambda>(r, s, c). (Inr (), r, s, c)) ts) m1 = Some ((None, m'), rps)" "length rps = length ts"
      "\<forall>i < length ts. reports ((rs @ [r]) @ map fst (take (Suc i) ts))
        ((ss @ [s]) @ map (\<lambda>t. fst (snd t)) (take (Suc i) ts)) (snd (snd (ts ! i))) (rps ! i)"
    by blast
  have "reports (rs @ map fst (take (Suc i) (t # ts))) (ss @ map (\<lambda>t. fst (snd t)) (take (Suc i) (t # ts)))
      (snd (snd ((t # ts) ! i))) ((rp # rps) ! i)" if "i < length (t # ts)" for i
    using that m1(3) ih(3) by (cases i) (simp_all add: t)
  with m1(1) ih(1,2) show ?case by (auto simp: t)
qed simp

text \<open>
  C40. The monitor of the echo server never indexes out of range, and each of its reports tells
  the speeds of the last second, that is the differences of the counters since the last turn
  (modulo \<open>2 ^ 64\<close>), and for each of the two directions the three percentiles of the last 60
  speeds, or of all of them before there are 60: a speed that was measured, such that at least
  50, 90 or 99 percent of those speeds are not greater and less than that are smaller. The
  rounding of the double product in the rank does not change it.
\<close>

theorem monitor_reports_percentiles:
  "\<exists>m rps. monitor_run (map (\<lambda>(r, s, c). (Inr (), r, s, c)) ts) new_monitor = Some ((None, m), rps) \<and>
    length rps = length ts \<and> (\<forall>i < length ts. reports (map fst (take (Suc i) ts))
      (map (\<lambda>t. fst (snd t)) (take (Suc i) ts)) (snd (snd (ts ! i))) (rps ! i))"
  using monitor_run_reports [OF new_monitors, of ts] by simp

theorem monitor_reports_percentiles_witness:
  "\<exists>m rps. monitor_run [(Inr (), 1024, 0, 1), (Inr (), 4096, 2048, 2)] new_monitor = Some ((None, m), rps) \<and>
    reports [1024, 4096] [0, 2048] 2 (rps ! 1)"
proof -
  let ?ts = "[(1024, 0, 1), (4096, 2048, 2)] :: (64 word \<times> 64 word \<times> 64 word) list"
  obtain m rps where r: "monitor_run (map (\<lambda>(r, s, c). (Inr (), r, s, c)) ?ts) new_monitor = Some ((None, m), rps)"
    "\<forall>i < length ?ts. reports (map fst (take (Suc i) ?ts)) (map (\<lambda>t. fst (snd t)) (take (Suc i) ?ts))
      (snd (snd (?ts ! i))) (rps ! i)"
    using monitor_reports_percentiles [of ?ts] by blast
  from r(2) [rule_format, of 1] have "reports [1024, 4096] [0, 2048] 2 (rps ! 1)" by simp
  with r(1) show ?thesis by (intro exI [of _ m] exI [of _ rps]) simp
qed

end
