(* ===== verification/Endpoint.thy ===== *)
theory Endpoint
  imports Coasio_Error "HOL-Library.Word"
begin

text \<open>
  \<^verbatim>\<open>include/coasio/net/tcp/ip_address.hpp\<close> and \<^verbatim>\<open>include/coasio/net/base_endpoint.hpp\<close>: the values a
  listener is bound to and a socket connects to. Both classes hold one value of Asio, which is a
  parameter: an address has the type \<open>'a\<close>, an endpoint the type \<open>'ep\<close>. The member that a
  conversion throws from is the result \<^term>\<open>None\<close>.
\<close>

record ('a, 'ep) asio_addresses =
  aa_default :: 'a
  aa_v4_any :: 'a
  aa_v6_any :: 'a
  aa_v4 :: "32 word \<Rightarrow> 'a"
  aa_v6 :: "8 word list \<Rightarrow> 'a"
  aa_make :: "string \<Rightarrow> error_code \<times> 'a"
  aa_is_v4 :: "'a \<Rightarrow> bool"
  aa_is_v6 :: "'a \<Rightarrow> bool"
  aa_is_loopback :: "'a \<Rightarrow> bool"
  aa_is_multicast :: "'a \<Rightarrow> bool"
  aa_is_unspecified :: "'a \<Rightarrow> bool"
  aa_to_string :: "'a \<Rightarrow> string"
  aa_to_v4 :: "'a \<Rightarrow> 'a option"
  aa_to_v6 :: "'a \<Rightarrow> 'a option"
  ae_new :: "'a \<Rightarrow> 16 word \<Rightarrow> 'ep"
  ae_port :: "'ep \<Rightarrow> 16 word"
  ae_set_address :: "'a \<Rightarrow> 'ep \<Rightarrow> 'ep"
  ae_set_port :: "16 word \<Rightarrow> 'ep \<Rightarrow> 'ep"

section \<open>Addresses\<close>

record 'a ip_address =
  ip_value :: 'a

definition ip_default :: "('a, 'ep) asio_addresses \<Rightarrow> 'a ip_address" where
  "ip_default A = \<lparr>ip_value = aa_default A\<rparr>"

definition ip_v4 :: "('a, 'ep) asio_addresses \<Rightarrow> 'a ip_address" where
  "ip_v4 A = \<lparr>ip_value = aa_v4_any A\<rparr>"

definition ip_v6 :: "('a, 'ep) asio_addresses \<Rightarrow> 'a ip_address" where
  "ip_v6 A = \<lparr>ip_value = aa_v6_any A\<rparr>"

definition ip_v4_of :: "('a, 'ep) asio_addresses \<Rightarrow> 32 word \<Rightarrow> 'a ip_address" where
  "ip_v4_of A addr = \<lparr>ip_value = aa_v4 A addr\<rparr>"

text \<open>The argument is an array of 16 bytes.\<close>

definition ip_v6_of :: "('a, 'ep) asio_addresses \<Rightarrow> 8 word list \<Rightarrow> 'a ip_address" where
  "ip_v6_of A addr = \<lparr>ip_value = aa_v6 A addr\<rparr>"

definition ip_from_string :: "('a, 'ep) asio_addresses \<Rightarrow> string \<Rightarrow> error_code + 'a ip_address" where
  "ip_from_string A ip_string =
     (case aa_make A ip_string of
        (ec, addr) \<Rightarrow> if is_error ec then Inl ec else Inr \<lparr>ip_value = addr\<rparr>)"

definition ip_is_v4 :: "('a, 'ep) asio_addresses \<Rightarrow> 'a ip_address \<Rightarrow> bool" where
  "ip_is_v4 A x = aa_is_v4 A (ip_value x)"

definition ip_is_v6 :: "('a, 'ep) asio_addresses \<Rightarrow> 'a ip_address \<Rightarrow> bool" where
  "ip_is_v6 A x = aa_is_v6 A (ip_value x)"

definition ip_is_loopback :: "('a, 'ep) asio_addresses \<Rightarrow> 'a ip_address \<Rightarrow> bool" where
  "ip_is_loopback A x = aa_is_loopback A (ip_value x)"

definition ip_is_multicast :: "('a, 'ep) asio_addresses \<Rightarrow> 'a ip_address \<Rightarrow> bool" where
  "ip_is_multicast A x = aa_is_multicast A (ip_value x)"

definition ip_is_unspecified :: "('a, 'ep) asio_addresses \<Rightarrow> 'a ip_address \<Rightarrow> bool" where
  "ip_is_unspecified A x = aa_is_unspecified A (ip_value x)"

definition ip_to_string :: "('a, 'ep) asio_addresses \<Rightarrow> 'a ip_address \<Rightarrow> string" where
  "ip_to_string A x = aa_to_string A (ip_value x)"

definition ip_to_v4 :: "('a, 'ep) asio_addresses \<Rightarrow> 'a ip_address \<Rightarrow> 'a ip_address option" where
  "ip_to_v4 A x = map_option (\<lambda>a. \<lparr>ip_value = a\<rparr>) (aa_to_v4 A (ip_value x))"

definition ip_to_v6 :: "('a, 'ep) asio_addresses \<Rightarrow> 'a ip_address \<Rightarrow> 'a ip_address option" where
  "ip_to_v6 A x = map_option (\<lambda>a. \<lparr>ip_value = a\<rparr>) (aa_to_v6 A (ip_value x))"

section \<open>Endpoints\<close>

record 'ep base_endpoint =
  be_value :: 'ep

definition endpoint_of :: "'ep \<Rightarrow> 'ep base_endpoint" where
  "endpoint_of ep = \<lparr>be_value = ep\<rparr>"

definition endpoint_new ::
  "('a, 'ep) asio_addresses \<Rightarrow> 'a ip_address \<Rightarrow> 16 word \<Rightarrow> 'ep base_endpoint" where
  "endpoint_new A addr port = \<lparr>be_value = ae_new A (ip_value addr) port\<rparr>"

definition endpoint_port :: "('a, 'ep) asio_addresses \<Rightarrow> 'ep base_endpoint \<Rightarrow> 16 word" where
  "endpoint_port A e = ae_port A (be_value e)"

definition endpoint_set_address ::
  "('a, 'ep) asio_addresses \<Rightarrow> 'a ip_address \<Rightarrow> 'ep base_endpoint \<Rightarrow> 'ep base_endpoint" where
  "endpoint_set_address A addr e = e\<lparr>be_value := ae_set_address A (ip_value addr) (be_value e)\<rparr>"

definition endpoint_set_port ::
  "('a, 'ep) asio_addresses \<Rightarrow> 16 word \<Rightarrow> 'ep base_endpoint \<Rightarrow> 'ep base_endpoint" where
  "endpoint_set_port A port e = e\<lparr>be_value := ae_set_port A port (be_value e)\<rparr>"

definition asio_endpoint :: "'ep base_endpoint \<Rightarrow> 'ep" where
  "asio_endpoint e = be_value e"

section \<open>What the classes keep of the laws of Asio\<close>

text \<open>
  Asio's own endpoints obey the laws of a pair of an address and a port, and an address written
  by \<^verbatim>\<open>to_string\<close> is read back by \<^verbatim>\<open>make_address\<close>; the classes hand this on.
\<close>

lemma endpoint_laws:
  assumes "\<And>a p. ae_port A (ae_new A a p) = p"
    and "\<And>a p q. ae_set_port A q (ae_new A a p) = ae_new A a q"
    and "\<And>a b p. ae_set_address A b (ae_new A a p) = ae_new A b p"
  shows "endpoint_port A (endpoint_new A x p) = p"
    and "endpoint_set_port A q (endpoint_set_address A y (endpoint_new A x p)) = endpoint_new A y q"
    and "endpoint_set_address A y (endpoint_set_port A q (endpoint_new A x p)) = endpoint_new A y q"
  using assms by (simp_all add: endpoint_new_def endpoint_set_port_def endpoint_set_address_def endpoint_port_def)

lemma address_string_round_trip:
  assumes "\<And>a. aa_make A (aa_to_string A a) = (no_error, a)"
  shows "ip_from_string A (ip_to_string A x) = Inr x"
  using assms by (cases x) (simp add: ip_from_string_def ip_to_string_def)

end
