(* ===== verification/Net_Helper.thy ===== *)
theory Net_Helper
  imports Coasio_Error "HOL-Library.Word"
begin

text \<open>
  \<^verbatim>\<open>include/coasio/net/helper.hpp\<close>: trimming and parsing of \<^verbatim>\<open>host:port\<close> strings. A
  \<^verbatim>\<open>std::string_view\<close> is a part of a buffer, given by offset and length; a view that
  reaches past the end of its buffer has no content (\<^term>\<open>None\<close>), reading it is undefined.
  Character classes are those of the C locale. The number of bits of \<^verbatim>\<open>unsigned long\<close> is the
  argument \<open>bits\<close> and the numbers of \<^verbatim>\<open>std::errc\<close> are the argument \<open>errc\<close>.
\<close>

section \<open>Views and characters\<close>

record view =
  v_buf :: string
  v_off :: nat
  v_len :: nat

definition view_of :: "string \<Rightarrow> view" where
  "view_of s = \<lparr>v_buf = s, v_off = 0, v_len = length s\<rparr>"

definition view_text :: "view \<Rightarrow> string option" where
  "view_text v =
     (if v_off v + v_len v \<le> length (v_buf v) then Some (take (v_len v) (drop (v_off v) (v_buf v)))
      else None)"

definition isspace :: "char \<Rightarrow> bool" where
  "isspace c \<longleftrightarrow> (of_char c :: nat) = 32 \<or> 9 \<le> (of_char c :: nat) \<and> (of_char c :: nat) \<le> 13"

definition isdigit :: "char \<Rightarrow> bool" where
  "isdigit c \<longleftrightarrow> 48 \<le> (of_char c :: nat) \<and> (of_char c :: nat) \<le> 57"

section \<open>Trimming\<close>

text \<open>The loop: the rest of the view, the index, and the variables \<^verbatim>\<open>start\<close>, \<^verbatim>\<open>end\<close>, \<^verbatim>\<open>s\<close>.\<close>

fun trim_loop :: "string \<Rightarrow> nat \<Rightarrow> nat \<Rightarrow> nat \<Rightarrow> bool \<Rightarrow> nat \<times> nat" where
  "trim_loop [] i start fin s = (start, fin)"
| "trim_loop (c # cs) i start fin s =
     (if s then
        (let start' = i; s' = (if \<not> isspace c then False else s)
         in trim_loop cs (i + 1) start' fin s')
      else
        (let fin' = i
         in if isspace c then (start, fin') else trim_loop cs (i + 1) start fin' s))"

definition trim_whitespace :: "view \<Rightarrow> string \<Rightarrow> view" where
  "trim_whitespace v text =
     (case trim_loop text 0 0 (length text) True of
        (start, fin) \<Rightarrow>
          if start < fin
          then v\<lparr>v_off := v_off v + start, v_len := fin + 1 - start\<rparr>
          else \<lparr>v_buf = [], v_off = 0, v_len = 0\<rparr>)"

section \<open>Ports\<close>

definition digit_value :: "char \<Rightarrow> nat" where
  "digit_value c = of_char c - 48"

definition decimal :: "string \<Rightarrow> nat" where
  "decimal s = foldl (\<lambda>n c. 10 * n + digit_value c) 0 s"

text \<open>
  \<^verbatim>\<open>std::from_chars\<close> into an \<^verbatim>\<open>unsigned long\<close>, on a string of digits: it fails when the value
  does not fit.
\<close>

definition from_chars_ulong :: "nat \<Rightarrow> string \<Rightarrow> nat option" where
  "from_chars_ulong bits s = (if decimal s < 2 ^ bits then Some (decimal s) else None)"

definition parse_port :: "(errc \<Rightarrow> int) \<Rightarrow> nat \<Rightarrow> string \<Rightarrow> error_code + 16 word" where
  "parse_port errc bits s =
     (if s = [] then Inl (make_errc_code errc Invalid_argument)
      else if \<not> list_all isdigit s then Inl (make_errc_code errc Invalid_argument)
      else case from_chars_ulong bits s of
          None \<Rightarrow> Inl (make_errc_code errc Invalid_argument)
        | Some value \<Rightarrow>
            if value > 65535 then Inl (make_errc_code errc Result_out_of_range)
            else Inr (of_nat value))"

section \<open>Host and port\<close>

record host_port =
  hp_host :: string
  hp_port :: "16 word option"

text \<open>\<^verbatim>\<open>find\<close> of a character; \<^verbatim>\<open>npos\<close> is \<^term>\<open>None\<close>.\<close>

fun find_char :: "char \<Rightarrow> string \<Rightarrow> nat option" where
  "find_char c [] = None"
| "find_char c (x # xs) = (if x = c then Some 0 else map_option Suc (find_char c xs))"

definition substr :: "string \<Rightarrow> nat \<Rightarrow> nat \<Rightarrow> string" where
  "substr s pos n = take n (drop pos s)"

definition parse_bracketed :: "(errc \<Rightarrow> int) \<Rightarrow> nat \<Rightarrow> string \<Rightarrow> error_code + host_port" where
  "parse_bracketed errc bits t =
     (case find_char CHR '']'' t of
        None \<Rightarrow> Inl (make_errc_code errc Invalid_argument)
      | Some close_bracket \<Rightarrow>
          let host = substr t 1 (close_bracket - 1)
          in if host = [] then Inl (make_errc_code errc Invalid_argument)
             else if close_bracket + 1 < length t then
               (if t ! (close_bracket + 1) \<noteq> CHR '':'' then Inl (make_errc_code errc Invalid_argument)
                else case parse_port errc bits (drop (close_bracket + 2) t) of
                    Inl e \<Rightarrow> Inl e
                  | Inr port \<Rightarrow> Inr \<lparr>hp_host = host, hp_port = Some port\<rparr>)
             else Inr \<lparr>hp_host = host, hp_port = None\<rparr>)"

definition parse_trimmed :: "(errc \<Rightarrow> int) \<Rightarrow> nat \<Rightarrow> string \<Rightarrow> error_code + host_port" where
  "parse_trimmed errc bits t =
     (if t = [] then Inl (make_errc_code errc Invalid_argument)
      else if hd t = CHR ''['' then parse_bracketed errc bits t
      else
        let colon_count = count_list t (CHR '':'')
        in if colon_count = 0 then Inr \<lparr>hp_host = t, hp_port = None\<rparr>
           else if colon_count = 1 then
             (case find_char (CHR '':'') t of
                None \<Rightarrow> Inr \<lparr>hp_host = t, hp_port = None\<rparr>
              | Some colon_pos \<Rightarrow>
                  let host = substr t 0 colon_pos; port_str = drop (colon_pos + 1) t
                  in if host = [] \<or> port_str = [] then Inl (make_errc_code errc Invalid_argument)
                     else case parse_port errc bits port_str of
                         Inl e \<Rightarrow> Inl e
                       | Inr port \<Rightarrow> Inr \<lparr>hp_host = host, hp_port = Some port\<rparr>)
           else Inr \<lparr>hp_host = t, hp_port = None\<rparr>)"

text \<open>The whole; \<^term>\<open>None\<close> when the view, or the trimmed view, reaches out of the buffer.\<close>

definition parse_host_port ::
  "(errc \<Rightarrow> int) \<Rightarrow> nat \<Rightarrow> view \<Rightarrow> (error_code + host_port) option" where
  "parse_host_port errc bits v =
     (case view_text v of
        None \<Rightarrow> None
      | Some text \<Rightarrow> map_option (parse_trimmed errc bits) (view_text (trim_whitespace v text)))"

section \<open>What trimming does\<close>

lemma trim_loop_token:
  "\<forall>c \<in> set tok. \<not> isspace c \<Longrightarrow>
   trim_loop (tok @ rest) i start fin False =
     (if rest \<noteq> [] \<and> isspace (hd rest) then (start, i + length tok)
      else trim_loop rest (i + length tok) start (if tok = [] then fin else i + length tok - 1) False)"
proof (induction tok arbitrary: i fin)
  case Nil
  then show ?case by (cases rest) auto
next
  case (Cons c tok)
  then show ?case by simp
qed

lemma trim_loop_spaces:
  "\<forall>c \<in> set ws. isspace c \<Longrightarrow> ws \<noteq> [] \<Longrightarrow>
   trim_loop (ws @ rest) i start fin True = trim_loop rest (i + length ws) (i + length ws - 1) fin True"
proof (induction ws arbitrary: i start)
  case (Cons c ws)
  then show ?case by (cases "ws = []") simp_all
qed simp

lemma trim_loop_first:
  assumes "\<forall>c \<in> set ws. isspace c" and "\<forall>c \<in> set (t # tok). \<not> isspace c"
  shows "trim_loop (ws @ (t # tok) @ rest) 0 0 fin True =
    (if rest \<noteq> [] \<and> isspace (hd rest) then (length ws, length ws + 1 + length tok)
     else trim_loop rest (length ws + 1 + length tok) (length ws)
       (if tok = [] then fin else length ws + length tok) False)"
proof -
  have "trim_loop (ws @ (t # tok) @ rest) 0 0 fin True =
      trim_loop (tok @ rest) (length ws + 1) (length ws) fin False"
    using assms trim_loop_spaces [of ws "(t # tok) @ rest" 0 0 fin] by (cases "ws = []") simp_all
  also have "\<dots> = (if rest \<noteq> [] \<and> isspace (hd rest) then (length ws, length ws + 1 + length tok)
     else trim_loop rest (length ws + 1 + length tok) (length ws)
       (if tok = [] then fin else length ws + length tok) False)"
    using assms(2) trim_loop_token [of tok rest "length ws + 1" "length ws" fin] by auto
  finally show ?thesis .
qed

text \<open>
  What \<^verbatim>\<open>trim_whitespace\<close> really returns, for every input: of blanks \<open>ws\<close>, a word
  \<open>t # tok\<close>, and a rest that is empty or begins with a blank, it returns the word when the word
  has at least two characters and nothing follows, the word and the blank after it when
  something follows, and for a word of one character at the end, or an input of blanks only,
  two characters of which the second lies behind the end of the input.
\<close>

lemma trim_whitespace_result:
  assumes "\<forall>c \<in> set ws. isspace c" and "\<forall>c \<in> set (t # tok). \<not> isspace c"
    and "rest = [] \<or> isspace (hd rest)"
  shows "trim_whitespace v (ws @ (t # tok) @ rest) = v\<lparr>v_off := v_off v + length ws,
      v_len := (if rest = [] \<and> tok \<noteq> [] then length (t # tok) else length (t # tok) + 1)\<rparr> \<and>
    trim_whitespace v (ws @ [t]) = v\<lparr>v_off := v_off v + length ws, v_len := 2\<rparr> \<and>
    (ws \<noteq> [] \<longrightarrow> trim_whitespace v ws = v\<lparr>v_off := v_off v + (length ws - 1), v_len := 2\<rparr>) \<and>
    v_len (trim_whitespace v []) = 0"
proof (intro conjI impI)
  show "trim_whitespace v (ws @ (t # tok) @ rest) = v\<lparr>v_off := v_off v + length ws,
      v_len := (if rest = [] \<and> tok \<noteq> [] then length (t # tok) else length (t # tok) + 1)\<rparr>"
    using trim_loop_first [OF assms(1,2), of rest] assms(3)
    by (auto simp: trim_whitespace_def)
  show "trim_whitespace v (ws @ [t]) = v\<lparr>v_off := v_off v + length ws, v_len := 2\<rparr>"
    using trim_loop_first [OF assms(1), of t "[]" "[]"] assms(2) by (simp add: trim_whitespace_def)
  show "trim_whitespace v ws = v\<lparr>v_off := v_off v + (length ws - 1), v_len := 2\<rparr>" if "ws \<noteq> []"
  proof -
    have "Suc (length ws) - (length ws - Suc 0) = 2" "length ws - Suc 0 < length ws"
      using that by (cases ws; simp)+
    then show ?thesis
      using trim_loop_spaces [OF assms(1) that, of "[]" 0 0] by (simp add: trim_whitespace_def)
  qed
qed (simp add: trim_whitespace_def)

lemma trim_whitespace_result_witness:
  "view_text (trim_whitespace (view_of '' ab'') '' ab'') = Some ''ab'' \<and>
   view_text (trim_whitespace (view_of '' ab '') '' ab '') = Some ''ab '' \<and>
   view_text (trim_whitespace (view_of '' a'') '' a'') = None"
proof -
  have c: "isspace (CHR '' '')" "\<not> isspace (CHR ''a'')" "\<not> isspace (CHR ''b'')"
    by (simp_all add: isspace_def)
  have ws: "\<forall>c \<in> set '' ''. isspace c" and tok: "\<forall>c \<in> set ''ab''. \<not> isspace c" "\<forall>c \<in> set ''a''. \<not> isspace c"
    using c by simp_all
  show ?thesis
    using trim_whitespace_result [OF ws tok(1), of "[]" "view_of '' ab''"]
      trim_whitespace_result [OF ws tok(1), of "'' ''" "view_of '' ab ''"]
      trim_whitespace_result [OF ws tok(2), of "[]" "view_of '' a''"] c(1)
    by (simp add: view_text_def view_of_def)
qed

section \<open>Parsing ports\<close>

text \<open>The decimal notation of a number.\<close>

fun digits_of :: "nat \<Rightarrow> string" where
  "digits_of n = (if n < 10 then [char_of (48 + n)] else digits_of (n div 10) @ [char_of (48 + n mod 10)])"

declare digits_of.simps [simp del]

lemma digit_char: "n < 10 \<Longrightarrow> isdigit (char_of (48 + n)) \<and> digit_value (char_of (48 + n)) = n
  \<and> \<not> isspace (char_of (48 + n))"
  by (simp add: isdigit_def digit_value_def isspace_def of_char_of take_bit_eq_mod)

lemma digits_of_props:
  "list_all isdigit (digits_of n) \<and> decimal (digits_of n) = n \<and> digits_of n \<noteq> [] \<and>
   (\<forall>c \<in> set (digits_of n). \<not> isspace c)"
proof (induction n rule: digits_of.induct)
  case (1 n)
  show ?case
  proof (cases "n < 10")
    case True
    with digit_char [of n] show ?thesis by (subst (1 2 3 4) digits_of.simps) (simp add: decimal_def)
  next
    case False
    with 1 digit_char [of "n mod 10"] show ?thesis
      by (subst (1 2 3 4) digits_of.simps) (auto simp: decimal_def)
  qed
qed

lemma parse_port_value:
  assumes "16 \<le> bits"
  shows "parse_port errc bits s =
    (if s = [] \<or> \<not> list_all isdigit s then Inl (make_errc_code errc Invalid_argument)
     else if decimal s \<le> 65535 then Inr (of_nat (decimal s))
     else if decimal s < 2 ^ bits then Inl (make_errc_code errc Result_out_of_range)
     else Inl (make_errc_code errc Invalid_argument))"
proof -
  have "(2 :: nat) ^ 16 \<le> 2 ^ bits" using assms by (intro power_increasing) auto
  then show ?thesis
    by (auto simp: parse_port_def from_chars_ulong_def)
qed

lemma parse_port_digits: "16 \<le> bits \<Longrightarrow> n \<le> 65535 \<Longrightarrow> parse_port errc bits (digits_of n) = Inr (of_nat n)"
  using digits_of_props [of n] by (simp add: parse_port_value)

text \<open>
  C31. \<^verbatim>\<open>parse_port\<close> accepts exactly the non-empty strings of decimal digits (leading zeros
  allowed) whose value is at most 65535, and returns that value, so printing a port and parsing
  it gives it back; it reports \<^verbatim>\<open>result_out_of_range\<close> exactly for the numbers that do not fit in
  16 bits and fit in \<^verbatim>\<open>unsigned long\<close>, and \<^verbatim>\<open>invalid_argument\<close> exactly for the empty string, a
  string with a character that is no digit, and a number that does not even fit in
  \<^verbatim>\<open>unsigned long\<close>.
\<close>

theorem parse_port_complete:
  assumes "16 \<le> bits" and "errc Invalid_argument \<noteq> errc Result_out_of_range"
  shows "(parse_port errc bits s = Inr p \<longleftrightarrow>
      s \<noteq> [] \<and> list_all isdigit s \<and> decimal s \<le> 65535 \<and> unat p = decimal s) \<and>
    (parse_port errc bits s = Inl (make_errc_code errc Result_out_of_range) \<longleftrightarrow>
      s \<noteq> [] \<and> list_all isdigit s \<and> 65535 < decimal s \<and> decimal s < 2 ^ bits) \<and>
    (parse_port errc bits s = Inl (make_errc_code errc Invalid_argument) \<longleftrightarrow>
      s = [] \<or> \<not> list_all isdigit s \<or> 2 ^ bits \<le> decimal s) \<and>
    parse_port errc bits (digits_of (unat p)) = Inr p"
proof (intro conjI)
  have r: "of_nat (unat p) = p" by simp
  have "unat (of_nat (decimal s) :: 16 word) = decimal s" if "decimal s \<le> 65535"
    using that by (simp add: unat_of_nat)
  then have "of_nat (decimal s) = p \<longleftrightarrow> unat p = decimal s" if "decimal s \<le> 65535"
    using that r by metis
  then show "parse_port errc bits s = Inr p \<longleftrightarrow>
      s \<noteq> [] \<and> list_all isdigit s \<and> decimal s \<le> 65535 \<and> unat p = decimal s"
    by (auto simp: parse_port_value [OF assms(1)])
  show "parse_port errc bits s = Inl (make_errc_code errc Result_out_of_range) \<longleftrightarrow>
      s \<noteq> [] \<and> list_all isdigit s \<and> 65535 < decimal s \<and> decimal s < 2 ^ bits"
    using assms(2) by (auto simp: parse_port_value [OF assms(1)] make_errc_code_def)
  have "(65535 :: nat) < 2 ^ 16" by simp
  also have "(2 :: nat) ^ 16 \<le> 2 ^ bits" using assms(1) by (intro power_increasing) auto
  finally show "parse_port errc bits s = Inl (make_errc_code errc Invalid_argument) \<longleftrightarrow>
      s = [] \<or> \<not> list_all isdigit s \<or> 2 ^ bits \<le> decimal s"
    using assms(2) by (auto simp: parse_port_value [OF assms(1)] make_errc_code_def)
  have "unat p < 2 ^ 16" using unsigned_less [of p] by simp
  then have "unat p \<le> 65535" by simp
  then show "parse_port errc bits (digits_of (unat p)) = Inr p"
    using parse_port_digits [OF assms(1)] by simp
qed

definition demo_errc :: "errc \<Rightarrow> int" where
  "demo_errc e = (case e of Operation_canceled \<Rightarrow> 125 | Invalid_argument \<Rightarrow> 22 | Result_out_of_range \<Rightarrow> 34)"

theorem parse_port_complete_witness:
  "parse_port demo_errc 64 ''0443'' = Inr 443 \<and>
   parse_port demo_errc 32 ''65536'' = Inl (make_errc_code demo_errc Result_out_of_range) \<and>
   parse_port demo_errc 32 ''8o'' = Inl (make_errc_code demo_errc Invalid_argument)"
proof -
  have d: "list_all isdigit ''0443'' \<and> decimal ''0443'' = 443 \<and> list_all isdigit ''65536'' \<and> decimal ''65536'' = 65536"
    by (simp add: isdigit_def decimal_def digit_value_def)
  show ?thesis
    using parse_port_complete [of 64 demo_errc "''0443''" 443] parse_port_complete [of 32 demo_errc "''65536''" 0] d
      parse_port_complete [of 32 demo_errc "''8o''" 0]
    by (simp add: demo_errc_def isdigit_def)
qed

section \<open>Parsing host and port\<close>

lemma trim_clean:
  assumes "\<forall>c \<in> set s. \<not> isspace c" and "2 \<le> length s"
  shows "view_text (trim_whitespace (view_of s) s) = Some s"
proof -
  obtain t u tok where s: "s = t # u # tok"
    using assms(2) by (cases s; cases "tl s") auto
  show ?thesis
    using trim_loop_first [of "[]" t "u # tok" "[]"] assms(1)
    by (simp add: s trim_whitespace_def view_of_def view_text_def)
qed

lemma parse_clean:
  assumes "\<forall>c \<in> set s. \<not> isspace c" and "2 \<le> length s"
  shows "parse_host_port errc bits (view_of s) = Some (parse_trimmed errc bits s)"
  using trim_clean [OF assms] by (simp add: parse_host_port_def view_text_def view_of_def)

lemma find_char_first: "c \<notin> set xs \<Longrightarrow> find_char c (xs @ c # ys) = Some (length xs)"
  by (induction xs) auto

lemma parse_bracketed_shape:
  assumes "host \<noteq> []" and "CHR '']'' \<notin> set host"
  shows "parse_trimmed errc bits (''['' @ host @ '']'') = Inr \<lparr>hp_host = host, hp_port = None\<rparr>"
    and "parse_port errc bits ps = Inr p \<Longrightarrow>
      parse_trimmed errc bits (''['' @ host @ '']:'' @ ps) = Inr \<lparr>hp_host = host, hp_port = Some p\<rparr>"
proof -
  have f: "find_char (CHR '']'') (host @ CHR '']'' # rest) = Some (length host)" for rest
    using assms(2) by (rule find_char_first)
  show "parse_trimmed errc bits (''['' @ host @ '']'') = Inr \<lparr>hp_host = host, hp_port = None\<rparr>"
    using assms(1) f [of "[]"] by (simp add: parse_trimmed_def parse_bracketed_def substr_def)
  show "parse_trimmed errc bits (''['' @ host @ '']:'' @ ps) = Inr \<lparr>hp_host = host, hp_port = Some p\<rparr>"
    if "parse_port errc bits ps = Inr p"
    using assms(1) f [of "CHR '':'' # ps"] that
    by (simp add: parse_trimmed_def parse_bracketed_def substr_def nth_append)
qed

lemma count_list_zero: "c \<notin> set xs \<Longrightarrow> count_list xs c = 0"
  by (simp add: count_list_0_iff)

lemma parse_plain_shape:
  assumes "host \<noteq> []" and "CHR '':'' \<notin> set host" and "hd host \<noteq> CHR ''[''"
  shows "parse_trimmed errc bits host = Inr \<lparr>hp_host = host, hp_port = None\<rparr>"
    and "ps \<noteq> [] \<Longrightarrow> CHR '':'' \<notin> set ps \<Longrightarrow> parse_port errc bits ps = Inr p \<Longrightarrow>
      parse_trimmed errc bits (host @ '':'' @ ps) = Inr \<lparr>hp_host = host, hp_port = Some p\<rparr>"
proof -
  have f: "find_char (CHR '':'') (host @ CHR '':'' # ps) = Some (length host)"
    using assms(2) by (rule find_char_first)
  have h: "hd (host @ xs) = hd host" for xs using assms(1) by simp
  show "parse_trimmed errc bits host = Inr \<lparr>hp_host = host, hp_port = None\<rparr>"
    using assms by (simp add: parse_trimmed_def count_list_zero)
  show "parse_trimmed errc bits (host @ '':'' @ ps) = Inr \<lparr>hp_host = host, hp_port = Some p\<rparr>"
    if "ps \<noteq> []" "CHR '':'' \<notin> set ps" "parse_port errc bits ps = Inr p"
    using assms f h that by (simp add: parse_trimmed_def substr_def count_list_zero)
qed

lemma digits_no_colon: "CHR '':'' \<notin> set (digits_of n)"
proof
  assume "CHR '':'' \<in> set (digits_of n)"
  then have "isdigit (CHR '':'')"
    using digits_of_props [of n] by (auto simp: list_all_iff)
  then show False by (simp add: isdigit_def)
qed

lemma parse_host_and_port:
  assumes "16 \<le> bits" and "host \<noteq> []" and "\<forall>c \<in> set host. \<not> isspace c" and "n \<le> 65535"
  shows "CHR '':'' \<notin> set host \<Longrightarrow> hd host \<noteq> CHR ''['' \<Longrightarrow>
      parse_host_port errc bits (view_of (host @ '':'' @ digits_of n)) =
        Some (Inr \<lparr>hp_host = host, hp_port = Some (of_nat n)\<rparr>)"
    and "CHR '']'' \<notin> set host \<Longrightarrow> parse_host_port errc bits (view_of (''['' @ host @ '']:'' @ digits_of n)) =
        Some (Inr \<lparr>hp_host = host, hp_port = Some (of_nat n)\<rparr>)"
proof -
  note port = parse_port_digits [OF assms(1,4)] and digits = digits_of_props [of n]
  have sp: "\<not> isspace (CHR '':'')" "\<not> isspace (CHR ''['')" "\<not> isspace (CHR '']'')"
    by (simp_all add: isspace_def)
  have len: "1 \<le> length host" "1 \<le> length (digits_of n)"
    using assms(2) digits by (simp_all add: Suc_le_eq)
  show "parse_host_port errc bits (view_of (host @ '':'' @ digits_of n)) =
      Some (Inr \<lparr>hp_host = host, hp_port = Some (of_nat n)\<rparr>)"
    if "CHR '':'' \<notin> set host" "hd host \<noteq> CHR ''[''"
    using parse_plain_shape(2) [OF assms(2), of "digits_of n" errc bits] that digits port digits_no_colon assms(3) sp len
    by (subst parse_clean) auto
  show "parse_host_port errc bits (view_of (''['' @ host @ '']:'' @ digits_of n)) =
      Some (Inr \<lparr>hp_host = host, hp_port = Some (of_nat n)\<rparr>)" if "CHR '']'' \<notin> set host"
    using parse_bracketed_shape(2) [OF assms(2) that port] assms(3) digits sp by (subst parse_clean) auto
qed

lemma parse_host_only:
  assumes "host \<noteq> []" and "\<forall>c \<in> set host. \<not> isspace c"
  shows "CHR '':'' \<notin> set host \<Longrightarrow> hd host \<noteq> CHR ''['' \<Longrightarrow> 2 \<le> length host \<Longrightarrow>
      parse_host_port errc bits (view_of host) = Some (Inr \<lparr>hp_host = host, hp_port = None\<rparr>)"
    and "CHR '']'' \<notin> set host \<Longrightarrow> parse_host_port errc bits (view_of (''['' @ host @ '']'')) =
        Some (Inr \<lparr>hp_host = host, hp_port = None\<rparr>)"
    and "2 \<le> count_list host (CHR '':'') \<Longrightarrow> hd host \<noteq> CHR ''['' \<Longrightarrow>
      parse_host_port errc bits (view_of host) = Some (Inr \<lparr>hp_host = host, hp_port = None\<rparr>)"
proof -
  have sp: "\<not> isspace (CHR ''['')" "\<not> isspace (CHR '']'')" by (simp_all add: isspace_def)
  show "parse_host_port errc bits (view_of host) = Some (Inr \<lparr>hp_host = host, hp_port = None\<rparr>)"
    if "CHR '':'' \<notin> set host" "hd host \<noteq> CHR ''[''" "2 \<le> length host"
    using parse_plain_shape(1) [OF assms(1)] that assms(2) by (subst parse_clean) auto
  show "parse_host_port errc bits (view_of (''['' @ host @ '']'')) = Some (Inr \<lparr>hp_host = host, hp_port = None\<rparr>)"
    if "CHR '']'' \<notin> set host"
    using parse_bracketed_shape(1) [OF assms(1) that] assms(2) sp by (subst parse_clean) auto
  show "parse_host_port errc bits (view_of host) = Some (Inr \<lparr>hp_host = host, hp_port = None\<rparr>)"
    if "2 \<le> count_list host (CHR '':'')" "hd host \<noteq> CHR ''[''"
  proof -
    have "2 \<le> length host" using that count_le_length [of host "CHR '':''"] by linarith
    then show ?thesis using that assms(1,2) by (subst parse_clean) (auto simp: parse_trimmed_def)
  qed
qed

text \<open>
  C30. \<^verbatim>\<open>parse_host_port\<close> reads back what the four notations write, for hosts without white
  space: a name or IPv4 address with a port, or, if it has at least two characters, without one;
  a bracketed address with or without a port; and a bare address with at least two colons, which
  is never split. A bare host of one character is not read back: there the view that is parsed
  reaches behind the input (\<open>short_input_is_overread\<close>).
\<close>

theorem host_port_roundtrip:
  assumes "16 \<le> bits" and "host \<noteq> []" and "\<forall>c \<in> set host. \<not> isspace c" and "n \<le> 65535"
  shows "(CHR '':'' \<notin> set host \<and> hd host \<noteq> CHR ''['' \<longrightarrow>
      parse_host_port errc bits (view_of (host @ '':'' @ digits_of n)) =
        Some (Inr \<lparr>hp_host = host, hp_port = Some (of_nat n)\<rparr>) \<and>
      (2 \<le> length host \<longrightarrow>
        parse_host_port errc bits (view_of host) = Some (Inr \<lparr>hp_host = host, hp_port = None\<rparr>))) \<and>
    (CHR '']'' \<notin> set host \<longrightarrow>
      parse_host_port errc bits (view_of (''['' @ host @ '']:'' @ digits_of n)) =
        Some (Inr \<lparr>hp_host = host, hp_port = Some (of_nat n)\<rparr>) \<and>
      parse_host_port errc bits (view_of (''['' @ host @ '']'')) =
        Some (Inr \<lparr>hp_host = host, hp_port = None\<rparr>)) \<and>
    (2 \<le> count_list host (CHR '':'') \<and> hd host \<noteq> CHR ''['' \<longrightarrow>
      parse_host_port errc bits (view_of host) = Some (Inr \<lparr>hp_host = host, hp_port = None\<rparr>))"
  using parse_host_and_port [OF assms] parse_host_only [OF assms(2,3)] by blast

theorem host_port_roundtrip_witness:
  "parse_host_port demo_errc 64 (view_of ''[::1]:8080'') =
     Some (Inr \<lparr>hp_host = ''::1'', hp_port = Some 8080\<rparr>)"
proof -
  have h: "''::1'' \<noteq> []" "\<forall>c \<in> set ''::1''. \<not> isspace c" "CHR '']'' \<notin> set ''::1''"
    by (simp_all add: isspace_def)
  have d: "digits_of 8080 = ''8080''"
    by (simp add: digits_of.simps [of 8080] digits_of.simps [of 808] digits_of.simps [of 80] digits_of.simps [of 8]
        char_of_def bit_iff_odd)
  have "16 \<le> (64 :: nat)" "8080 \<le> (65535 :: nat)" by simp_all
  from host_port_roundtrip [OF this(1) h(1,2) this(2), of demo_errc] h(3) d show ?thesis by simp
qed

section \<open>Corners the code leaves open\<close>

text \<open>A blank after the text is kept, so it makes a port invalid and becomes part of a host.\<close>

lemma trailing_blank_is_kept:
  "parse_host_port demo_errc 64 (view_of ''a.b:80 '') = Some (Inl (make_errc_code demo_errc Invalid_argument)) \<and>
   parse_host_port demo_errc 64 (view_of ''a.b '') = Some (Inr \<lparr>hp_host = ''a.b '', hp_port = None\<rparr>)"
  by (simp add: parse_host_port_def view_text_def view_of_def trim_whitespace_def isspace_def isdigit_def
      parse_trimmed_def substr_def parse_port_def)

text \<open>One character, or blanks only, make the view reach behind the input.\<close>

lemma short_input_is_overread:
  "parse_host_port demo_errc 64 (view_of ''a'') = None \<and> parse_host_port demo_errc 64 (view_of ''  '') = None"
  by (simp add: parse_host_port_def view_text_def view_of_def trim_whitespace_def isspace_def isdigit_def
      parse_trimmed_def substr_def parse_port_def)

end
