(* ===== verification/Tcp.thy ===== *)
theory Tcp
  imports Async_Op Net_Helper Runtime
begin

text \<open>
  \<^verbatim>\<open>include/coasio/net/tcp/listener.hpp\<close>, \<^verbatim>\<open>include/coasio/net/tcp/socket.hpp\<close> and
  \<^verbatim>\<open>include/coasio/net/base_resolver.hpp\<close>: sockets over Asio. What the synchronous members of
  Asio's sockets and acceptors do to the state of the operating system, and what awaiting its
  asynchronous ones gives, are parameters. A socket or acceptor is the value of the Asio object
  in it.
\<close>

section \<open>The functions of Asio\<close>

record ('w, 'io, 'p, 'ep, 'k) asio_sockets =
  so_new :: "'io \<Rightarrow> 'w \<Rightarrow> 'k \<times> 'w"
  so_destroy :: "'k \<Rightarrow> 'w \<Rightarrow> 'w"
  so_protocol :: "'ep \<Rightarrow> 'p"
  so_open :: "'k \<Rightarrow> 'p \<Rightarrow> 'w \<Rightarrow> error_code \<times> 'w"
  so_is_open :: "'k \<Rightarrow> 'w \<Rightarrow> bool"
  so_reuse_address :: "'k \<Rightarrow> bool \<Rightarrow> 'w \<Rightarrow> error_code \<times> 'w"
  so_bind :: "'k \<Rightarrow> 'ep \<Rightarrow> 'w \<Rightarrow> error_code \<times> 'w"
  so_listen :: "'k \<Rightarrow> int \<Rightarrow> 'w \<Rightarrow> error_code \<times> 'w"
  so_shutdown :: "'k \<Rightarrow> nat \<Rightarrow> 'w \<Rightarrow> error_code \<times> 'w"
  so_close :: "'k \<Rightarrow> 'w \<Rightarrow> error_code \<times> 'w"
  so_available :: "'k \<Rightarrow> 'w \<Rightarrow> error_code \<times> nat"
  so_local_endpoint :: "'k \<Rightarrow> 'w \<Rightarrow> error_code \<times> 'ep"
  so_remote_endpoint :: "'k \<Rightarrow> 'w \<Rightarrow> error_code \<times> 'ep"

text \<open>\<^verbatim>\<open>if (ec) return std::unexpected(ec); return {};\<close>, and with a value.\<close>

definition done_or_error :: "error_code \<times> 'w \<Rightarrow> (error_code + unit) \<times> 'w" where
  "done_or_error r = (case r of (ec, w) \<Rightarrow> (if is_error ec then Inl ec else Inr (), w))"

definition value_or_error :: "error_code \<times> 'v \<Rightarrow> error_code + 'v" where
  "value_or_error r = (case r of (ec, v) \<Rightarrow> if is_error ec then Inl ec else Inr v)"

section \<open>Listeners\<close>

text \<open>\<open>cur\<close> is the runtime of the thread and \<open>io\<close> gives the \<^verbatim>\<open>io_context\<close> of a runtime.\<close>

definition listener_create ::
  "('w, 'io, 'p, 'ep, 'k) asio_sockets \<Rightarrow> (nat \<Rightarrow> 'io) \<Rightarrow> runtime_ptr \<Rightarrow> 'w \<Rightarrow> ('k \<times> 'w) option" where
  "listener_create K io cur w = map_option (\<lambda>c. so_new K c w) (current_io_context io cur)"

text \<open>A local listener is destroyed on every return that does not return it.\<close>

definition listener_bind ::
  "('w, 'io, 'p, 'ep, 'k) asio_sockets \<Rightarrow> (nat \<Rightarrow> 'io) \<Rightarrow> runtime_ptr \<Rightarrow> 'ep \<Rightarrow> bool \<Rightarrow> 'w \<Rightarrow>
   ((error_code + 'k) \<times> 'w) option" where
  "listener_bind K io cur ep reuse_address w =
     (case listener_create K io cur w of
        None \<Rightarrow> None
      | Some (lsnr, w1) \<Rightarrow>
          (case so_open K lsnr (so_protocol K ep) w1 of (ec, w2) \<Rightarrow>
            if is_error ec then Some (Inl ec, so_destroy K lsnr w2)
            else
              (case (if reuse_address then so_reuse_address K lsnr True w2 else (ec, w2)) of (ec, w3) \<Rightarrow>
                if reuse_address \<and> is_error ec then Some (Inl ec, so_destroy K lsnr w3)
                else
                  (case so_bind K lsnr ep w3 of (ec, w4) \<Rightarrow>
                    if is_error ec then Some (Inl ec, so_destroy K lsnr w4)
                    else Some (Inr lsnr, w4)))))"

definition listener_listen ::
  "('w, 'io, 'p, 'ep, 'k) asio_sockets \<Rightarrow> 'k \<Rightarrow> int \<Rightarrow> 'w \<Rightarrow> (error_code + unit) \<times> 'w" where
  "listener_listen K k backlog w = done_or_error (so_listen K k backlog w)"

definition listener_close ::
  "('w, 'io, 'p, 'ep, 'k) asio_sockets \<Rightarrow> 'k \<Rightarrow> 'w \<Rightarrow> (error_code + unit) \<times> 'w" where
  "listener_close K k w = done_or_error (so_close K k w)"

definition listener_is_open :: "('w, 'io, 'p, 'ep, 'k) asio_sockets \<Rightarrow> 'k \<Rightarrow> 'w \<Rightarrow> bool" where
  "listener_is_open K k w = so_is_open K k w"

definition listener_local_endpoint ::
  "('w, 'io, 'p, 'ep, 'k) asio_sockets \<Rightarrow> 'k \<Rightarrow> 'w \<Rightarrow> error_code + 'ep" where
  "listener_local_endpoint K k w = value_or_error (so_local_endpoint K k w)"

section \<open>Accepting\<close>

record 'k listen_awaiter =
  la_ec :: error_code
  la_socket :: "'k option"
  la_scope :: scope_ptr
  la_guard :: nat

definition listener_accept :: "nat \<Rightarrow> 'k listen_awaiter" where
  "listener_accept g = \<lparr>la_ec = no_error, la_socket = None, la_scope = None, la_guard = g\<rparr>"

definition accept_set_cancel_scope ::
  "scope_ptr \<Rightarrow> 'k listen_awaiter \<Rightarrow> emit_cb cancel_world \<Rightarrow>
   ('k listen_awaiter \<times> emit_cb cancel_world) option" where
  "accept_set_cancel_scope s aw cw =
     map_option (\<lambda>cw'. (aw\<lparr>la_scope := s\<rparr>, cw')) (bind (la_guard aw) s cw)"

text \<open>\<open>aborted\<close> is \<^verbatim>\<open>asio::error::operation_aborted\<close>.\<close>

definition accept_ready ::
  "error_code \<Rightarrow> 'k listen_awaiter \<Rightarrow> emit_cb cancel_world \<Rightarrow> bool \<times> 'k listen_awaiter" where
  "accept_ready aborted aw cw =
     (if already_cancelled (la_scope aw) cw then (True, aw\<lparr>la_ec := aborted\<rparr>) else (False, aw))"

text \<open>Scheduling on no runtime is undefined.\<close>

definition accept_suspend ::
  "error_code \<Rightarrow> ('s \<Rightarrow> 's) \<Rightarrow> nat \<Rightarrow> runtime_ptr \<Rightarrow> handle \<Rightarrow> 'k listen_awaiter \<Rightarrow> (nat \<Rightarrow> 's) \<Rightarrow>
   emit_cb cancel_world \<Rightarrow>
   ('k listen_awaiter \<times> (nat \<Rightarrow> 's) \<times> emit_cb cancel_world \<times> wake list) option" where
  "accept_suspend aborted start a rt h aw sigs cw =
     (case arm (la_guard aw) (Emit a) cw of
        None \<Rightarrow> None
      | Some (Arm_already_cancelled, cw') \<Rightarrow>
          if rt = None then None else Some (aw\<lparr>la_ec := aborted\<rparr>, sigs, cw', [(rt, h)])
      | Some (Arm_armed, cw') \<Rightarrow> Some (aw, sigs(a := start (sigs a)), cw', []))"

definition accept_complete ::
  "runtime_ptr \<Rightarrow> handle \<Rightarrow> error_code \<Rightarrow> 'k \<Rightarrow> 'k listen_awaiter \<Rightarrow> emit_cb cancel_world \<Rightarrow>
   ('k listen_awaiter \<times> emit_cb cancel_world \<times> wake list) option" where
  "accept_complete rt h ec sock aw cw =
     (let cw' = snd (disarm (la_guard aw) cw);
          aw1 = aw\<lparr>la_ec := ec\<rparr>;
          aw2 = (if \<not> is_error ec then aw1\<lparr>la_socket := Some sock\<rparr> else aw1)
      in if rt = None then None else Some (aw2, cw', [(rt, h)]))"

text \<open>\<^verbatim>\<open>value()\<close> of an empty \<^verbatim>\<open>optional\<close> throws, in a function that may not throw.\<close>

definition accept_resume ::
  "'k listen_awaiter \<Rightarrow> emit_cb cancel_world \<Rightarrow> ((error_code + 'k) \<times> emit_cb cancel_world) option" where
  "accept_resume aw cw =
     (let cw' = snd (disarm (la_guard aw) cw)
      in if is_error (la_ec aw) then Some (Inl (la_ec aw), cw')
         else map_option (\<lambda>k. (Inr k, cw')) (la_socket aw))"

section \<open>Sockets\<close>

definition socket_create ::
  "('w, 'io, 'p, 'ep, 'k) asio_sockets \<Rightarrow> (nat \<Rightarrow> 'io) \<Rightarrow> runtime_ptr \<Rightarrow> 'w \<Rightarrow> ('k \<times> 'w) option" where
  "socket_create K io cur w = map_option (\<lambda>c. so_new K c w) (current_io_context io cur)"

definition socket_bind ::
  "('w, 'io, 'p, 'ep, 'k) asio_sockets \<Rightarrow> 'k \<Rightarrow> 'ep \<Rightarrow> 'w \<Rightarrow> (error_code + unit) \<times> 'w" where
  "socket_bind K k ep w =
     (if \<not> so_is_open K k w then
        (case so_open K k (so_protocol K ep) w of (ec, w1) \<Rightarrow>
          if is_error ec then (Inl ec, w1)
          else (case so_bind K k ep w1 of (ec, w2) \<Rightarrow> (if is_error ec then Inl ec else Inr (), w2)))
      else (case so_bind K k ep w of (ec, w2) \<Rightarrow> (if is_error ec then Inl ec else Inr (), w2)))"

definition socket_available :: "('w, 'io, 'p, 'ep, 'k) asio_sockets \<Rightarrow> 'k \<Rightarrow> 'w \<Rightarrow> error_code + nat" where
  "socket_available K k w = value_or_error (so_available K k w)"

definition socket_shutdown ::
  "('w, 'io, 'p, 'ep, 'k) asio_sockets \<Rightarrow> 'k \<Rightarrow> nat \<Rightarrow> 'w \<Rightarrow> (error_code + unit) \<times> 'w" where
  "socket_shutdown K k how w = done_or_error (so_shutdown K k how w)"

definition socket_close ::
  "('w, 'io, 'p, 'ep, 'k) asio_sockets \<Rightarrow> 'k \<Rightarrow> 'w \<Rightarrow> (error_code + unit) \<times> 'w" where
  "socket_close K k w = done_or_error (so_close K k w)"

definition socket_is_open :: "('w, 'io, 'p, 'ep, 'k) asio_sockets \<Rightarrow> 'k \<Rightarrow> 'w \<Rightarrow> bool" where
  "socket_is_open K k w = so_is_open K k w"

definition socket_remote_endpoint :: "('w, 'io, 'p, 'ep, 'k) asio_sockets \<Rightarrow> 'k \<Rightarrow> 'w \<Rightarrow> error_code + 'ep" where
  "socket_remote_endpoint K k w = value_or_error (so_remote_endpoint K k w)"

definition socket_local_endpoint :: "('w, 'io, 'p, 'ep, 'k) asio_sockets \<Rightarrow> 'k \<Rightarrow> 'w \<Rightarrow> error_code + 'ep" where
  "socket_local_endpoint K k w = value_or_error (so_local_endpoint K k w)"

text \<open>
  The asynchronous members, each an awaitable of one operation of Asio. The results of the
  resolver have the type \<open>'eps\<close> and a value of that type that is the empty result. \<^verbatim>\<open>read\<close> of a
  socket is not modelled: it hands Asio the span itself, which is no sequence of buffers, so it has no meaning.
\<close>

datatype ('k, 'ep, 'eps) net_request =
    Async_connect_range 'k 'eps
  | Async_connect 'k 'ep
  | Async_read_some 'k "nat \<times> nat"
  | Async_write 'k "nat \<times> nat"
  | Async_write_some 'k "nat \<times> nat"
  | Async_wait 'k nat
  | Async_resolve string string

definition socket_connect_impl ::
  "'k \<Rightarrow> 'eps \<Rightarrow> nat \<Rightarrow> ('k, 'ep, 'eps) net_request \<times> unit asio_awaitable" where
  "socket_connect_impl k eps g = async_op (Async_connect_range k eps) g ()"

definition socket_connect :: "'k \<Rightarrow> 'ep \<Rightarrow> nat \<Rightarrow> ('k, 'ep, 'eps) net_request \<times> unit asio_awaitable" where
  "socket_connect k ep g = async_op (Async_connect k ep) g ()"

definition socket_read_some :: "'k \<Rightarrow> nat \<times> nat \<Rightarrow> nat \<Rightarrow> ('k, 'ep, 'eps) net_request \<times> nat asio_awaitable" where
  "socket_read_some k buffer g = async_op (Async_read_some k buffer) g 0"

definition socket_write :: "'k \<Rightarrow> nat \<times> nat \<Rightarrow> nat \<Rightarrow> ('k, 'ep, 'eps) net_request \<times> nat asio_awaitable" where
  "socket_write k buffer g = async_op (Async_write k buffer) g 0"

definition socket_write_some :: "'k \<Rightarrow> nat \<times> nat \<Rightarrow> nat \<Rightarrow> ('k, 'ep, 'eps) net_request \<times> nat asio_awaitable" where
  "socket_write_some k buffer g = async_op (Async_write_some k buffer) g 0"

definition socket_wait :: "'k \<Rightarrow> nat \<Rightarrow> nat \<Rightarrow> ('k, 'ep, 'eps) net_request \<times> unit asio_awaitable" where
  "socket_wait k type g = async_op (Async_wait k type) g ()"

definition listener_wait :: "'k \<Rightarrow> nat \<Rightarrow> nat \<Rightarrow> ('k, 'ep, 'eps) net_request \<times> unit asio_awaitable" where
  "listener_wait k type g = async_op (Async_wait k type) g ()"

definition resolver_resolve ::
  "'eps \<Rightarrow> string \<Rightarrow> string \<Rightarrow> nat \<Rightarrow> ('k, 'ep, 'eps) net_request \<times> 'eps asio_awaitable" where
  "resolver_resolve none host service g = async_op (Async_resolve host service) g none"

text \<open>
  \<^verbatim>\<open>connect_to\<close>, with what its two awaits give, \<open>resolve\<close> and \<open>connect\<close>, as parameters;
  \<open>errc\<close> and \<open>bits\<close> are those of the parser. \<^verbatim>\<open>std::to_string\<close> of a port is its decimal notation.
  The resolver and the socket are made on the thread that runs the coroutine, whose runtime is
  \<open>cur\<close>.
\<close>

definition connect_to ::
  "(errc \<Rightarrow> int) \<Rightarrow> nat \<Rightarrow> ('w, 'io, 'p, 'ep, 'k) asio_sockets \<Rightarrow> (nat \<Rightarrow> 'io) \<Rightarrow> runtime_ptr \<Rightarrow>
   (string \<Rightarrow> string \<Rightarrow> 'w \<Rightarrow> (error_code + 'eps) \<times> 'w) \<Rightarrow>
   ('k \<Rightarrow> 'eps \<Rightarrow> 'w \<Rightarrow> (error_code + unit) \<times> 'w) \<Rightarrow> view \<Rightarrow> 'w \<Rightarrow> ((error_code + 'k) \<times> 'w) option" where
  "connect_to errc bits K io cur resolve connect host_and_port w =
     (case parse_host_port errc bits host_and_port of
        None \<Rightarrow> None
      | Some (Inl e) \<Rightarrow> Some (Inl e, w)
      | Some (Inr hap) \<Rightarrow>
          (case hp_port hap of
             None \<Rightarrow> Some (Inl (make_errc_code errc Invalid_argument), w)
           | Some port \<Rightarrow>
               if current_io_context io cur = None then None
               else
                 (case resolve (hp_host hap) (digits_of (unat port)) w of
                    (Inl e, w1) \<Rightarrow> Some (Inl e, w1)
                  | (Inr eps, w1) \<Rightarrow>
                      (case socket_create K io cur w1 of
                         None \<Rightarrow> None
                       | Some (sck, w2) \<Rightarrow>
                           (case connect sck eps w2 of
                              (Inl e, w3) \<Rightarrow> Some (Inl e, so_destroy K sck w3)
                            | (Inr (), w3) \<Rightarrow> Some (Inr sck, w3))))))"

section \<open>Binding\<close>

text \<open>A sequence of calls that stops at the first error.\<close>

fun run_calls :: "('w \<Rightarrow> error_code \<times> 'w) list \<Rightarrow> 'w \<Rightarrow> error_code option \<times> 'w" where
  "run_calls [] w = (None, w)"
| "run_calls (f # fs) w = (case f w of (ec, w') \<Rightarrow> if is_error ec then (Some ec, w') else run_calls fs w')"

text \<open>
  \<^verbatim>\<open>bind\<close> of a listener opens its new acceptor for the protocol of the endpoint, sets the
  option if asked to, binds it, in this order and no further than the first error, which it
  returns after closing the acceptor; without an error it returns the acceptor. \<^verbatim>\<open>bind\<close> of a
  socket does the same with the socket it is called on, which it opens only if it is not open.
\<close>

lemma bind_stops_at_first_error:
  "listener_bind K io (Some r) ep reuse w =
     (case so_new K (io r) w of (a, w1) \<Rightarrow>
        (case run_calls ([so_open K a (so_protocol K ep)] @ (if reuse then [so_reuse_address K a True] else []) @
             [so_bind K a ep]) w1 of
           (None, w2) \<Rightarrow> Some (Inr a, w2)
         | (Some ec, w2) \<Rightarrow> Some (Inl ec, so_destroy K a w2))) \<and>
   socket_bind K k ep w =
     (case run_calls ((if so_is_open K k w then [] else [so_open K k (so_protocol K ep)]) @ [so_bind K k ep]) w of
        (None, w2) \<Rightarrow> (Inr (), w2)
      | (Some ec, w2) \<Rightarrow> (Inl ec, w2))"
  by (auto simp: listener_bind_def listener_create_def current_io_context_def socket_bind_def split: prod.splits)

section \<open>Connecting\<close>

lemma connect_parsed:
  assumes "parse_host_port errc bits v = Some (Inr \<lparr>hp_host = host, hp_port = Some (of_nat n)\<rparr>)" and "n \<le> 65535"
  shows "connect_to errc bits K io (Some r) resolve connect v w =
    (case resolve host (digits_of n) w of
       (Inl e, w1) \<Rightarrow> Some (Inl e, w1)
     | (Inr eps, w1) \<Rightarrow>
         (case so_new K (io r) w1 of (sck, w2) \<Rightarrow>
            (case connect sck eps w2 of
               (Inl e, w3) \<Rightarrow> Some (Inl e, so_destroy K sck w3)
             | (Inr _, w3) \<Rightarrow> Some (Inr sck, w3))))"
proof -
  have "unat (of_nat n :: 16 word) = n"
    using assms(2) by (simp add: unat_of_nat)
  then show ?thesis
    using assms(1) by (simp add: connect_to_def current_io_context_def socket_create_def
        split: prod.splits sum.splits unit.splits)
qed

text \<open>
  C38. \<^verbatim>\<open>connect_to\<close> given \<open>host:port\<close> or \<open>[host]:port\<close> resolves exactly that host and the
  decimal notation of that port, connects a new socket to what the resolver found and returns
  it, or returns the error of the first of the two steps that fails, closing the socket if
  there is one; a text that does not parse, or has no port, is refused before anything is asked
  of the system.
\<close>

theorem connect_to_reaches_host_and_port:
  assumes "16 \<le> bits" and "host \<noteq> []" and "\<forall>c \<in> set host. \<not> isspace c" and "n \<le> 65535"
    and "(text = host @ '':'' @ digits_of n \<and> CHR '':'' \<notin> set host \<and> hd host \<noteq> CHR ''['') \<or>
      (text = ''['' @ host @ '']:'' @ digits_of n \<and> CHR '']'' \<notin> set host)"
  shows "connect_to errc bits K io (Some r) resolve connect (view_of text) w =
      (case resolve host (digits_of n) w of
         (Inl e, w1) \<Rightarrow> Some (Inl e, w1)
       | (Inr eps, w1) \<Rightarrow>
           (case so_new K (io r) w1 of (sck, w2) \<Rightarrow>
              (case connect sck eps w2 of
                 (Inl e, w3) \<Rightarrow> Some (Inl e, so_destroy K sck w3)
               | (Inr _, w3) \<Rightarrow> Some (Inr sck, w3)))) \<and>
    (parse_host_port errc bits v = Some (Inr hp) \<and> hp_port hp = None \<longrightarrow>
      connect_to errc bits K io cur resolve connect v w = Some (Inl (make_errc_code errc Invalid_argument), w)) \<and>
    (parse_host_port errc bits v = Some (Inl e) \<longrightarrow>
      connect_to errc bits K io cur resolve connect v w = Some (Inl e, w))"
proof (intro conjI impI)
  have "parse_host_port errc bits (view_of text) = Some (Inr \<lparr>hp_host = host, hp_port = Some (of_nat n)\<rparr>)"
    using assms(5) parse_host_and_port [OF assms(1-4)] by blast
  then show "connect_to errc bits K io (Some r) resolve connect (view_of text) w =
      (case resolve host (digits_of n) w of
         (Inl e, w1) \<Rightarrow> Some (Inl e, w1)
       | (Inr eps, w1) \<Rightarrow>
           (case so_new K (io r) w1 of (sck, w2) \<Rightarrow>
              (case connect sck eps w2 of
                 (Inl e, w3) \<Rightarrow> Some (Inl e, so_destroy K sck w3)
               | (Inr _, w3) \<Rightarrow> Some (Inr sck, w3))))"
    by (rule connect_parsed [OF _ assms(4)])
qed (simp_all add: connect_to_def)

definition demo_sockets :: "(string list, nat, nat, nat, nat) asio_sockets" where
  "demo_sockets = \<lparr>so_new = (\<lambda>c w. (c + 7, w @ [''new''])), so_destroy = (\<lambda>k w. w @ [''destroy'']),
     so_protocol = (\<lambda>ep. 4), so_open = (\<lambda>k p w. (no_error, w @ [''open''])), so_is_open = (\<lambda>k w. ''open'' \<in> set w),
     so_reuse_address = (\<lambda>k b w. (no_error, w @ [''reuse''])), so_bind = (\<lambda>k ep w. (no_error, w @ [''bind''])),
     so_listen = (\<lambda>k n w. (no_error, w @ [''listen''])), so_shutdown = (\<lambda>k n w. (no_error, w @ [''shutdown''])),
     so_close = (\<lambda>k w. (no_error, w @ [''close''])), so_available = (\<lambda>k w. (no_error, 0)),
     so_local_endpoint = (\<lambda>k w. (no_error, 1)), so_remote_endpoint = (\<lambda>k w. (no_error, 2))\<rparr>"

theorem connect_to_reaches_host_and_port_witness:
  "connect_to demo_errc 64 demo_sockets (\<lambda>r. r) (Some 5) (\<lambda>host service w. (Inr (host @ service), w @ [''resolve'']))
     (\<lambda>k eps w. (if eps = ''::18080'' then Inr () else Inl err_cancelled, w @ [''connect'']))
     (view_of (''['' @ ''::1'' @ '']:'' @ digits_of 8080)) [] =
   Some (Inr 12, [''resolve'', ''new'', ''connect''])"
proof -
  have h: "''::1'' \<noteq> []" "\<forall>c \<in> set ''::1''. \<not> isspace c"
    by (simp_all add: isspace_def)
  have b: "16 \<le> (64 :: nat)" "8080 \<le> (65535 :: nat)" by simp_all
  have t: "(''['' @ ''::1'' @ '']:'' @ digits_of 8080 = ''::1'' @ '':'' @ digits_of 8080 \<and>
      CHR '':'' \<notin> set ''::1'' \<and> hd ''::1'' \<noteq> CHR ''['') \<or>
    (''['' @ ''::1'' @ '']:'' @ digits_of 8080 = ''['' @ ''::1'' @ '']:'' @ digits_of 8080 \<and> CHR '']'' \<notin> set ''::1'')"
    by simp
  have d: "digits_of 8080 = ''8080''"
    by (simp add: digits_of.simps [of 8080] digits_of.simps [of 808] digits_of.simps [of 80] digits_of.simps [of 8]
        char_of_def bit_iff_odd)
  from connect_to_reaches_host_and_port [OF b(1) h b(2) t, THEN conjunct1, of demo_errc demo_sockets "\<lambda>r. r" 5
      "\<lambda>host service w. (Inr (host @ service), w @ [''resolve''])"
      "\<lambda>k eps w. (if eps = ''::18080'' then Inr () else Inl err_cancelled, w @ [''connect''])" "[]"]
  show ?thesis by (simp add: d demo_sockets_def)
qed

section \<open>Accepting a connection\<close>

text \<open>The awaiter of \<^verbatim>\<open>accept\<close> seen as the general one; its result is the optional socket.\<close>

definition accept_awaitable :: "'k listen_awaiter \<Rightarrow> 'k option asio_awaitable" where
  "accept_awaitable aw = \<lparr>ao_ec = la_ec aw, ao_scope = la_scope aw, ao_guard = la_guard aw, ao_store = la_socket aw\<rparr>"

lemma accept_awaitable_inj [simp]: "accept_awaitable a = accept_awaitable b \<longleftrightarrow> a = b"
  by (cases a; cases b) (auto simp: accept_awaitable_def)

lemma accept_is_async_op:
  "\<not> already_cancelled (la_scope aw) cw \<Longrightarrow>
    map_prod id accept_awaitable (accept_ready aborted aw cw) = async_ready (accept_awaitable aw) cw"
  "arm (la_guard aw) (Emit a) cw = Some (Arm_armed, cw1) \<Longrightarrow>
    map_option (map_prod accept_awaitable id) (accept_suspend aborted start a (Some r) h aw sigs cw) =
      async_suspend start a (Some r) h (accept_awaitable aw) sigs cw"
  "map_option (map_prod accept_awaitable id) (accept_complete (Some r) h ec k aw cw) =
     Some (async_complete (Some r) h ec (if is_error ec then None else Some (Some k)) (accept_awaitable aw) cw)"
  by (auto simp: accept_ready_def async_ready_def accept_suspend_def async_suspend_defs accept_complete_def
      async_complete_def accept_awaitable_def Let_def)

text \<open>
  \<^verbatim>\<open>co_await listener.accept()\<close>, not cancelled, starts one accept operation, is scheduled by
  its handler and gives the accepted socket or the error code of the operation, and the scope no
  longer reaches the operation; on a scope that is cancelled already it does not suspend, starts
  nothing and gives \<^verbatim>\<open>operation_aborted\<close>.
\<close>

lemma accept_delivers_socket:
  assumes "cancel_inv cw" and "\<not> cancelled sc cw" and "armed_on sc cw = {}"
    and "g_state (guards cw (la_guard aw)) = Idle" and "g_scope (guards cw (la_guard aw)) = Some sc"
    and "la_scope aw = Some sc" and "is_error aborted"
  shows "accept_ready aborted aw cw = (False, aw) \<and>
    (\<exists>cw1. accept_suspend aborted start a (Some r) h aw sigs cw = Some (aw, sigs(a := start (sigs a)), cw1, []) \<and>
      (\<forall>ec k. \<exists>aw2 cw2 cw3. accept_complete (Some r) h ec k aw cw1 = Some (aw2, cw2, [(Some r, h)]) \<and>
        map_option fst (accept_resume aw2 cw2) = Some (if is_error ec then Inl ec else Inr k) \<and>
        (\<forall>sg. cancel (run_emit_cb emit) sc cw2 sg = Some (cw3, sg)))) \<and>
    (cancelled sc cwx \<longrightarrow> fst (accept_ready aborted aw cwx) \<and>
      map_option fst (accept_resume (snd (accept_ready aborted aw cwx)) cwx) = Some (Inl aborted))"
proof (intro conjI)
  let ?a = "accept_awaitable aw"
  have g: "g_state (guards cw (ao_guard ?a)) = Idle" "g_scope (guards cw (ao_guard ?a)) = Some sc" "ao_scope ?a = Some sc"
    using assms(4-6) by (simp_all add: accept_awaitable_def)
  show "accept_ready aborted aw cw = (False, aw)"
    using assms(2,6) by (simp add: accept_ready_def already_cancelled_def)
  obtain cwa where arm: "arm (la_guard aw) (Emit a) cw = Some (Arm_armed, cwa)"
    using arm_idle [OF assms(4,5,2,1,3)] by blast
  obtain cw1 where cw1: "async_suspend start a (Some r) h ?a sigs cw = Some (?a, sigs(a := start (sigs a)), cw1, [])"
    and finish: "\<forall>ec res. \<exists>aw2 cw2 cw3. async_complete (Some r) h ec res ?a cw1 = (aw2, cw2, [(Some r, h)]) \<and>
        fst (async_resume aw2 cw2) = (if is_error ec then Inl ec else Inr (case res of Some x \<Rightarrow> x | None \<Rightarrow> ao_store ?a)) \<and>
        (\<forall>sg. cancel (run_emit_cb emit) sc cw2 sg = Some (cw3, sg))"
    using async_delivers [OF assms(1-3) g, of start a r h sigs emit, THEN conjunct2]
    by (elim exE conjE) (rule that)
  have s: "accept_suspend aborted start a (Some r) h aw sigs cw = Some (aw, sigs(a := start (sigs a)), cw1, [])"
    using accept_is_async_op(2) [OF arm, of aborted start r h sigs] cw1 by auto
  moreover have "\<exists>aw2 cw2 cw3. accept_complete (Some r) h ec k aw cw1 = Some (aw2, cw2, [(Some r, h)]) \<and>
      map_option fst (accept_resume aw2 cw2) = Some (if is_error ec then Inl ec else Inr k) \<and>
      (\<forall>sg. cancel (run_emit_cb emit) sc cw2 sg = Some (cw3, sg))" for ec k
  proof -
    obtain a2 cw2 cw3 where c: "async_complete (Some r) h ec (if is_error ec then None else Some (Some k)) ?a cw1 =
        (a2, cw2, [(Some r, h)])" "\<forall>sg. cancel (run_emit_cb emit) sc cw2 sg = Some (cw3, sg)"
      using finish [rule_format, of ec "if is_error ec then None else Some (Some k)"] by (elim exE conjE) (rule that)
    with accept_is_async_op(3) [of r h ec k aw cw1] obtain aw2 where
      aw2: "accept_complete (Some r) h ec k aw cw1 = Some (aw2, cw2, [(Some r, h)])" by auto
    then have "map_option fst (accept_resume aw2 cw2) = Some (if is_error ec then Inl ec else Inr k)"
      by (auto simp: accept_complete_def accept_resume_def Let_def)
    with aw2 c(2) show ?thesis by blast
  qed
  ultimately show "\<exists>cw1. accept_suspend aborted start a (Some r) h aw sigs cw =
      Some (aw, sigs(a := start (sigs a)), cw1, []) \<and>
      (\<forall>ec k. \<exists>aw2 cw2 cw3. accept_complete (Some r) h ec k aw cw1 = Some (aw2, cw2, [(Some r, h)]) \<and>
        map_option fst (accept_resume aw2 cw2) = Some (if is_error ec then Inl ec else Inr k) \<and>
        (\<forall>sg. cancel (run_emit_cb emit) sc cw2 sg = Some (cw3, sg)))"
    by blast
  show "cancelled sc cwx \<longrightarrow> fst (accept_ready aborted aw cwx) \<and>
      map_option fst (accept_resume (snd (accept_ready aborted aw cwx)) cwx) = Some (Inl aborted)"
    using assms(6,7) by (auto simp: accept_ready_def accept_resume_def already_cancelled_def Let_def)
qed

definition demo_accept :: "nat listen_awaiter" where
  "demo_accept = \<lparr>la_ec = no_error, la_socket = None, la_scope = Some 0, la_guard = 3\<rparr>"

lemma accept_delivers_socket_witness:
  "\<exists>cw1 aw2 cw2. accept_suspend err_cancelled Suc 2 (Some 0) 9 demo_accept (\<lambda>_. 0) demo_scope =
       Some (demo_accept, (\<lambda>_. 0)(2 := Suc 0), cw1, []) \<and>
     accept_complete (Some 0) 9 no_error 44 demo_accept cw1 = Some (aw2, cw2, [(Some 0, 9)]) \<and>
     map_option fst (accept_resume aw2 cw2) = Some (Inr 44)"
proof -
  have on_demo: "cancel_inv demo_scope" "\<not> cancelled 0 demo_scope" "armed_on 0 demo_scope = {}"
    "g_state (guards demo_scope (la_guard demo_accept)) = Idle" "g_scope (guards demo_scope (la_guard demo_accept)) = Some 0"
    "la_scope demo_accept = Some 0" "is_error err_cancelled"
    by (simp_all add: demo_accept_def)
  from accept_delivers_socket [OF on_demo, of Suc 2 0 9 "\<lambda>_. 0"] obtain cw1 where
    "accept_suspend err_cancelled Suc 2 (Some 0) 9 demo_accept (\<lambda>_. 0) demo_scope =
      Some (demo_accept, (\<lambda>_. 0)(2 := Suc 0), cw1, [])"
    "\<exists>aw2 cw2. accept_complete (Some 0) 9 no_error 44 demo_accept cw1 = Some (aw2, cw2, [(Some 0, 9)]) \<and>
      map_option fst (accept_resume aw2 cw2) = Some (Inr 44)"
    by fastforce
  then show ?thesis by blast
qed

end
