(* ===== verification/Echo_Server.thy ===== *)
theory Echo_Server
  imports Echo_Metrics Endpoint Tcp
begin

text \<open>
  The programs \<^verbatim>\<open>examples/echo_server.cpp\<close> and \<^verbatim>\<open>examples/echo_client.cpp\<close>: the coroutine that serves one
  client, all of these together with the counters they share, the coroutine that accepts
  clients, and the coroutine of a client. A coroutine is the place where it is suspended and its
  local variables; it is resumed by an event, the result of what it awaits, and does some
  requests until it suspends again. An event that does not fit the place is \<^term>\<open>None\<close>. The order in
  which the threads resume the coroutines is the order of the events.
\<close>

section \<open>Serving one client\<close>

datatype handler_at = Unstarted | In_read | In_write "8 word list" | Ended

record handler =
  hd_at :: handler_at
  hd_buffer :: "8 word list"

definition new_handler :: handler where
  "new_handler = \<lparr>hd_at = Unstarted, hd_buffer = []\<rparr>"

datatype handler_event = Resume | Read_done "error_code + 8 word list" | Write_done "error_code + nat"

datatype handler_action = Ask_read nat | Ask_write "8 word list" | Log_read error_code | Log_write error_code

text \<open>\<^verbatim>\<open>break\<close> ends the body; the destructor of \<open>guard\<close> runs.\<close>

definition handler_ends :: "handler \<Rightarrow> server_stats \<Rightarrow> handler \<times> server_stats" where
  "handler_ends h st = (h\<lparr>hd_at := Ended\<rparr>, st\<lparr>active_clients := active_clients st - 1\<rparr>)"

text \<open>
  \<open>read_some\<close> writes the bytes it has read to the front of the buffer. The counters are atomic and
  wrap.
\<close>

fun client_handler ::
  "handler_event \<Rightarrow> handler \<Rightarrow> server_stats \<Rightarrow> (handler \<times> server_stats \<times> handler_action list) option" where
  "client_handler Resume h st =
     (if hd_at h \<noteq> Unstarted then None
      else Some (h\<lparr>hd_at := In_read, hd_buffer := replicate 1024 0\<rparr>,
                 st\<lparr>active_clients := active_clients st + 1\<rparr>, [Ask_read 1024]))"
| "client_handler (Read_done r) h st =
     (if hd_at h \<noteq> In_read then None
      else case r of
          Inl e \<Rightarrow> (case handler_ends h st of (h', st') \<Rightarrow> Some (h', st', [Log_read e]))
        | Inr bs \<Rightarrow>
            if length bs > length (hd_buffer h) then None
            else
              let bytesRead = length bs;
                  h1 = h\<lparr>hd_buffer := bs @ drop bytesRead (hd_buffer h)\<rparr>;
                  st1 = st\<lparr>total_bytes_received := total_bytes_received st + of_nat bytesRead\<rparr>
              in if bytesRead = 0 then (case handler_ends h1 st1 of (h', st') \<Rightarrow> Some (h', st', []))
                 else
                   let out = take bytesRead (hd_buffer h1)
                   in Some (h1\<lparr>hd_at := In_write out\<rparr>, st1, [Ask_write out]))"
| "client_handler (Write_done r) h st =
     (case hd_at h of
        In_write out \<Rightarrow>
          (case r of
             Inl e \<Rightarrow> (case handler_ends h st of (h', st') \<Rightarrow> Some (h', st', [Log_write e]))
           | Inr bytes_written \<Rightarrow>
               Some (h\<lparr>hd_at := In_read\<rparr>,
                     st\<lparr>total_bytes_sent := total_bytes_sent st + of_nat bytes_written\<rparr>, [Ask_read 1024]))
      | _ \<Rightarrow> None)"

section \<open>All clients\<close>

record server =
  sv_handlers :: "nat \<Rightarrow> handler"
  sv_stats :: server_stats

definition new_server :: server where
  "new_server = \<lparr>sv_handlers = (\<lambda>_. new_handler), sv_stats = new_stats\<rparr>"

type_synonym server_log = "(nat \<times> handler_event \<times> handler_action list) list"

primrec server_run :: "(nat \<times> handler_event) list \<Rightarrow> server \<Rightarrow> (server \<times> server_log) option" where
  "server_run [] s = Some (s, [])"
| "server_run (e # es) s =
     (case client_handler (snd e) (sv_handlers s (fst e)) (sv_stats s) of
        None \<Rightarrow> None
      | Some (h, st, acts) \<Rightarrow>
          map_option (\<lambda>(s', l). (s', (fst e, snd e, acts) # l))
            (server_run es \<lparr>sv_handlers = (sv_handlers s)(fst e := h), sv_stats = st\<rparr>))"

section \<open>Accepting\<close>

text \<open>\<^verbatim>\<open>__user_main\<close>, up to its loop and for each result of \<^verbatim>\<open>accept\<close>; the tasks it spawns are returned.\<close>

datatype 'k server_task = Monitor_task | Client_task 'k

definition server_start ::
  "('w, 'io, 'p, 'ep, 'k) asio_sockets \<Rightarrow> ('a, 'ep) asio_addresses \<Rightarrow> (nat \<Rightarrow> 'io) \<Rightarrow> runtime_ptr \<Rightarrow> int \<Rightarrow> 'w \<Rightarrow>
   ((int + 'k) \<times> 'k server_task list \<times> 'w) option" where
  "server_start K A io cur max_listen_connections w =
     (case listener_bind K io cur (asio_endpoint (endpoint_new A (ip_v4 A) 8080)) True w of
        None \<Rightarrow> None
      | Some (Inl e, w1) \<Rightarrow> Some (Inl 1, [], w1)
      | Some (Inr lsnr, w1) \<Rightarrow>
          (case listener_listen K lsnr max_listen_connections w1 of
             (Inl e, w2) \<Rightarrow> Some (Inl (- 1), [], so_destroy K lsnr w2)
           | (Inr _, w2) \<Rightarrow> Some (Inr lsnr, [Monitor_task], w2)))"

definition server_accepted ::
  "('w, 'io, 'p, 'ep, 'k) asio_sockets \<Rightarrow> 'k \<Rightarrow> error_code + 'k \<Rightarrow> 'w \<Rightarrow> int option \<times> 'k server_task list \<times> 'w" where
  "server_accepted K lsnr r w =
     (case r of Inl e \<Rightarrow> (Some 1, [], so_destroy K lsnr w) | Inr socket \<Rightarrow> (None, [Client_task socket], w))"

primrec server_accepts ::
  "('w, 'io, 'p, 'ep, 'k) asio_sockets \<Rightarrow> 'k \<Rightarrow> (error_code + 'k) list \<Rightarrow> 'w \<Rightarrow> int option \<times> 'k server_task list \<times> 'w" where
  "server_accepts K lsnr [] w = (None, [], w)"
| "server_accepts K lsnr (r # rs) w =
     (case server_accepted K lsnr r w of
        (Some c, ts, w') \<Rightarrow> (Some c, ts, w')
      | (None, ts, w') \<Rightarrow> (case server_accepts K lsnr rs w' of (c, ts', w'') \<Rightarrow> (c, ts @ ts', w'')))"

text \<open>\<^verbatim>\<open>main\<close> blocks on the coroutine and has no \<^verbatim>\<open>return\<close>.\<close>

definition main_result :: "int \<Rightarrow> int" where
  "main_result user_result = 0"

section \<open>The client\<close>

datatype client_at = In_connect | In_send | In_receive | Client_ended

record echo_client =
  ec_at :: client_at
  ec_buffer :: "8 word list"

datatype 'k client_event = Connected "error_code + 'k" | Wrote "error_code + nat" | Received "error_code + 8 word list"

datatype client_action = Send_buffer "8 word list" | Receive_some nat | Client_log error_code | Client_closed

text \<open>\<open>distrib\<close> are the numbers the generator gives.\<close>

fun client_step ::
  "nat \<Rightarrow> (nat \<Rightarrow> 16 word) \<Rightarrow> 'k client_event \<Rightarrow> echo_client \<Rightarrow> (echo_client \<times> client_action list) option" where
  "client_step message_size distrib (Connected r) c =
     (if ec_at c \<noteq> In_connect then None
      else case r of
          Inl e \<Rightarrow> Some (c\<lparr>ec_at := Client_ended\<rparr>, [Client_log e])
        | Inr _ \<Rightarrow>
            let buffer = map (\<lambda>i. ucast (distrib i)) [0..<message_size]
            in Some (c\<lparr>ec_at := In_send, ec_buffer := buffer\<rparr>, [Send_buffer buffer]))"
| "client_step message_size distrib (Wrote r) c =
     (if ec_at c \<noteq> In_send then None
      else case r of
          Inl e \<Rightarrow> Some (c\<lparr>ec_at := Client_ended\<rparr>, [Client_log e])
        | Inr _ \<Rightarrow> Some (c\<lparr>ec_at := In_receive\<rparr>, [Receive_some (length (ec_buffer c))]))"
| "client_step message_size distrib (Received r) c =
     (if ec_at c \<noteq> In_receive then None
      else case r of
          Inl e \<Rightarrow> Some (c\<lparr>ec_at := Client_ended\<rparr>, [Client_log e])
        | Inr bs \<Rightarrow>
            if length bs > length (ec_buffer c) then None
            else
              let c1 = c\<lparr>ec_buffer := bs @ drop (length bs) (ec_buffer c)\<rparr>
              in if bs = [] then Some (c1\<lparr>ec_at := Client_ended\<rparr>, [Client_closed])
                 else Some (c1\<lparr>ec_at := In_send\<rparr>, [Send_buffer (ec_buffer c1)]))"

text \<open>\<^verbatim>\<open>__user_main\<close> of the client: the clients it spawns, and its loop over the results of the sleeps.\<close>

definition client_main_spawns :: "(nat \<times> nat) list" where
  "client_main_spawns = map (\<lambda>i. (i, 1024)) [0..<20]"

primrec client_main_loop :: "(error_code + unit) list \<Rightarrow> (int \<times> error_code) option" where
  "client_main_loop [] = None"
| "client_main_loop (slp_res # rs) = (case slp_res of Inl e \<Rightarrow> Some (0, e) | Inr _ \<Rightarrow> client_main_loop rs)"

section \<open>What the server echoes and counts\<close>

text \<open>The bytes a client's handler has read, those it has asked to write, and the numbers of bytes of all handlers.\<close>

definition bytes_read :: "nat \<Rightarrow> server_log \<Rightarrow> 8 word list" where
  "bytes_read i l = concat (map (\<lambda>(j, e, _). case e of Read_done (Inr bs) \<Rightarrow> if j = i then bs else [] | _ \<Rightarrow> []) l)"

definition bytes_asked :: "nat \<Rightarrow> server_log \<Rightarrow> 8 word list" where
  "bytes_asked i l = concat (map (\<lambda>(j, _, acts). if j = i then
     concat (map (\<lambda>a. case a of Ask_write bs \<Rightarrow> bs | _ \<Rightarrow> []) acts) else []) l)"

definition read_total :: "server_log \<Rightarrow> nat" where
  "read_total l = sum_list (map (\<lambda>(_, e, _). case e of Read_done (Inr bs) \<Rightarrow> length bs | _ \<Rightarrow> 0) l)"

definition write_total :: "server_log \<Rightarrow> nat" where
  "write_total l = sum_list (map (\<lambda>(_, e, _). case e of Write_done (Inr n) \<Rightarrow> n | _ \<Rightarrow> 0) l)"

definition serving :: "server \<Rightarrow> nat set" where
  "serving s = {i. hd_at (sv_handlers s i) \<noteq> Unstarted \<and> hd_at (sv_handlers s i) \<noteq> Ended}"

lemmas echo_books = bytes_read_def bytes_asked_def read_total_def write_total_def

text \<open>What is written is what has just been read, and there is room for it.\<close>

lemma handler_step_echoes:
  "client_handler e h st = Some (h', st', acts) \<Longrightarrow>
   concat (map (\<lambda>a. case a of Ask_write bs \<Rightarrow> bs | _ \<Rightarrow> []) acts) =
     (case e of Read_done (Inr bs) \<Rightarrow> bs | _ \<Rightarrow> [])"
  by (cases e) (auto simp: handler_ends_def Let_def split: if_splits sum.splits handler_at.splits)

lemma handler_step_counts:
  assumes "client_handler e h st = Some (h', st', acts)"
  shows "total_bytes_received st' = total_bytes_received st +
      of_nat (case e of Read_done (Inr bs) \<Rightarrow> length bs | _ \<Rightarrow> 0)"
    and "total_bytes_sent st' = total_bytes_sent st + of_nat (case e of Write_done (Inr n) \<Rightarrow> n | _ \<Rightarrow> 0)"
    and "active_clients st' + of_bool (hd_at h \<noteq> Unstarted \<and> hd_at h \<noteq> Ended) =
      active_clients st + of_bool (hd_at h' \<noteq> Unstarted \<and> hd_at h' \<noteq> Ended)"
  using assms by (cases e; auto simp: handler_ends_def Let_def split: if_splits sum.splits handler_at.splits)+

lemma serving_step:
  assumes "finite (serving s)"
  shows "finite (serving \<lparr>sv_handlers = (sv_handlers s)(i := h), sv_stats = st\<rparr>) \<and>
    of_nat (card (serving \<lparr>sv_handlers = (sv_handlers s)(i := h), sv_stats = st\<rparr>)) + of_bool (i \<in> serving s) =
    of_nat (card (serving s)) + (of_bool (hd_at h \<noteq> Unstarted \<and> hd_at h \<noteq> Ended) :: 64 word)"
proof -
  let ?b = "hd_at h \<noteq> Unstarted \<and> hd_at h \<noteq> Ended"
  have e: "serving \<lparr>sv_handlers = (sv_handlers s)(i := h), sv_stats = st\<rparr> = (if ?b then insert i (serving s) else serving s - {i})"
    by (auto simp: serving_def)
  have "card (if ?b then insert i (serving s) else serving s - {i}) + of_bool (i \<in> serving s) =
      card (serving s) + of_bool ?b"
    using assms card_Suc_Diff1 [OF assms, of i] by (auto simp: card_insert_if)
  then have "of_nat (card (if ?b then insert i (serving s) else serving s - {i}) + of_bool (i \<in> serving s)) =
      (of_nat (card (serving s) + of_bool ?b) :: 64 word)"
    by (rule arg_cong)
  with e assms show ?thesis by (simp only: of_nat_add of_nat_of_bool) simp
qed

lemma server_run_echoes:
  assumes "server_run es s = Some (s', l)" and "finite (serving s)"
    and "active_clients (sv_stats s) = of_nat (card (serving s))"
  shows "bytes_asked i l = bytes_read i l \<and>
    total_bytes_received (sv_stats s') = total_bytes_received (sv_stats s) + of_nat (read_total l) \<and>
    total_bytes_sent (sv_stats s') = total_bytes_sent (sv_stats s) + of_nat (write_total l) \<and>
    active_clients (sv_stats s') = of_nat (card (serving s')) \<and> finite (serving s')"
  using assms
proof (induction es arbitrary: s l)
  case (Cons e es)
  obtain h st acts where h: "client_handler (snd e) (sv_handlers s (fst e)) (sv_stats s) = Some (h, st, acts)"
    using Cons.prems(1) by (auto split: option.splits)
  let ?s1 = "\<lparr>sv_handlers = (sv_handlers s)(fst e := h), sv_stats = st\<rparr>"
  obtain l1 where l1: "server_run es ?s1 = Some (s', l1)" "l = (fst e, snd e, acts) # l1"
    using Cons.prems(1) h by auto
  note c = handler_step_counts [OF h] and w = serving_step [OF Cons.prems(2), of "fst e" h st]
  have "active_clients st = of_nat (card (serving ?s1))"
  proof -
    have m: "fst e \<in> serving s \<longleftrightarrow> hd_at (sv_handlers s (fst e)) \<noteq> Unstarted \<and> hd_at (sv_handlers s (fst e)) \<noteq> Ended"
      by (simp add: serving_def)
    have "active_clients st + of_bool (fst e \<in> serving s) = of_nat (card (serving ?s1)) + of_bool (fst e \<in> serving s)"
      using c(3) w [THEN conjunct2] Cons.prems(3) unfolding m by (simp only:)
    then show ?thesis by (rule add_right_imp_eq)
  qed
  from Cons.IH [OF l1(1)] w this
  have ih: "bytes_asked i l1 = bytes_read i l1"
    "total_bytes_received (sv_stats s') = total_bytes_received st + of_nat (read_total l1)"
    "total_bytes_sent (sv_stats s') = total_bytes_sent st + of_nat (write_total l1)"
    "active_clients (sv_stats s') = of_nat (card (serving s'))" "finite (serving s')"
    by simp_all
  have "bytes_asked i l = bytes_read i l"
    using ih(1) handler_step_echoes [OF h] l1(2)
    by (auto simp: bytes_read_def bytes_asked_def split: handler_event.splits sum.splits)
  moreover have "total_bytes_received (sv_stats s') = total_bytes_received (sv_stats s) + of_nat (read_total l)"
    "total_bytes_sent (sv_stats s') = total_bytes_sent (sv_stats s) + of_nat (write_total l)"
    using ih(2,3) c(1,2) l1(2) by (simp_all add: read_total_def write_total_def)
  ultimately show ?case using ih(4,5) by simp
qed (simp add: echo_books)

text \<open>
  C39. The echo server echoes: however the threads interleave the handlers of its clients, each
  handler asks to write exactly the bytes it has read, all of them and in order, at every
  moment; and the counters the handlers share are exact (modulo \<open>2 ^ 64\<close>): the bytes read, the
  bytes written, and the number of handlers that have started and not ended, on whichever
  branch they end.
\<close>

theorem echo_server_echoes:
  assumes "server_run es new_server = Some (s, l)"
  shows "bytes_asked i l = bytes_read i l \<and>
    total_bytes_received (sv_stats s) = of_nat (read_total l) \<and>
    total_bytes_sent (sv_stats s) = of_nat (write_total l) \<and>
    active_clients (sv_stats s) = of_nat (card {i. hd_at (sv_handlers s i) \<noteq> Unstarted \<and> hd_at (sv_handlers s i) \<noteq> Ended})"
proof -
  have "serving new_server = {}" by (simp add: serving_def new_server_def new_handler_def)
  then have "finite (serving new_server)" "active_clients (sv_stats new_server) = of_nat (card (serving new_server))"
    by (simp_all add: new_server_def new_stats_def)
  from server_run_echoes [OF assms this, of i] show ?thesis
    by (simp add: new_server_def new_stats_def serving_def)
qed

theorem echo_server_echoes_witness:
  "\<exists>s l. server_run [(1, Resume), (2, Resume), (1, Read_done (Inr [7, 8])), (2, Read_done (Inl err_cancelled)),
       (1, Write_done (Inr 2)), (1, Read_done (Inr [9]))] new_server = Some (s, l) \<and>
     bytes_asked 1 l = [7, 8, 9] \<and> total_bytes_received (sv_stats s) = 3 \<and> total_bytes_sent (sv_stats s) = 2 \<and>
     active_clients (sv_stats s) = 1"
proof -
  let ?es = "[(1, Resume), (2, Resume), (1, Read_done (Inr [7, 8])), (2, Read_done (Inl err_cancelled)),
       (1, Write_done (Inr 2)), (1, Read_done (Inr [9]))]"
  obtain s l where r: "server_run ?es new_server = Some (s, l)"
    and b: "bytes_read 1 l = [7, 8, 9]" "read_total l = 3" "write_total l = 2"
    and h: "\<And>i. hd_at (sv_handlers s i) = (if i = 1 then In_write [9] else if i = 2 then Ended else Unstarted)"
    by (auto simp: new_server_def new_handler_def handler_ends_def Let_def echo_books if_distrib [of hd_at] cong: if_cong)
  have a: "{i. hd_at (sv_handlers s i) \<noteq> Unstarted \<and> hd_at (sv_handlers s i) \<noteq> Ended} = {1}"
    by (auto simp: h)
  from echo_server_echoes [OF r, of 1] b have "bytes_asked 1 l = [7, 8, 9]"
    "total_bytes_received (sv_stats s) = 3" "total_bytes_sent (sv_stats s) = 2" "active_clients (sv_stats s) = 1"
    unfolding a by simp_all
  with r show ?thesis by blast
qed

section \<open>The other coroutines\<close>

text \<open>
  The main coroutine of the server spawns one handler for every socket accepted before the first
  error, in order; at the error it closes its listener and returns 1. Its result is not the
  result of the program.
\<close>

lemma server_accepts_until_error:
  "server_accepts K lsnr (map Inr ks @ [Inl e]) w = (Some 1, map Client_task ks, so_destroy K lsnr w)"
  by (induction ks) (simp_all add: server_accepted_def)

text \<open>
  A client always writes a whole message; what it reads goes to the front of the message it
  writes next.
\<close>

lemma client_writes_messages:
  assumes "client_step n d e c = Some (c', acts)" and "ec_at c \<noteq> In_connect \<Longrightarrow> length (ec_buffer c) = n"
  shows "ec_at c' \<notin> {In_connect, Client_ended} \<Longrightarrow> length (ec_buffer c') = n"
    and "Send_buffer bs \<in> set acts \<Longrightarrow> length bs = n"
  using assms by (cases e; auto simp: Let_def split: if_splits sum.splits)+

end
