(* ===== verification/Blocking_Await.thy ===== *)
theory Blocking_Await
  imports Spawn_Blocking
begin

text \<open>
  One \<^verbatim>\<open>co_await\<close> of \<^verbatim>\<open>spawn_blocking\<close> from its first to its last step, as a step relation: the
  four parts of \<^verbatim>\<open>await_suspend\<close> on the thread of the coroutine, the worker of the pool that
  takes the block and executes it, the callback of the guard, and everything else that may
  happen to the pool meanwhile, in any order. In particular a worker may execute the block
  between \<^verbatim>\<open>pool_->enqueue(cb)\<close> and \<^verbatim>\<open>cb_ = cb\<close>.
\<close>

section \<open>The function and the state\<close>

text \<open>
  What the function given to \<^verbatim>\<open>spawn_blocking\<close> does: with the runtime that is current on the
  thread that runs it and the state of the operating system, it leaves an error code in a
  variable of the coroutine, returns or throws, and leaves another state. \<^term>\<open>None\<close> is
  undefined behaviour.
\<close>

type_synonym ('w, 'e, 'v) blocking_call =
  "runtime_ptr \<Rightarrow> 'w \<Rightarrow> (error_code \<times> ('e, 'v) ran \<times> 'w) option"

text \<open>
  The constructor of the pool starts its threads with \<^verbatim>\<open>worker_loop()\<close> alone, so on them
  the thread-local pointer to the current runtime keeps its initial value.
\<close>

definition pool_thread_runtime :: runtime_ptr where
  "pool_thread_runtime = None"

text \<open>How far the thread of the coroutine is in \<^verbatim>\<open>await_suspend\<close>.\<close>

datatype await_point = Created | Armed_only | Submitted | Stored | Suspended | Not_suspended

text \<open>
  \<open>aw_runs\<close> lists the executions of the function: the state it found, and what it did.
\<close>

record ('w, 'e, 'v) await =
  aw_awaiter :: "('e, 'v) blocking_awaiter"
  aw_blocking :: "('e, 'v) blocking"
  aw_point :: await_point
  aw_taken :: bool
  aw_wakes :: "wake list"
  aw_ec :: error_code
  aw_world :: 'w
  aw_runs :: "('w \<times> error_code \<times> ('e, 'v) ran \<times> 'w) list"

definition await_start :: "('e, 'v) blocking_awaiter \<Rightarrow> ('e, 'v) blocking \<Rightarrow> 'w \<Rightarrow> ('w, 'e, 'v) await" where
  "await_start aw st w = \<lparr>aw_awaiter = aw, aw_blocking = st, aw_point = Created, aw_taken = False,
     aw_wakes = [], aw_ec = no_error, aw_world = w, aw_runs = []\<rparr>"

section \<open>Steps\<close>

text \<open>
  Executing the block when the function does \<open>r\<close>: the field that says what the function does
  gets its value when the function is called.
\<close>

definition execute_as :: "('e, 'v) ran \<Rightarrow> ('e, 'v) control_block \<Rightarrow> ('e, 'v) control_block \<times> wake list" where
  "execute_as r b = execute (b\<lparr>cb_fn := r\<rparr>)"

text \<open>The scopes are in any state \<open>cw\<close> when \<^verbatim>\<open>await_suspend\<close> looks at them.\<close>

inductive await_step ::
  "('w, 'e, 'v) blocking_call \<Rightarrow> nat \<Rightarrow> runtime_ptr \<Rightarrow> handle \<Rightarrow>
   ('w, 'e, 'v) await \<Rightarrow> ('w, 'e, 'v) await \<Rightarrow> bool" for f c rt h where
  a_arm: "\<lbrakk>aw_point s = Created; blocking_arm c rt h (aw_awaiter s) (aw_blocking s) cw = Some (r, st, cw')\<rbrakk> \<Longrightarrow>
    await_step f c rt h s (s\<lparr>aw_blocking := st,
      aw_point := (case r of Arm_already_cancelled \<Rightarrow> Not_suspended | Arm_armed \<Rightarrow> Armed_only)\<rparr>)"
| a_submit: "\<lbrakk>aw_point s = Armed_only; blocking_submit c (aw_blocking s) = (b, st)\<rbrakk> \<Longrightarrow>
    await_step f c rt h s (s\<lparr>aw_blocking := st, aw_point := (if b then Submitted else Not_suspended)\<rparr>)"
| a_store: "aw_point s = Submitted \<Longrightarrow>
    await_step f c rt h s (s\<lparr>aw_awaiter := blocking_store c (aw_awaiter s), aw_point := Stored\<rparr>)"
| a_recheck: "\<lbrakk>aw_point s = Stored; blocking_recheck c (aw_awaiter s) (aw_blocking s) cw = (st, k)\<rbrakk> \<Longrightarrow>
    await_step f c rt h s (s\<lparr>aw_blocking := st, aw_wakes := aw_wakes s @ k, aw_point := Suspended\<rparr>)"
| w_take: "take_item (bl_pool (aw_blocking s)) = (Some c, p) \<Longrightarrow>
    await_step f c rt h s (s\<lparr>aw_blocking := (aw_blocking s)\<lparr>bl_pool := p\<rparr>, aw_taken := True\<rparr>)"
| w_execute: "\<lbrakk>aw_taken s; f pool_thread_runtime (aw_world s) = Some (ec, r, w);
      on_block (execute_as r) c (aw_blocking s) = (st, k)\<rbrakk> \<Longrightarrow>
    await_step f c rt h s (s\<lparr>aw_blocking := st, aw_taken := False, aw_wakes := aw_wakes s @ k,
      aw_ec := ec, aw_world := w, aw_runs := aw_runs s @ [(aw_world s, ec, r, w)]\<rparr>)"
| c_callback: "\<lbrakk>aw_point s \<noteq> Created;
      run_blocking_cb (Withdraw_block c) (aw_blocking s, aw_wakes s) = (st, k)\<rbrakk> \<Longrightarrow>
    await_step f c rt h s (s\<lparr>aw_blocking := st, aw_wakes := k\<rparr>)"
| o_others: "\<lbrakk>bl_blocks st c = bl_blocks (aw_blocking s) c;
      count_list (p_queue (bl_pool st)) c = count_list (p_queue (bl_pool (aw_blocking s))) c\<rbrakk> \<Longrightarrow>
    await_step f c rt h s (s\<lparr>aw_blocking := st, aw_world := w\<rparr>)"

inductive await_run ::
  "('w, 'e, 'v) blocking_call \<Rightarrow> nat \<Rightarrow> runtime_ptr \<Rightarrow> handle \<Rightarrow>
   ('w, 'e, 'v) await \<Rightarrow> ('w, 'e, 'v) await \<Rightarrow> bool" for f c rt h s0 where
  await_here: "await_run f c rt h s0 s0"
| await_on: "await_run f c rt h s0 s \<Longrightarrow> await_step f c rt h s s' \<Longrightarrow> await_run f c rt h s0 s'"

text \<open>
  The coroutine goes on with \<^verbatim>\<open>await_resume\<close> when \<^verbatim>\<open>await_ready\<close> has said so, when
  \<^verbatim>\<open>await_suspend\<close> has returned false, or when it has been scheduled; in the last case its old
  thread may still be in \<^verbatim>\<open>await_suspend\<close>.
\<close>

definition may_resume :: "('w, 'e, 'v) await \<Rightarrow> bool" where
  "may_resume s \<longleftrightarrow> aw_point s \<in> {Created, Not_suspended} \<or> aw_wakes s \<noteq> []"

definition await_result ::
  "('w, 'e, 'v) await \<Rightarrow> blocking_cb cancel_world \<Rightarrow> ('e, error_code + 'v) ran option" where
  "await_result s cw = map_option fst (blocking_resume (aw_awaiter s) (aw_blocking s) cw)"

section \<open>Where the block is\<close>

text \<open>
  Before the submission nobody else knows the block; afterwards it is queued, taken, executed or
  withdrawn, and the coroutine has been scheduled in the last two cases, once.
\<close>

definition await_books ::
  "('w, 'e, 'v) blocking_call \<Rightarrow> nat \<Rightarrow> runtime_ptr \<Rightarrow> handle \<Rightarrow> ('w, 'e, 'v) await \<Rightarrow> bool" where
  "await_books f c rt h s \<longleftrightarrow>
     (let b = bl_blocks (aw_blocking s) c; n = count_list (p_queue (bl_pool (aw_blocking s))) c;
          idle = (aw_wakes s = [] \<and> aw_runs s = [] \<and> aw_ec s = no_error);
          fresh = (block_wake b = (rt, h) \<and> \<not> cb_cancelled b \<and> cb_outcome b = empty_outcome)
      in ba_cb (aw_awaiter s) = (if aw_point s \<in> {Stored, Suspended} then Some c else None) \<and>
        (if aw_point s \<in> {Submitted, Stored, Suspended}
         then idle \<and> fresh \<and> n + of_bool (aw_taken s) = 1 \<or>
           n = 0 \<and> \<not> aw_taken s \<and> aw_wakes s = [(rt, h)] \<and> aw_runs s = [] \<and> aw_ec s = no_error \<and>
             block_wake b = (rt, h) \<and> cb_cancelled b \<or>
           n = 0 \<and> \<not> aw_taken s \<and> aw_wakes s = [(rt, h)] \<and> block_wake b = (rt, h) \<and> \<not> cb_cancelled b \<and>
             (\<exists>w ec r w'. aw_runs s = [(w, ec, r, w')] \<and> aw_ec s = ec \<and>
               f pool_thread_runtime w = Some (ec, r, w') \<and> cb_outcome b = store_outcome r empty_outcome)
         else idle \<and> n = 0 \<and> \<not> aw_taken s \<and> (aw_point s = Armed_only \<longrightarrow> fresh)))"

lemmas await_books_simps = await_books_def Let_def

lemma withdraw_effect:
  "withdraw_block c st = (st', k) \<longleftrightarrow>
     (if c \<in> set (p_queue (bl_pool st))
      then st' = st\<lparr>bl_pool := (bl_pool st)\<lparr>p_queue := remove1 c (p_queue (bl_pool st))\<rparr>,
          bl_blocks := (bl_blocks st)(c := (bl_blocks st c)\<lparr>cb_cancelled := True\<rparr>)\<rparr> \<and>
        k = [block_wake (bl_blocks st c)]
      else st' = st \<and> k = [])"
  by (auto simp: withdraw_block_def pool_try_cancel_def on_block_def mark_cancelled_and_schedule_def
      block_wake_def)

lemma count_queued: "c \<in> set q \<longleftrightarrow> count_list q c \<noteq> 0"
  by (simp add: count_list_0_iff)

lemma withdraw_books:
  assumes "await_books f c rt h s" and "withdraw_block c (aw_blocking s) = (st, k)"
    and "aw_point s \<noteq> Created"
  shows "await_books f c rt h (s\<lparr>aw_blocking := st, aw_wakes := aw_wakes s @ k\<rparr>)"
proof (cases "c \<in> set (p_queue (bl_pool (aw_blocking s)))")
  case True
  then have "count_list (p_queue (bl_pool (aw_blocking s))) c \<noteq> 0" by (simp add: count_queued)
  with assms(1,3) have "count_list (p_queue (bl_pool (aw_blocking s))) c = 1" "\<not> aw_taken s" "aw_wakes s = []"
      "aw_runs s = []" "aw_ec s = no_error" "block_wake (bl_blocks (aw_blocking s) c) = (rt, h)"
      "aw_point s \<in> {Submitted, Stored, Suspended}"
      "ba_cb (aw_awaiter s) = (if aw_point s \<in> {Stored, Suspended} then Some c else None)"
    by (auto simp: await_books_simps split: if_splits)
  with assms(2) True show ?thesis
    by (auto simp: await_books_simps withdraw_effect block_wake_def)
next
  case False
  with assms(2) have "st = aw_blocking s" "k = []" by (simp_all add: withdraw_effect)
  with assms(1) show ?thesis by simp
qed

lemma await_books_recheck:
  "await_books f c rt h s \<Longrightarrow> aw_point s = Stored \<Longrightarrow> await_books f c rt h (s\<lparr>aw_point := Suspended\<rparr>)"
  by (simp add: await_books_simps)

lemma await_books_others:
  "bl_blocks st c = bl_blocks (aw_blocking s) c \<Longrightarrow>
   count_list (p_queue (bl_pool st)) c = count_list (p_queue (bl_pool (aw_blocking s))) c \<Longrightarrow>
   await_books f c rt h (s\<lparr>aw_blocking := st, aw_world := w\<rparr>) = await_books f c rt h s"
  by (simp add: await_books_simps)

lemma take_effect:
  assumes "take_item p = (Some c, p')"
  shows "p_queue p = c # p_queue p'"
  using blocking_queue.next_Some [of p c] assms by simp

lemma await_step_books:
  assumes "await_step f c rt h s s'" and "await_books f c rt h s"
  shows "await_books f c rt h s'"
  using assms
proof (induction rule: await_step.induct)
  case (a_arm s cw r st cw')
  then show ?case
    by (auto simp: await_books_simps blocking_arm_def make_block_def block_wake_def split: arm_result.splits)
next
  case (a_submit s b st)
  then show ?case
    by (auto simp: await_books_simps blocking_submit_def pool_enqueue_def block_wake_def split: prod.splits if_splits)
next
  case (a_store s)
  then show ?case by (simp add: await_books_simps blocking_store_def)
next
  case (a_recheck s cw st k)
  have "await_books f c rt h (s\<lparr>aw_blocking := st, aw_wakes := aw_wakes s @ k\<rparr>)"
  proof (cases "already_cancelled (ba_scope (aw_awaiter s)) cw")
    case True
    with a_recheck show ?thesis by (intro withdraw_books) (auto simp: blocking_recheck_def)
  next
    case False
    with a_recheck show ?thesis by (auto simp: blocking_recheck_def)
  qed
  from await_books_recheck [OF this] a_recheck show ?case by simp
next
  case (w_take s p)
  then show ?case using take_effect [of "bl_pool (aw_blocking s)" c p]
    by (auto simp: await_books_simps split: if_splits)
next
  case (w_execute s ec r w st k)
  then show ?case
    by (auto simp: await_books_simps on_block_def execute_as_def execute_def block_wake_def split: if_splits)
next
  case (c_callback s st k)
  then obtain k' where "withdraw_block c (aw_blocking s) = (st, k')" "k = aw_wakes s @ k'"
    by (auto split: prod.splits)
  with withdraw_books [of f c rt h s st k'] c_callback show ?case by simp
next
  case (o_others st s w)
  then show ?case by (simp add: await_books_others)
qed

lemma await_run_books:
  assumes "await_run f c rt h (await_start aw st w) s"
    and "ba_cb aw = None" and "c \<notin> set (p_queue (bl_pool st))"
  shows "await_books f c rt h s"
  using assms(1)
proof (induction rule: await_run.induct)
  case await_here
  show ?case using assms(2,3) by (simp add: await_books_simps await_start_def count_list_0_iff)
qed (rule await_step_books)

text \<open>What has become of the function, when the coroutine goes on.\<close>

lemma await_ends:
  assumes "await_books f c rt h s" and "may_resume s"
  shows "aw_runs s = [] \<and> await_result s cw = Some (Gave (Inl err_cancelled)) \<and> aw_ec s = no_error \<or>
    (\<exists>w r w'. aw_runs s = [(w, aw_ec s, r, w')] \<and> f pool_thread_runtime w = Some (aw_ec s, r, w') \<and>
      await_result s cw = Some (if aw_point s = Submitted then Gave (Inl err_cancelled) else expected_of r))"
  using assms
  by (auto simp: await_books_simps may_resume_def await_result_def blocking_resume_def blocking_result_def
      split: if_splits)

lemma await_scheduled_once:
  assumes "await_books f c rt h s"
  shows "length (aw_wakes s) \<le> 1 \<and> set (aw_wakes s) \<subseteq> {(rt, h)} \<and> length (aw_runs s) \<le> 1 \<and>
    (aw_runs s \<noteq> [] \<longrightarrow> aw_wakes s = [(rt, h)])"
  using assms by (auto simp: await_books_simps split: if_splits)

section \<open>What awaiting a blocking function gives\<close>

text \<open>
  C22. Awaiting \<^verbatim>\<open>spawn_blocking\<close>, however the thread in \<^verbatim>\<open>await_suspend\<close>, the worker that takes
  the block, the callback of a cancellation and the rest of the program interleave: the function
  is run at most once, and the coroutine is scheduled at most once, by the worker that ran the
  function or by who took the block back. When the coroutine goes on, \<^verbatim>\<open>await_resume\<close> gives
  \<^verbatim>\<open>cancelled\<close> if the function has not been run; if it has been run, the value it returned or the
  exception it threw, provided that the block had been stored in the awaiter: in the window
  between \<^verbatim>\<open>pool_->enqueue(cb)\<close> and \<^verbatim>\<open>cb_ = cb\<close> the result is \<^verbatim>\<open>cancelled\<close> in spite of the run.
\<close>

theorem blocking_returns_function_result:
  assumes "await_run f c rt h (await_start aw st w0) s"
    and "ba_cb aw = None" and "c \<notin> set (p_queue (bl_pool st))"
  shows "length (aw_runs s) \<le> 1 \<and> length (aw_wakes s) \<le> 1 \<and> set (aw_wakes s) \<subseteq> {(rt, h)} \<and>
    (aw_runs s \<noteq> [] \<longrightarrow> aw_wakes s = [(rt, h)]) \<and>
    (may_resume s \<longrightarrow>
      (case aw_runs s of
         [] \<Rightarrow> await_result s cw = Some (Gave (Inl err_cancelled))
       | (w, ec, r, w') # _ \<Rightarrow> f pool_thread_runtime w = Some (ec, r, w') \<and>
           await_result s cw = Some (if aw_point s = Submitted then Gave (Inl err_cancelled)
             else case r of Threw e \<Rightarrow> Threw e | Gave v \<Rightarrow> Gave (Inr v))))"
proof -
  have e: "expected_of r = (case r of Threw e \<Rightarrow> Threw e | Gave v \<Rightarrow> Gave (Inr v))" for r :: "('b, 'c) ran"
    by (cases r) simp_all
  note books = await_run_books [OF assms]
  show ?thesis
    using await_scheduled_once [OF books] await_ends [OF books, of cw] by (auto simp: e)
qed

text \<open>Runs for the examples: the block executed before, and after, it was stored, and withdrawn.\<close>

definition demo_call :: "('w \<Rightarrow> 'w) \<Rightarrow> ('e, 'v) ran \<Rightarrow> ('w, 'e, 'v) blocking_call" where
  "demo_call g r rt w = Some (no_error, r, g w)"

definition empty_blocking :: "(nat, nat) blocking" where
  "empty_blocking = \<lparr>bl_pool = \<lparr>p_queue = [], p_stop = False\<rparr>, bl_blocks = (\<lambda>_. make_block (Gave 0) None 0)\<rparr>"

abbreviation demo_run_of :: "(nat, nat) ran \<Rightarrow> (nat, nat, nat) await \<Rightarrow> bool" where
  "demo_run_of r \<equiv> await_run (demo_call Suc r) 5 (Some 0) 9 (await_start (demo_awaiter (Gave 0)) empty_blocking 3)"

definition demo_point :: "(nat, nat) control_block \<Rightarrow> nat list \<Rightarrow> (nat, nat, nat) await" where
  "demo_point b q = (await_start (demo_awaiter (Gave 0)) empty_blocking 3)\<lparr>aw_point := Submitted,
     aw_blocking := \<lparr>bl_pool = \<lparr>p_queue = q, p_stop = False\<rparr>, bl_blocks = (bl_blocks empty_blocking)(5 := b)\<rparr>\<rparr>"

abbreviation demo_block :: "(nat, nat) control_block" where
  "demo_block \<equiv> make_block (Gave 0) (Some 0) 9"

lemma demo_submitted: "demo_run_of r (demo_point demo_block [5])"
proof -
  obtain cw where "arm 3 (Withdraw_block 5) demo_scope = Some (Arm_armed, cw)"
    using arm_idle [of demo_scope 3 0 "Withdraw_block 5"] by auto
  then have a: "blocking_arm 5 (Some 0) 9 (demo_awaiter (Gave 0)) empty_blocking demo_scope =
      Some (Arm_armed, empty_blocking\<lparr>bl_blocks := (bl_blocks empty_blocking)(5 := demo_block)\<rparr>, cw)"
    by (simp add: blocking_arm_def demo_awaiter_def)
  let ?s = "await_start (demo_awaiter (Gave 0)) empty_blocking (3 :: nat)"
  let ?st = "empty_blocking\<lparr>bl_blocks := (bl_blocks empty_blocking)(5 := demo_block)\<rparr>"
  let ?s1 = "?s\<lparr>aw_blocking := ?st, aw_point := Armed_only\<rparr>"
  have "await_step (demo_call Suc r) 5 (Some 0) 9 ?s ?s1"
    using await_step.a_arm [of ?s 5 "Some 0" 9 demo_scope Arm_armed ?st cw "demo_call Suc r"] a
    by (simp add: await_start_def)
  with await_run.await_here have 1: "demo_run_of r ?s1" by (rule await_run.await_on)
  have "await_step (demo_call Suc r) 5 (Some 0) 9 ?s1 (demo_point demo_block [5])"
    using await_step.a_submit [of ?s1 5 True "?st\<lparr>bl_pool := \<lparr>p_queue = [5], p_stop = False\<rparr>\<rparr>" "demo_call Suc r" "Some 0" 9]
    by (simp add: blocking_submit_def pool_enqueue_def empty_blocking_def demo_point_def await_start_def)
  with 1 show ?thesis by (rule await_run.await_on)
qed

lemma demo_stored:
  assumes "demo_run_of r s" and "aw_point s = Submitted"
  shows "demo_run_of r (s\<lparr>aw_awaiter := blocking_store 5 (aw_awaiter s), aw_point := Stored\<rparr>)"
  by (rule await_run.await_on [OF assms(1)]) (rule await_step.a_store [OF assms(2)])

lemma demo_executed:
  obtains s where "demo_run_of r s" "aw_point s = Submitted" "aw_wakes s = [(Some 0, 9)]"
    "aw_runs s = [(3, no_error, r, 4)]"
proof -
  let ?t = "(demo_point demo_block [])\<lparr>aw_taken := True\<rparr>"
  have "await_step (demo_call Suc r) 5 (Some 0) 9 (demo_point demo_block [5]) ?t"
    using await_step.w_take [of "demo_point demo_block [5]" 5 "\<lparr>p_queue = [], p_stop = False\<rparr>" "demo_call Suc r" "Some 0" 9]
    by (simp add: demo_point_def take_item_def worker_turn_def await_start_def)
  with demo_submitted have 1: "demo_run_of r ?t" by (rule await_run.await_on)
  obtain st k where e: "on_block (execute_as r) 5 (aw_blocking ?t) = (st, k)" by fastforce
  then have "k = [(Some 0, 9)]"
    by (auto simp: on_block_def execute_as_def execute_def demo_point_def block_wake_def make_block_def)
  moreover have "aw_taken ?t" "demo_call Suc r pool_thread_runtime (aw_world ?t) = Some (no_error, r, 4)"
    by (simp_all add: demo_call_def demo_point_def await_start_def)
  note await_run.await_on [OF 1 await_step.w_execute
      [where f = "demo_call Suc r" and w = 4 and ec = no_error and r = r, OF this e]]
  ultimately show thesis by (auto simp: demo_point_def await_start_def intro: that)
qed

lemma demo_withdrawn:
  obtains s where "demo_run_of r s" "aw_point s = Stored" "aw_wakes s = [(Some 0, 9)]" "aw_runs s = []"
    "aw_world s = 3"
proof -
  let ?t = "(demo_point demo_block [5])\<lparr>aw_awaiter := blocking_store 5 (demo_awaiter (Gave 0)), aw_point := Stored\<rparr>"
  have 1: "demo_run_of r ?t"
    using demo_stored [OF demo_submitted] by (simp add: demo_point_def await_start_def)
  obtain st k where e: "run_blocking_cb (Withdraw_block 5) (aw_blocking ?t, aw_wakes ?t) = (st, k)" by fastforce
  then have "k = [(Some 0, 9)]"
    by (auto simp: withdraw_effect demo_point_def await_start_def block_wake_def make_block_def split: prod.splits)
  moreover have "aw_point ?t \<noteq> Created" by simp
  note await_run.await_on [OF 1 await_step.c_callback [OF this e]]
  ultimately show thesis by (auto simp: demo_point_def await_start_def intro: that)
qed

theorem blocking_returns_function_result_witness:
  "\<exists>s. demo_run_of (Threw 6) s \<and> aw_runs s = [(3, no_error, Threw 6, 4)] \<and> length (aw_wakes s) \<le> 1 \<and>
     await_result s demo_scope = Some (Threw 6)"
proof -
  obtain s where s: "demo_run_of (Threw 6) s" "aw_point s = Submitted" "aw_wakes s = [(Some 0, 9)]"
      "aw_runs s = [(3, no_error, Threw 6, 4)]"
    by (rule demo_executed)
  have "ba_cb (demo_awaiter (Gave 0)) = None" "5 \<notin> set (p_queue (bl_pool empty_blocking))"
    by (simp_all add: demo_awaiter_def empty_blocking_def)
  from blocking_returns_function_result [OF demo_stored [OF s(1,2)] this] s(3,4) show ?thesis
    using demo_stored [OF s(1,2)] by (fastforce simp: may_resume_def)
qed

end
