(* ===== verification/Blocking_Task.thy ===== *)
theory Blocking_Task
  imports Blocking_Await
begin

text \<open>
  The shape that all coroutines of \<^verbatim>\<open>include/coasio/filesystem.hpp\<close> and most of
  \<^verbatim>\<open>include/coasio/filesystem/file.hpp\<close> have: a local \<^verbatim>\<open>std::error_code ec\<close>, a \<^verbatim>\<open>co_await\<close> of
  \<^verbatim>\<open>spawn_blocking\<close> with a function that writes to it, a test of \<^verbatim>\<open>ec\<close>, a \<^verbatim>\<open>co_return\<close>. Here is
  what such a coroutine does as one step on the state of the operating system, and the proof
  that running it on the model of the blocking pool, step by step, does that.
\<close>

section \<open>The shape\<close>

text \<open>
  How the await may end: the pool ran the function and the await gives what it did; the function
  was not run, the await being cancelled before the block was submitted, or the block withdrawn
  from the queue, or refused by a pool that is stopping; or the pool ran the function before the
  block was stored in the awaiter, and the await reports \<^verbatim>\<open>cancelled\<close>.
\<close>

datatype fate = Run_by_pool | Not_run | Run_unseen

text \<open>
  The rest of the coroutine, with the value of \<^verbatim>\<open>ec\<close> and what \<^verbatim>\<open>await_resume\<close> gave. What it
  does with the result when \<^verbatim>\<open>ec\<close> is clear is the argument \<open>fin\<close>; an exception leaves the
  coroutine.
\<close>

definition after_await ::
  "(error_code + 'v \<Rightarrow> (error_code + 'r) option) \<Rightarrow> error_code \<Rightarrow> ('e, error_code + 'v) ran \<Rightarrow>
   ('e, error_code + 'r) ran option" where
  "after_await fin ec r =
     (case r of
        Threw e \<Rightarrow> Some (Threw e)
      | Gave x \<Rightarrow> if is_error ec then Some (Gave (Inl ec)) else map_option Gave (fin x))"

definition blocking_task ::
  "(error_code + 'v \<Rightarrow> (error_code + 'r) option) \<Rightarrow> ('w, 'e, 'v) blocking_call \<Rightarrow> fate \<Rightarrow> 'w \<Rightarrow>
   (('e, error_code + 'r) ran \<times> 'w) option" where
  "blocking_task fin f fate w =
     (case fate of
        Not_run \<Rightarrow> map_option (\<lambda>x. (x, w)) (after_await fin no_error (Gave (Inl err_cancelled)))
      | Run_by_pool \<Rightarrow>
          (case f pool_thread_runtime w of
             None \<Rightarrow> None
           | Some (ec, r, w') \<Rightarrow> map_option (\<lambda>x. (x, w')) (after_await fin ec (expected_of r)))
      | Run_unseen \<Rightarrow>
          (case f pool_thread_runtime w of
             None \<Rightarrow> None
           | Some (ec, r, w') \<Rightarrow> map_option (\<lambda>x. (x, w')) (after_await fin ec (Gave (Inl err_cancelled)))))"

text \<open>Three ways to end: return the result, return success whatever it is, use its value unseen.\<close>

definition return_result :: "error_code + 'v \<Rightarrow> (error_code + 'v) option" where
  "return_result x = Some x"

definition return_success :: "error_code + 'v \<Rightarrow> (error_code + unit) option" where
  "return_success x = Some (Inr ())"

definition return_value_of :: "error_code + 'v \<Rightarrow> (error_code + 'v) option" where
  "return_value_of x = (case x of Inl e \<Rightarrow> None | Inr v \<Rightarrow> Some (Inr v))"

lemma blocking_task_simps:
  "blocking_task return_result f Not_run w = Some (Gave (Inl err_cancelled), w)"
  "blocking_task return_success f Not_run w = Some (Gave (Inr ()), w)"
  "blocking_task return_value_of f Not_run w = None"
  "f pool_thread_runtime w = Some (ec, Threw e, w') \<Longrightarrow> blocking_task fin f Run_by_pool w = Some (Threw e, w')"
  "f pool_thread_runtime w = Some (ec, Gave v, w') \<Longrightarrow> blocking_task return_result f Run_by_pool w =
     Some (Gave (if is_error ec then Inl ec else Inr v), w')"
  "f pool_thread_runtime w = Some (ec, Gave v, w') \<Longrightarrow> blocking_task return_value_of f Run_by_pool w =
     Some (Gave (if is_error ec then Inl ec else Inr v), w')"
  "f pool_thread_runtime w = Some (ec, Gave v, w') \<Longrightarrow> blocking_task return_success f Run_by_pool w =
     Some (Gave (if is_error ec then Inl ec else Inr ()), w')"
  by (simp_all add: blocking_task_def after_await_def return_result_def return_success_def return_value_of_def)

section \<open>On the pool\<close>

text \<open>What has happened to the function when the coroutine goes on, and the one step that does it.\<close>

definition fate_of :: "('w, 'e, 'v) await \<Rightarrow> fate" where
  "fate_of s = (if aw_runs s = [] then Not_run else if aw_point s = Submitted then Run_unseen else Run_by_pool)"

definition rest_of_task ::
  "(error_code + 'v \<Rightarrow> (error_code + 'r) option) \<Rightarrow> ('w, 'e, 'v) await \<Rightarrow> blocking_cb cancel_world \<Rightarrow>
   ('e, error_code + 'r) ran option" where
  "rest_of_task fin s cw = Option.bind (await_result s cw) (after_await fin (aw_ec s))"

text \<open>
  C35. A coroutine of this shape, run on the model of the pool, does exactly what its one-step
  description says: take any state in which it may go on, after any interleaving of its
  \<^verbatim>\<open>await_suspend\<close> with the workers, cancellations and everything else. If the function has been
  run, from the state \<open>w\<close> to \<open>w'\<close> of the operating system, then the coroutine has been scheduled
  once, and the description gives from \<open>w\<close> the result of the coroutine and \<open>w'\<close>; it is the one for
  a run that the await does not see if the coroutine goes on before the block was stored. If the
  function has not been run, the description gives the result of the coroutine and leaves every
  state of the operating system as it is.
\<close>

theorem blocking_task_refines_pool:
  assumes "await_run f c rt h (await_start aw st w0) s" and "may_resume s"
    and "ba_cb aw = None" and "c \<notin> set (p_queue (bl_pool st))"
  shows "(\<exists>w ec r w'. aw_runs s = [(w, ec, r, w')] \<and> aw_wakes s = [(rt, h)] \<and>
      map_option (\<lambda>x. (x, w')) (rest_of_task fin s cw) = blocking_task fin f (fate_of s) w \<and>
      fate_of s = (if aw_point s = Submitted then Run_unseen else Run_by_pool)) \<or>
    (aw_runs s = [] \<and> fate_of s = Not_run \<and>
      (\<forall>w. map_option (\<lambda>x. (x, w)) (rest_of_task fin s cw) = blocking_task fin f Not_run w))"
proof -
  note books = await_run_books [OF assms(1,3,4)]
  from await_ends [OF books assms(2), of cw] show ?thesis
    using await_scheduled_once [OF books]
    by (auto simp: rest_of_task_def fate_of_def blocking_task_def)
qed

theorem blocking_task_refines_pool_witness:
  "\<exists>s. demo_run_of (Gave 7) s \<and> may_resume s \<and> aw_runs s = [(3, no_error, Gave 7, 4)] \<and> fate_of s = Run_by_pool \<and>
     map_option (\<lambda>x. (x, 4)) (rest_of_task return_result s demo_scope) =
       blocking_task return_result (demo_call Suc (Gave 7)) Run_by_pool 3 \<and>
     blocking_task return_result (demo_call Suc (Gave 7)) Run_by_pool (3 :: nat) = Some (Gave (Inr 7), 4)"
proof -
  obtain s where s: "demo_run_of (Gave 7) s" "aw_point s = Submitted" "aw_wakes s = [(Some 0, 9)]"
      "aw_runs s = [(3, no_error, Gave 7, 4)]"
    by (rule demo_executed)
  let ?s = "s\<lparr>aw_awaiter := blocking_store 5 (aw_awaiter s), aw_point := Stored\<rparr>"
  have r: "demo_run_of (Gave 7) ?s" "may_resume ?s" "aw_runs ?s = [(3, no_error, Gave 7, 4)]"
      "fate_of ?s = Run_by_pool"
    using demo_stored [OF s(1,2)] s(3,4) by (simp_all add: may_resume_def fate_of_def)
  have i: "ba_cb (demo_awaiter (Gave 0)) = None" "5 \<notin> set (p_queue (bl_pool empty_blocking))"
    by (simp_all add: demo_awaiter_def empty_blocking_def)
  have "blocking_task return_result (demo_call Suc (Gave 7)) Run_by_pool (3 :: nat) = Some (Gave (Inr 7), 4)"
    by (simp add: blocking_task_simps demo_call_def)
  with blocking_task_refines_pool [OF r(1,2) i, of return_result demo_scope] r show ?thesis
    by (intro exI [of _ ?s]) auto
qed

text \<open>For the examples: the window before the store, and a block that is withdrawn.\<close>

lemma window_loses_result:
  "\<exists>s. demo_run_of (Gave 7) s \<and> may_resume s \<and> aw_runs s = [(3, no_error, Gave 7, 4)] \<and> fate_of s = Run_unseen \<and>
     rest_of_task return_result s demo_scope = Some (Gave (Inl err_cancelled))"
proof -
  obtain s where s: "demo_run_of (Gave 7) s" "aw_point s = Submitted" "aw_wakes s = [(Some 0, 9)]"
      "aw_runs s = [(3, no_error, Gave 7, 4)]"
    by (rule demo_executed)
  have m: "may_resume s" using s(3) by (simp add: may_resume_def)
  have i: "ba_cb (demo_awaiter (Gave 0)) = None" "5 \<notin> set (p_queue (bl_pool empty_blocking))"
    by (simp_all add: demo_awaiter_def empty_blocking_def)
  from await_ends [OF await_run_books [OF s(1) i] m, of demo_scope] s(2,4)
  have "rest_of_task return_result s demo_scope = Some (Gave (Inl err_cancelled))"
    by (auto simp: rest_of_task_def after_await_def return_result_def)
  with s m show ?thesis by (intro exI [of _ s]) (simp add: fate_of_def)
qed

lemma withdrawn_leaves_world:
  "\<exists>s. demo_run_of (Gave 7) s \<and> may_resume s \<and> aw_world s = 3 \<and> fate_of s = Not_run \<and>
     rest_of_task return_result s demo_scope = Some (Gave (Inl err_cancelled))"
proof -
  obtain s where s: "demo_run_of (Gave 7) s" "aw_point s = Stored" "aw_wakes s = [(Some 0, 9)]"
      "aw_runs s = []" "aw_world s = 3"
    by (rule demo_withdrawn)
  have m: "may_resume s" using s(3) by (simp add: may_resume_def)
  have i: "ba_cb (demo_awaiter (Gave 0)) = None" "5 \<notin> set (p_queue (bl_pool empty_blocking))"
    by (simp_all add: demo_awaiter_def empty_blocking_def)
  from await_ends [OF await_run_books [OF s(1) i] m, of demo_scope] s(4)
  have "rest_of_task return_result s demo_scope = Some (Gave (Inl err_cancelled))"
    by (auto simp: rest_of_task_def after_await_def return_result_def)
  with s m show ?thesis by (intro exI [of _ s]) (simp add: fate_of_def)
qed

end
