(* ===== verification/Filesystem.thy ===== *)
theory Filesystem
  imports Blocking_Task "HOL-Library.Word"
begin

text \<open>
  \<^verbatim>\<open>include/coasio/filesystem.hpp\<close>: the functions of \<^verbatim>\<open>std::filesystem\<close> that take an
  \<^verbatim>\<open>std::error_code\<close>, as coroutines that run them on the blocking pool. The file system is
  a service of the operating system: the type \<open>'w\<close> of its states and what each function of
  \<^verbatim>\<open>std::filesystem\<close> does to it (the error code it leaves, what it returns or throws, the new
  state) are parameters, collected in a record.
\<close>

section \<open>The standard library's functions\<close>

type_synonym path = string

datatype file_type =
    Type_none | Type_not_found | Type_regular | Type_directory | Type_symlink | Type_block
  | Type_character | Type_fifo | Type_socket | Type_unknown

record file_status =
  st_type :: file_type
  st_perms :: "32 word"

record space_info =
  sp_capacity :: "64 word"
  sp_free :: "64 word"
  sp_available :: "64 word"

datatype seek_origin = Origin_begin | Origin_current | Origin_end | Origin_other int

type_synonym ('w, 'e, 'v) fs_call = "'w \<Rightarrow> error_code \<times> ('e, 'v) ran \<times> 'w"

type_synonym ('w, 'e, 'v) fs_task = "fate \<Rightarrow> 'w \<Rightarrow> (('e, error_code + 'v) ran \<times> 'w) option"

text \<open>
  A file time is the count of its ticks; permissions and options are bit masks. Where the
  source declares two functions of one name, the one that writes is called \<open>set_\<close>.
\<close>

record ('w, 'e) std_filesystem =
  sf_file_size :: "path \<Rightarrow> ('w, 'e, 64 word) fs_call"
  sf_exists :: "path \<Rightarrow> ('w, 'e, bool) fs_call"
  sf_is_regular_file :: "path \<Rightarrow> ('w, 'e, bool) fs_call"
  sf_is_directory :: "path \<Rightarrow> ('w, 'e, bool) fs_call"
  sf_is_symlink :: "path \<Rightarrow> ('w, 'e, bool) fs_call"
  sf_status :: "path \<Rightarrow> ('w, 'e, file_status) fs_call"
  sf_symlink_status :: "path \<Rightarrow> ('w, 'e, file_status) fs_call"
  sf_hard_link_count :: "path \<Rightarrow> ('w, 'e, 64 word) fs_call"
  sf_equivalent :: "path \<Rightarrow> path \<Rightarrow> ('w, 'e, bool) fs_call"
  sf_last_write_time :: "path \<Rightarrow> ('w, 'e, int) fs_call"
  sf_set_last_write_time :: "path \<Rightarrow> int \<Rightarrow> ('w, 'e, unit) fs_call"
  sf_create_directory :: "path \<Rightarrow> ('w, 'e, bool) fs_call"
  sf_create_directories :: "path \<Rightarrow> ('w, 'e, bool) fs_call"
  sf_remove :: "path \<Rightarrow> ('w, 'e, bool) fs_call"
  sf_remove_all :: "path \<Rightarrow> ('w, 'e, 64 word) fs_call"
  sf_rename :: "path \<Rightarrow> path \<Rightarrow> ('w, 'e, unit) fs_call"
  sf_copy :: "path \<Rightarrow> path \<Rightarrow> 32 word \<Rightarrow> ('w, 'e, unit) fs_call"
  sf_copy_file :: "path \<Rightarrow> path \<Rightarrow> 32 word \<Rightarrow> ('w, 'e, bool) fs_call"
  sf_copy_symlink :: "path \<Rightarrow> path \<Rightarrow> ('w, 'e, unit) fs_call"
  sf_create_hard_link :: "path \<Rightarrow> path \<Rightarrow> ('w, 'e, unit) fs_call"
  sf_create_symlink :: "path \<Rightarrow> path \<Rightarrow> ('w, 'e, unit) fs_call"
  sf_create_directory_symlink :: "path \<Rightarrow> path \<Rightarrow> ('w, 'e, unit) fs_call"
  sf_read_symlink :: "path \<Rightarrow> ('w, 'e, path) fs_call"
  sf_absolute :: "path \<Rightarrow> ('w, 'e, path) fs_call"
  sf_canonical :: "path \<Rightarrow> ('w, 'e, path) fs_call"
  sf_weakly_canonical :: "path \<Rightarrow> ('w, 'e, path) fs_call"
  sf_relative :: "path \<Rightarrow> path \<Rightarrow> ('w, 'e, path) fs_call"
  sf_proximate :: "path \<Rightarrow> path \<Rightarrow> ('w, 'e, path) fs_call"
  sf_current_path :: "('w, 'e, path) fs_call"
  sf_set_current_path :: "path \<Rightarrow> ('w, 'e, unit) fs_call"
  sf_temp_directory_path :: "('w, 'e, path) fs_call"
  sf_space :: "path \<Rightarrow> ('w, 'e, space_info) fs_call"
  sf_permissions :: "path \<Rightarrow> 32 word \<Rightarrow> 32 word \<Rightarrow> ('w, 'e, unit) fs_call"

text \<open>The functions use no runtime.\<close>

definition on_any_thread :: "('w, 'e, 'v) fs_call \<Rightarrow> ('w, 'e, 'v) blocking_call" where
  "on_any_thread f rt w = Some (f w)"

section \<open>The coroutines\<close>

definition file_size :: "('w, 'e) std_filesystem \<Rightarrow> path \<Rightarrow> ('w, 'e, 64 word) fs_task" where
  "file_size F p = blocking_task return_result (on_any_thread (sf_file_size F p))"

definition exists :: "('w, 'e) std_filesystem \<Rightarrow> path \<Rightarrow> ('w, 'e, bool) fs_task" where
  "exists F p = blocking_task return_result (on_any_thread (sf_exists F p))"

definition is_regular_file :: "('w, 'e) std_filesystem \<Rightarrow> path \<Rightarrow> ('w, 'e, bool) fs_task" where
  "is_regular_file F p = blocking_task return_result (on_any_thread (sf_is_regular_file F p))"

definition is_directory :: "('w, 'e) std_filesystem \<Rightarrow> path \<Rightarrow> ('w, 'e, bool) fs_task" where
  "is_directory F p = blocking_task return_result (on_any_thread (sf_is_directory F p))"

definition is_symlink :: "('w, 'e) std_filesystem \<Rightarrow> path \<Rightarrow> ('w, 'e, bool) fs_task" where
  "is_symlink F p = blocking_task return_result (on_any_thread (sf_is_symlink F p))"

definition status :: "('w, 'e) std_filesystem \<Rightarrow> path \<Rightarrow> ('w, 'e, file_status) fs_task" where
  "status F p = blocking_task return_result (on_any_thread (sf_status F p))"

definition symlink_status :: "('w, 'e) std_filesystem \<Rightarrow> path \<Rightarrow> ('w, 'e, file_status) fs_task" where
  "symlink_status F p = blocking_task return_result (on_any_thread (sf_symlink_status F p))"

definition hard_link_count :: "('w, 'e) std_filesystem \<Rightarrow> path \<Rightarrow> ('w, 'e, 64 word) fs_task" where
  "hard_link_count F p = blocking_task return_result (on_any_thread (sf_hard_link_count F p))"

definition equivalent :: "('w, 'e) std_filesystem \<Rightarrow> path \<Rightarrow> path \<Rightarrow> ('w, 'e, bool) fs_task" where
  "equivalent F p1 p2 = blocking_task return_result (on_any_thread (sf_equivalent F p1 p2))"

definition last_write_time :: "('w, 'e) std_filesystem \<Rightarrow> path \<Rightarrow> ('w, 'e, int) fs_task" where
  "last_write_time F p = blocking_task return_result (on_any_thread (sf_last_write_time F p))"

definition set_last_write_time :: "('w, 'e) std_filesystem \<Rightarrow> path \<Rightarrow> int \<Rightarrow> ('w, 'e, unit) fs_task" where
  "set_last_write_time F p t = blocking_task return_result (on_any_thread (sf_set_last_write_time F p t))"

definition create_directory :: "('w, 'e) std_filesystem \<Rightarrow> path \<Rightarrow> ('w, 'e, bool) fs_task" where
  "create_directory F p = blocking_task return_result (on_any_thread (sf_create_directory F p))"

definition create_directories :: "('w, 'e) std_filesystem \<Rightarrow> path \<Rightarrow> ('w, 'e, bool) fs_task" where
  "create_directories F p = blocking_task return_result (on_any_thread (sf_create_directories F p))"

definition remove :: "('w, 'e) std_filesystem \<Rightarrow> path \<Rightarrow> ('w, 'e, bool) fs_task" where
  "remove F p = blocking_task return_result (on_any_thread (sf_remove F p))"

definition remove_all :: "('w, 'e) std_filesystem \<Rightarrow> path \<Rightarrow> ('w, 'e, 64 word) fs_task" where
  "remove_all F p = blocking_task return_result (on_any_thread (sf_remove_all F p))"

definition rename :: "('w, 'e) std_filesystem \<Rightarrow> path \<Rightarrow> path \<Rightarrow> ('w, 'e, unit) fs_task" where
  "rename F p q = blocking_task return_result (on_any_thread (sf_rename F p q))"

definition copy :: "('w, 'e) std_filesystem \<Rightarrow> path \<Rightarrow> path \<Rightarrow> 32 word \<Rightarrow> ('w, 'e, unit) fs_task" where
  "copy F p q opts = blocking_task return_result (on_any_thread (sf_copy F p q opts))"

definition copy_file :: "('w, 'e) std_filesystem \<Rightarrow> path \<Rightarrow> path \<Rightarrow> 32 word \<Rightarrow> ('w, 'e, bool) fs_task" where
  "copy_file F p q opts = blocking_task return_result (on_any_thread (sf_copy_file F p q opts))"

definition copy_symlink :: "('w, 'e) std_filesystem \<Rightarrow> path \<Rightarrow> path \<Rightarrow> ('w, 'e, unit) fs_task" where
  "copy_symlink F p q = blocking_task return_result (on_any_thread (sf_copy_symlink F p q))"

definition create_hard_link :: "('w, 'e) std_filesystem \<Rightarrow> path \<Rightarrow> path \<Rightarrow> ('w, 'e, unit) fs_task" where
  "create_hard_link F p q = blocking_task return_result (on_any_thread (sf_create_hard_link F p q))"

definition create_symlink :: "('w, 'e) std_filesystem \<Rightarrow> path \<Rightarrow> path \<Rightarrow> ('w, 'e, unit) fs_task" where
  "create_symlink F p q = blocking_task return_result (on_any_thread (sf_create_symlink F p q))"

definition create_directory_symlink :: "('w, 'e) std_filesystem \<Rightarrow> path \<Rightarrow> path \<Rightarrow> ('w, 'e, unit) fs_task" where
  "create_directory_symlink F p q = blocking_task return_result (on_any_thread (sf_create_directory_symlink F p q))"

definition read_symlink :: "('w, 'e) std_filesystem \<Rightarrow> path \<Rightarrow> ('w, 'e, path) fs_task" where
  "read_symlink F p = blocking_task return_result (on_any_thread (sf_read_symlink F p))"

definition absolute :: "('w, 'e) std_filesystem \<Rightarrow> path \<Rightarrow> ('w, 'e, path) fs_task" where
  "absolute F p = blocking_task return_result (on_any_thread (sf_absolute F p))"

definition canonical :: "('w, 'e) std_filesystem \<Rightarrow> path \<Rightarrow> ('w, 'e, path) fs_task" where
  "canonical F p = blocking_task return_result (on_any_thread (sf_canonical F p))"

definition weakly_canonical :: "('w, 'e) std_filesystem \<Rightarrow> path \<Rightarrow> ('w, 'e, path) fs_task" where
  "weakly_canonical F p = blocking_task return_result (on_any_thread (sf_weakly_canonical F p))"

definition relative :: "('w, 'e) std_filesystem \<Rightarrow> path \<Rightarrow> path \<Rightarrow> ('w, 'e, path) fs_task" where
  "relative F p base = blocking_task return_result (on_any_thread (sf_relative F p base))"

definition proximate :: "('w, 'e) std_filesystem \<Rightarrow> path \<Rightarrow> path \<Rightarrow> ('w, 'e, path) fs_task" where
  "proximate F p base = blocking_task return_result (on_any_thread (sf_proximate F p base))"

definition current_path :: "('w, 'e) std_filesystem \<Rightarrow> ('w, 'e, path) fs_task" where
  "current_path F = blocking_task return_result (on_any_thread (sf_current_path F))"

definition set_current_path :: "('w, 'e) std_filesystem \<Rightarrow> path \<Rightarrow> ('w, 'e, unit) fs_task" where
  "set_current_path F p = blocking_task return_result (on_any_thread (sf_set_current_path F p))"

definition temp_directory_path :: "('w, 'e) std_filesystem \<Rightarrow> ('w, 'e, path) fs_task" where
  "temp_directory_path F = blocking_task return_result (on_any_thread (sf_temp_directory_path F))"

definition space :: "('w, 'e) std_filesystem \<Rightarrow> path \<Rightarrow> ('w, 'e, space_info) fs_task" where
  "space F p = blocking_task return_result (on_any_thread (sf_space F p))"

definition permissions :: "('w, 'e) std_filesystem \<Rightarrow> path \<Rightarrow> 32 word \<Rightarrow> 32 word \<Rightarrow> ('w, 'e, unit) fs_task" where
  "permissions F p prms opts = blocking_task return_result (on_any_thread (sf_permissions F p prms opts))"

section \<open>What they do\<close>

text \<open>
  The contract of such a coroutine with respect to the function it stands for: when its await ends
  before the pool has run the function, it returns \<^verbatim>\<open>cancelled\<close> and the file system is as it was;
  otherwise the function is applied to the file system once, and the coroutine returns the error
  code it left, or if there is none its value, or rethrows what it threw; if the await does not
  see the run (it goes on before the block is stored in the awaiter), \<^verbatim>\<open>cancelled\<close> takes the place
  of the value and of the exception.
\<close>

definition fs_contract :: "('w, 'e, 'v) fs_task \<Rightarrow> ('w, 'e, 'v) fs_call \<Rightarrow> bool" where
  "fs_contract task f \<longleftrightarrow>
     (\<forall>w. task Not_run w = Some (Gave (Inl err_cancelled), w) \<and>
       task Run_by_pool w =
         (case f w of
            (ec, Threw e, w') \<Rightarrow> Some (Threw e, w')
          | (ec, Gave v, w') \<Rightarrow> Some (Gave (if is_error ec then Inl ec else Inr v), w')) \<and>
       task Run_unseen w =
         (case f w of (ec, _, w') \<Rightarrow> Some (Gave (Inl (if is_error ec then ec else err_cancelled)), w')))"

lemma blocking_task_contract: "fs_contract (blocking_task return_result (on_any_thread f)) f"
  unfolding fs_contract_def
  by (auto simp: blocking_task_def after_await_def return_result_def on_any_thread_def split: prod.splits ran.splits)

text \<open>
  The contract of the members of the stream file that do not look at the result of the await:
  success where the others return \<^verbatim>\<open>cancelled\<close>.
\<close>

definition unchecked_contract :: "('w, 'e, unit) fs_task \<Rightarrow> ('w, 'e, unit) fs_call \<Rightarrow> bool" where
  "unchecked_contract task f \<longleftrightarrow>
     (\<forall>w. task Not_run w = Some (Gave (Inr ()), w) \<and>
       task Run_by_pool w =
         (case f w of
            (ec, Threw e, w') \<Rightarrow> Some (Threw e, w')
          | (ec, Gave _, w') \<Rightarrow> Some (Gave (if is_error ec then Inl ec else Inr ()), w')) \<and>
       task Run_unseen w =
         (case f w of (ec, _, w') \<Rightarrow> Some (Gave (if is_error ec then Inl ec else Inr ()), w')))"

lemma blocking_task_unchecked: "unchecked_contract (blocking_task return_success (on_any_thread f)) f"
  unfolding unchecked_contract_def
  by (auto simp: blocking_task_def after_await_def return_success_def on_any_thread_def split: prod.splits ran.splits)

lemmas fs_task_defs =
  file_size_def exists_def is_regular_file_def is_directory_def is_symlink_def status_def
  symlink_status_def hard_link_count_def equivalent_def last_write_time_def set_last_write_time_def
  create_directory_def create_directories_def remove_def remove_all_def rename_def copy_def
  copy_file_def copy_symlink_def create_hard_link_def create_symlink_def
  create_directory_symlink_def read_symlink_def absolute_def canonical_def weakly_canonical_def
  relative_def proximate_def current_path_def set_current_path_def temp_directory_path_def space_def
  permissions_def

end
