(* ===== verification/File.thy ===== *)
theory File
  imports Filesystem Async_Op
begin

unbundle bit_operations_syntax

text \<open>
  \<^verbatim>\<open>include/coasio/filesystem/file.hpp\<close>: files that are read and written through Asio. The
  numbers of \<^verbatim>\<open>asio::file_base::flags\<close>, and what the synchronous members of Asio's file classes
  do to the state of the operating system, are parameters; a file is the value of the Asio
  object in it. \<^verbatim>\<open>std::invalid_argument\<close> is the argument \<open>invalid\<close>, from its text to the
  exception.
\<close>

section \<open>Opening modes\<close>

text \<open>A value of the enumeration that is none of its enumerators is \<open>Mode_other\<close>.\<close>

datatype open_mode = Mode_read | Mode_write | Mode_read_write | Mode_other int

record open_options =
  oo_mode :: open_mode
  oo_create :: bool
  oo_exclusive :: bool
  oo_truncate :: bool
  oo_append :: bool
  oo_sync_all_on_write :: bool

record asio_flags =
  fl_read_only :: "32 word"
  fl_write_only :: "32 word"
  fl_read_write :: "32 word"
  fl_append :: "32 word"
  fl_create :: "32 word"
  fl_exclusive :: "32 word"
  fl_truncate :: "32 word"
  fl_sync_all_on_write :: "32 word"

definition default_open_options :: open_options where
  "default_open_options = \<lparr>oo_mode = Mode_read, oo_create = False, oo_exclusive = False,
     oo_truncate = False, oo_append = False, oo_sync_all_on_write = False\<rparr>"

definition mode_flags :: "asio_flags \<Rightarrow> open_mode \<Rightarrow> string + 32 word" where
  "mode_flags F m =
     (case m of
        Mode_read \<Rightarrow> Inr (fl_read_only F)
      | Mode_write \<Rightarrow> Inr (fl_write_only F)
      | Mode_read_write \<Rightarrow> Inr (fl_read_write F)
      | Mode_other _ \<Rightarrow> Inl ''invalid open mode'')"

definition set_flag :: "bool \<Rightarrow> 32 word \<Rightarrow> 32 word \<Rightarrow> 32 word" where
  "set_flag b f flags = (if b then flags OR f else flags)"

text \<open>The text of the exception, or the flags.\<close>

definition into_asio_flags :: "asio_flags \<Rightarrow> open_options \<Rightarrow> string + 32 word" where
  "into_asio_flags F opts =
     (case mode_flags F (oo_mode opts) of
        Inl msg \<Rightarrow> Inl msg
      | Inr flags \<Rightarrow>
          Inr (set_flag (oo_sync_all_on_write opts) (fl_sync_all_on_write F)
                (set_flag (oo_append opts) (fl_append F)
                  (set_flag (oo_truncate opts) (fl_truncate F)
                    (set_flag (oo_exclusive opts) (fl_exclusive F)
                      (set_flag (oo_create opts) (fl_create F) flags))))))"

section \<open>The synchronous members, run on the pool\<close>

datatype seek_basis = Seek_set | Seek_cur | Seek_end

record ('w, 'e, 'f) asio_files =
  af_open :: "nat \<Rightarrow> path \<Rightarrow> 32 word \<Rightarrow> ('w, 'e, 'f) fs_call"
  af_seek :: "'f \<Rightarrow> int \<Rightarrow> seek_basis \<Rightarrow> ('w, 'e, 64 word) fs_call"
  af_size :: "'f \<Rightarrow> ('w, 'e, 64 word) fs_call"
  af_resize :: "'f \<Rightarrow> 64 word \<Rightarrow> ('w, 'e, unit) fs_call"
  af_sync_data :: "'f \<Rightarrow> ('w, 'e, unit) fs_call"
  af_sync_all :: "'f \<Rightarrow> ('w, 'e, unit) fs_call"
  af_close :: "'f \<Rightarrow> 'w \<Rightarrow> error_code \<times> 'w"
  af_is_open :: "'f \<Rightarrow> 'w \<Rightarrow> bool"

text \<open>
  The function that \<^verbatim>\<open>open\<close> gives to the pool: it makes the file in the \<^verbatim>\<open>io_context\<close> of the
  runtime that is current on the thread it runs on, dereferencing the pointer to it, and opens
  it. A path and its string are the same text, as on POSIX systems.
\<close>

definition open_call :: "('w, 'e, 'f) asio_files \<Rightarrow> path \<Rightarrow> 32 word \<Rightarrow> ('w, 'e, 'f) blocking_call" where
  "open_call A p flags rt w = (case rt of None \<Rightarrow> None | Some r \<Rightarrow> Some (af_open A r p flags w))"

definition file_open ::
  "('w, 'e, 'f) asio_files \<Rightarrow> asio_flags \<Rightarrow> (string \<Rightarrow> 'e) \<Rightarrow> path \<Rightarrow> open_options \<Rightarrow> ('w, 'e, 'f) fs_task" where
  "file_open A F invalid p opts fate w =
     (case into_asio_flags F opts of
        Inl msg \<Rightarrow> Some (Threw (invalid msg), w)
      | Inr flags \<Rightarrow> blocking_task return_value_of (open_call A p flags) fate w)"

definition basis_of :: "seek_origin \<Rightarrow> string + seek_basis" where
  "basis_of origin =
     (case origin of
        Origin_begin \<Rightarrow> Inr Seek_set
      | Origin_current \<Rightarrow> Inr Seek_cur
      | Origin_end \<Rightarrow> Inr Seek_end
      | Origin_other _ \<Rightarrow> Inl ''invalid seek origin'')"

definition seek_call ::
  "('w, 'e, 'f) asio_files \<Rightarrow> (string \<Rightarrow> 'e) \<Rightarrow> 'f \<Rightarrow> int \<Rightarrow> seek_origin \<Rightarrow> ('w, 'e, 64 word) fs_call" where
  "seek_call A invalid f offset origin w =
     (case basis_of origin of
        Inl msg \<Rightarrow> (no_error, Threw (invalid msg), w)
      | Inr a_og \<Rightarrow> af_seek A f offset a_og w)"

definition file_seek ::
  "('w, 'e, 'f) asio_files \<Rightarrow> (string \<Rightarrow> 'e) \<Rightarrow> 'f \<Rightarrow> int \<Rightarrow> seek_origin \<Rightarrow> ('w, 'e, 64 word) fs_task" where
  "file_seek A invalid f offset origin =
     blocking_task return_result (on_any_thread (seek_call A invalid f offset origin))"

definition file_position :: "('w, 'e, 'f) asio_files \<Rightarrow> (string \<Rightarrow> 'e) \<Rightarrow> 'f \<Rightarrow> ('w, 'e, 64 word) fs_task" where
  "file_position A invalid f = file_seek A invalid f 0 Origin_current"

definition file_size_of :: "('w, 'e, 'f) asio_files \<Rightarrow> 'f \<Rightarrow> ('w, 'e, 64 word) fs_task" where
  "file_size_of A f = blocking_task return_result (on_any_thread (af_size A f))"

definition file_resize :: "('w, 'e, 'f) asio_files \<Rightarrow> 'f \<Rightarrow> 64 word \<Rightarrow> ('w, 'e, unit) fs_task" where
  "file_resize A f n = blocking_task return_success (on_any_thread (af_resize A f n))"

definition file_sync_data :: "('w, 'e, 'f) asio_files \<Rightarrow> 'f \<Rightarrow> ('w, 'e, unit) fs_task" where
  "file_sync_data A f = blocking_task return_success (on_any_thread (af_sync_data A f))"

definition file_sync_all :: "('w, 'e, 'f) asio_files \<Rightarrow> 'f \<Rightarrow> ('w, 'e, unit) fs_task" where
  "file_sync_all A f = blocking_task return_success (on_any_thread (af_sync_all A f))"

text \<open>These are called on the thread of the caller.\<close>

definition file_is_open :: "('w, 'e, 'f) asio_files \<Rightarrow> 'f \<Rightarrow> 'w \<Rightarrow> bool" where
  "file_is_open A f w = af_is_open A f w"

definition file_close :: "('w, 'e, 'f) asio_files \<Rightarrow> 'f \<Rightarrow> 'w \<Rightarrow> (error_code + unit) \<times> 'w" where
  "file_close A f w = (case af_close A f w of (ec, w') \<Rightarrow> (if is_error ec then Inl ec else Inr (), w'))"

text \<open>The class for random access; its members return what the await gave.\<close>

definition random_access_file_open ::
  "('w, 'e, 'f) asio_files \<Rightarrow> asio_flags \<Rightarrow> (string \<Rightarrow> 'e) \<Rightarrow> path \<Rightarrow> open_options \<Rightarrow> ('w, 'e, 'f) fs_task" where
  "random_access_file_open A F invalid p opts fate w =
     (case into_asio_flags F opts of
        Inl msg \<Rightarrow> Some (Threw (invalid msg), w)
      | Inr flags \<Rightarrow> blocking_task return_value_of (open_call A p flags) fate w)"

definition random_access_file_size_of :: "('w, 'e, 'f) asio_files \<Rightarrow> 'f \<Rightarrow> ('w, 'e, 64 word) fs_task" where
  "random_access_file_size_of A f = blocking_task return_result (on_any_thread (af_size A f))"

definition random_access_file_resize ::
  "('w, 'e, 'f) asio_files \<Rightarrow> 'f \<Rightarrow> 64 word \<Rightarrow> ('w, 'e, unit) fs_task" where
  "random_access_file_resize A f n = blocking_task return_result (on_any_thread (af_resize A f n))"

definition random_access_file_sync_data :: "('w, 'e, 'f) asio_files \<Rightarrow> 'f \<Rightarrow> ('w, 'e, unit) fs_task" where
  "random_access_file_sync_data A f = blocking_task return_result (on_any_thread (af_sync_data A f))"

definition random_access_file_sync_all :: "('w, 'e, 'f) asio_files \<Rightarrow> 'f \<Rightarrow> ('w, 'e, unit) fs_task" where
  "random_access_file_sync_all A f = blocking_task return_result (on_any_thread (af_sync_all A f))"

definition random_access_file_is_open :: "('w, 'e, 'f) asio_files \<Rightarrow> 'f \<Rightarrow> 'w \<Rightarrow> bool" where
  "random_access_file_is_open A f w = af_is_open A f w"

definition random_access_file_close ::
  "('w, 'e, 'f) asio_files \<Rightarrow> 'f \<Rightarrow> 'w \<Rightarrow> (error_code + unit) \<times> 'w" where
  "random_access_file_close A f w =
     (case af_close A f w of (ec, w') \<Rightarrow> (if is_error ec then Inl ec else Inr (), w'))"

section \<open>The asynchronous members\<close>

text \<open>A span is the address of its first byte and its length.\<close>

type_synonym byte_span = "nat \<times> nat"

datatype 'f file_request =
    Async_read_some 'f byte_span
  | Async_write_some 'f byte_span
  | Async_read 'f byte_span
  | Async_write 'f byte_span
  | Async_read_some_at 'f "64 word" byte_span
  | Async_write_some_at 'f "64 word" byte_span
  | Async_read_at 'f "64 word" byte_span
  | Async_write_at 'f "64 word" byte_span

type_synonym ('q, 'r) asio_op = "'q \<times> 'r asio_awaitable"

definition file_read_some :: "'f \<Rightarrow> byte_span \<Rightarrow> nat \<Rightarrow> ('f file_request, nat) asio_op" where
  "file_read_some f buffer g = async_op (Async_read_some f buffer) g 0"

definition file_write_some :: "'f \<Rightarrow> byte_span \<Rightarrow> nat \<Rightarrow> ('f file_request, nat) asio_op" where
  "file_write_some f buffer g = async_op (Async_write_some f buffer) g 0"

definition file_read :: "'f \<Rightarrow> byte_span \<Rightarrow> nat \<Rightarrow> ('f file_request, nat) asio_op" where
  "file_read f buffer g = async_op (Async_read f buffer) g 0"

definition file_write :: "'f \<Rightarrow> byte_span \<Rightarrow> nat \<Rightarrow> ('f file_request, nat) asio_op" where
  "file_write f buffer g = async_op (Async_write f buffer) g 0"

definition random_access_file_read_some_at ::
  "'f \<Rightarrow> 64 word \<Rightarrow> byte_span \<Rightarrow> nat \<Rightarrow> ('f file_request, nat) asio_op" where
  "random_access_file_read_some_at f offset buffer g = async_op (Async_read_some_at f offset buffer) g 0"

definition random_access_file_write_some_at ::
  "'f \<Rightarrow> 64 word \<Rightarrow> byte_span \<Rightarrow> nat \<Rightarrow> ('f file_request, nat) asio_op" where
  "random_access_file_write_some_at f offset buffer g = async_op (Async_write_some_at f offset buffer) g 0"

definition random_access_file_read ::
  "'f \<Rightarrow> 64 word \<Rightarrow> byte_span \<Rightarrow> nat \<Rightarrow> ('f file_request, nat) asio_op" where
  "random_access_file_read f offset buffer g = async_op (Async_read_at f offset buffer) g 0"

definition random_access_file_write ::
  "'f \<Rightarrow> 64 word \<Rightarrow> byte_span \<Rightarrow> nat \<Rightarrow> ('f file_request, nat) asio_op" where
  "random_access_file_write f offset buffer g = async_op (Async_write_at f offset buffer) g 0"

section \<open>Options and flags\<close>

text \<open>What Asio documents of its flags: each is a bit mask of its own, none is empty.\<close>

definition separate :: "32 word list \<Rightarrow> bool" where
  "separate xs \<longleftrightarrow> 0 \<notin> set xs \<and> sorted_wrt (\<lambda>x y. x AND y = 0) xs"

definition flag_list :: "asio_flags \<Rightarrow> 32 word list" where
  "flag_list F = [fl_read_only F, fl_write_only F, fl_read_write F, fl_append F, fl_create F,
     fl_exclusive F, fl_truncate F, fl_sync_all_on_write F]"

definition has_flag :: "32 word \<Rightarrow> 32 word \<Rightarrow> bool" where
  "has_flag flags f \<longleftrightarrow> flags AND f \<noteq> 0"

text \<open>Reading the options back from the flags.\<close>

definition options_of :: "asio_flags \<Rightarrow> 32 word \<Rightarrow> open_options" where
  "options_of F flags =
     \<lparr>oo_mode = (if has_flag flags (fl_read_only F) then Mode_read
        else if has_flag flags (fl_write_only F) then Mode_write else Mode_read_write),
      oo_create = has_flag flags (fl_create F), oo_exclusive = has_flag flags (fl_exclusive F),
      oo_truncate = has_flag flags (fl_truncate F), oo_append = has_flag flags (fl_append F),
      oo_sync_all_on_write = has_flag flags (fl_sync_all_on_write F)\<rparr>"

lemma has_set_flag: "has_flag (set_flag b a flags) f \<longleftrightarrow> b \<and> has_flag a f \<or> has_flag flags f"
  by (auto simp: has_flag_def set_flag_def bit.conj_disj_distrib2 or_eq_0_iff)

lemma separate_nth:
  assumes "separate xs" and "i < length xs" and "j < length xs"
  shows "has_flag (xs ! i) (xs ! j) \<longleftrightarrow> i = j"
proof -
  have z: "xs ! i AND xs ! j = 0" if "i < j" "j < length xs" for i j
    using assms(1) that unfolding separate_def sorted_wrt_iff_nth_less by auto
  have "xs ! i \<noteq> 0"
    using assms(1,2) nth_mem [of i xs] unfolding separate_def by metis
  then show ?thesis
    using z [of i j] z [of j i] assms(2,3) by (cases i j rule: linorder_cases) (auto simp: has_flag_def and.commute)
qed

lemma separate_flags:
  assumes "separate (flag_list F)"
  shows "\<forall>i \<in> set [0, 1, 2, 3, 4, 5, 6, 7]. \<forall>j \<in> set [0, 1, 2, 3, 4, 5, 6, 7].
    has_flag (flag_list F ! i) (flag_list F ! j) \<longleftrightarrow> i = j"
proof -
  have "length (flag_list F) = 8" by (simp add: flag_list_def)
  with separate_nth [OF assms] show ?thesis by simp
qed

text \<open>
  C36. Nothing of the opening options is lost or invented on the way to Asio: for a mode that is
  one of the enumerators the flags determine the options, and any other mode throws
  \<^verbatim>\<open>invalid open mode\<close>.
\<close>

theorem options_survive_flags:
  assumes "separate (flag_list F)"
  shows "case oo_mode opts of
      Mode_other _ \<Rightarrow> into_asio_flags F opts = Inl ''invalid open mode''
    | _ \<Rightarrow> map_sum id (options_of F) (into_asio_flags F opts) = Inr opts"
proof -
  show ?thesis
    using separate_flags [OF assms]
    by (cases opts; cases "oo_mode opts")
      (simp_all add: flag_list_def into_asio_flags_def mode_flags_def options_of_def has_set_flag)
qed

definition demo_flags :: asio_flags where
  "demo_flags = \<lparr>fl_read_only = 1, fl_write_only = 2, fl_read_write = 4, fl_append = 8, fl_create = 16,
     fl_exclusive = 32, fl_truncate = 64, fl_sync_all_on_write = 128\<rparr>"

theorem options_survive_flags_witness:
  "map_sum id (options_of demo_flags)
     (into_asio_flags demo_flags (default_open_options\<lparr>oo_mode := Mode_write, oo_create := True\<rparr>)) =
   Inr (default_open_options\<lparr>oo_mode := Mode_write, oo_create := True\<rparr>)"
proof -
  have "separate (flag_list demo_flags)"
    by (simp add: separate_def flag_list_def demo_flags_def)
  from options_survive_flags [OF this, of "default_open_options\<lparr>oo_mode := Mode_write, oo_create := True\<rparr>"]
  show ?thesis by simp
qed

section \<open>What the members on the pool do\<close>

lemmas file_task_defs =
  file_size_of_def file_seek_def file_position_def random_access_file_size_of_def
  random_access_file_resize_def random_access_file_sync_data_def random_access_file_sync_all_def

lemma seek_calls:
  "seek_call A invalid f offset Origin_begin = af_seek A f offset Seek_set"
  "seek_call A invalid f offset Origin_current = af_seek A f offset Seek_cur"
  "seek_call A invalid f offset Origin_end = af_seek A f offset Seek_end"
  by (simp_all add: seek_call_def basis_of_def fun_eq_iff)

text \<open>
  C37. Every function of \<^verbatim>\<open>coasio::filesystem\<close> keeps its contract with the function of
  \<^verbatim>\<open>std::filesystem\<close> of its name, applied to its arguments in their order. The members of the file
  classes that use the pool: \<^verbatim>\<open>seek\<close> hands its offset and the basis
  that corresponds to its origin to Asio's \<^verbatim>\<open>seek\<close> and returns its error code or position, any
  other origin throws without touching the file; \<^verbatim>\<open>position\<close> is a seek by nothing from where
  the file is; \<^verbatim>\<open>size\<close> of both files, and \<^verbatim>\<open>resize\<close> and the two \<^verbatim>\<open>sync\<close> of the random access
  file, keep the same contract with the operation of Asio of their name. \<^verbatim>\<open>resize\<close> and the two
  \<^verbatim>\<open>sync\<close> of the stream file keep the contract of those that report success where the others
  return \<^verbatim>\<open>cancelled\<close>.
\<close>

theorem file_system_operations:
  "fs_contract (file_size F p) (sf_file_size F p) \<and>
   fs_contract (exists F p) (sf_exists F p) \<and>
   fs_contract (is_regular_file F p) (sf_is_regular_file F p) \<and>
   fs_contract (is_directory F p) (sf_is_directory F p) \<and>
   fs_contract (is_symlink F p) (sf_is_symlink F p) \<and>
   fs_contract (status F p) (sf_status F p) \<and>
   fs_contract (symlink_status F p) (sf_symlink_status F p) \<and>
   fs_contract (hard_link_count F p) (sf_hard_link_count F p) \<and>
   fs_contract (equivalent F p1 p2) (sf_equivalent F p1 p2) \<and>
   fs_contract (last_write_time F p) (sf_last_write_time F p) \<and>
   fs_contract (set_last_write_time F p t) (sf_set_last_write_time F p t) \<and>
   fs_contract (create_directory F p) (sf_create_directory F p) \<and>
   fs_contract (create_directories F p) (sf_create_directories F p) \<and>
   fs_contract (remove F p) (sf_remove F p) \<and>
   fs_contract (remove_all F p) (sf_remove_all F p) \<and>
   fs_contract (rename F p q) (sf_rename F p q) \<and>
   fs_contract (copy F p q opts) (sf_copy F p q opts) \<and>
   fs_contract (copy_file F p q opts) (sf_copy_file F p q opts) \<and>
   fs_contract (copy_symlink F p q) (sf_copy_symlink F p q) \<and>
   fs_contract (create_hard_link F p q) (sf_create_hard_link F p q) \<and>
   fs_contract (create_symlink F p q) (sf_create_symlink F p q) \<and>
   fs_contract (create_directory_symlink F p q) (sf_create_directory_symlink F p q) \<and>
   fs_contract (read_symlink F p) (sf_read_symlink F p) \<and>
   fs_contract (absolute F p) (sf_absolute F p) \<and>
   fs_contract (canonical F p) (sf_canonical F p) \<and>
   fs_contract (weakly_canonical F p) (sf_weakly_canonical F p) \<and>
   fs_contract (relative F p base) (sf_relative F p base) \<and>
   fs_contract (proximate F p base) (sf_proximate F p base) \<and>
   fs_contract (current_path F) (sf_current_path F) \<and>
   fs_contract (set_current_path F p) (sf_set_current_path F p) \<and>
   fs_contract (temp_directory_path F) (sf_temp_directory_path F) \<and>
   fs_contract (space F p) (sf_space F p) \<and>
   fs_contract (permissions F p prms opts) (sf_permissions F p prms opts) \<and>
   fs_contract (file_seek A invalid f offset Origin_begin) (af_seek A f offset Seek_set) \<and>
   fs_contract (file_seek A invalid f offset Origin_current) (af_seek A f offset Seek_cur) \<and>
   fs_contract (file_seek A invalid f offset Origin_end) (af_seek A f offset Seek_end) \<and>
   file_seek A invalid f offset (Origin_other n) Run_by_pool w = Some (Threw (invalid ''invalid seek origin''), w) \<and>
   fs_contract (file_position A invalid f) (af_seek A f 0 Seek_cur) \<and>
   fs_contract (file_size_of A f) (af_size A f) \<and>
   fs_contract (random_access_file_size_of A f) (af_size A f) \<and>
   fs_contract (random_access_file_resize A f len) (af_resize A f len) \<and>
   fs_contract (random_access_file_sync_data A f) (af_sync_data A f) \<and>
   fs_contract (random_access_file_sync_all A f) (af_sync_all A f) \<and>
   unchecked_contract (file_resize A f len) (af_resize A f len) \<and>
   unchecked_contract (file_sync_data A f) (af_sync_data A f) \<and>
   unchecked_contract (file_sync_all A f) (af_sync_all A f)"
proof -
  have "file_seek A invalid f offset (Origin_other n) Run_by_pool w = Some (Threw (invalid ''invalid seek origin''), w)"
    by (simp add: file_seek_def blocking_task_simps(4) on_any_thread_def seek_call_def basis_of_def)
  then show ?thesis
    unfolding fs_task_defs file_task_defs file_resize_def file_sync_data_def file_sync_all_def seek_calls
    by (simp add: blocking_task_contract blocking_task_unchecked)
qed

text \<open>A file system for the example: the paths that exist; renaming one that does not is an error.\<close>

definition no_entry :: error_code where
  "no_entry = \<lparr>ec_value = 2, ec_category = Generic_category\<rparr>"

definition demo_rename :: "path \<Rightarrow> path \<Rightarrow> (path list, unit, unit) fs_call" where
  "demo_rename p q w = (if p \<in> set w then (no_error, Gave (), q # removeAll p w)
     else (no_entry, Gave (), w))"

definition demo_filesystem :: "(path list, unit) std_filesystem" where
  "demo_filesystem = undefined\<lparr>sf_rename := demo_rename\<rparr>"

theorem file_system_operations_witness:
  "rename demo_filesystem ''a'' ''b'' Run_by_pool [''a''] = Some (Gave (Inr ()), [''b'']) \<and>
   rename demo_filesystem ''a'' ''b'' Run_by_pool [''c''] = Some (Gave (Inl no_entry), [''c'']) \<and>
   rename demo_filesystem ''a'' ''b'' Not_run [''a''] = Some (Gave (Inl err_cancelled), [''a'']) \<and>
   rename demo_filesystem ''a'' ''b'' Run_unseen [''a''] = Some (Gave (Inl err_cancelled), [''b''])"
proof -
  have "fs_contract (rename demo_filesystem ''a'' ''b'') (sf_rename demo_filesystem ''a'' ''b'')"
    by (simp only: file_system_operations)
  moreover have "is_error no_entry" by (simp add: no_entry_def is_error_def)
  ultimately show ?thesis
    by (simp add: fs_contract_def demo_filesystem_def demo_rename_def)
qed

section \<open>Corners the code leaves open\<close>

text \<open>Cancelled before the pool runs them, the members of the stream file report success.\<close>

lemma cancelled_resize_reports_success:
  "file_resize A f len Not_run w = Some (Gave (Inr ()), w) \<and>
   file_sync_data A f Not_run w = Some (Gave (Inr ()), w) \<and>
   file_sync_all A f Not_run w = Some (Gave (Inr ()), w)"
  by (simp add: file_resize_def file_sync_data_def file_sync_all_def blocking_task_simps)

text \<open>
  \<^verbatim>\<open>open\<close> never succeeds: on a thread of the pool it dereferences the null pointer to the
  current runtime, and when it is cancelled it dereferences the missing result. On a thread
  with a runtime the function it gives to the pool would open the file.
\<close>

lemma open_is_undefined:
  assumes "into_asio_flags F opts = Inr flags"
  shows "file_open A F invalid p opts fate w = None \<and> random_access_file_open A F invalid p opts fate w = None \<and>
    open_call A p flags (Some r) w = Some (af_open A r p flags w)"
  using assms
  by (cases fate) (simp_all add: file_open_def random_access_file_open_def
      blocking_task_def after_await_def return_value_of_def open_call_def pool_thread_runtime_def)

end
