(* ===== verification/Block_On.thy ===== *)
theory Block_On
  imports Workers
begin

text \<open>
  Blocking on a task, as a whole: \<^verbatim>\<open>_block_on\<close> of \<^verbatim>\<open>include/coasio/runtime.hpp\<close> through the
  spawning of its wrapper coroutine, the wrapper's wait for the task, the end of the task, and
  the end of the wrapper. Between these the other coroutines of the runtime may do anything
  that keeps the two frames and their channel as they are.
\<close>

text \<open>
  The wrapper at \<open>h\<close> is a root of the runtime at \<open>r\<close> and waits for the task at \<open>c\<close>; nobody
  waits for the wrapper.
\<close>

definition blocked_on ::
  "nat \<Rightarrow> nat \<Rightarrow> nat \<Rightarrow> handle \<Rightarrow> handle \<Rightarrow> ('e, 'v, 'cb) world \<Rightarrow> bool" where
  "blocked_on r sc a h c w \<longleftrightarrow> spawned r sc a h w \<and> h \<noteq> c \<and> fr_alive (w_frames w c) \<and>
     \<not> pr_detached (promise_of w c) \<and> pr_continuation (promise_of w c) = Some h \<and>
     pr_exception (promise_of w c) = None \<and> pr_sender (promise_of w c) = None \<and>
     o_receiver_dropped (w_channels w a) \<and> o_waiter (w_channels w a) = None"

text \<open>A frame as the call of a coroutine leaves it, suspended before its body.\<close>

definition fresh_frame :: "handle \<Rightarrow> ('e, 'v, 'cb) world \<Rightarrow> bool" where
  "fresh_frame h w \<longleftrightarrow> fr_alive (w_frames w h) \<and> \<not> fr_done (w_frames w h) \<and>
     pr_sender (promise_of w h) = None \<and> pr_exception (promise_of w h) = None \<and> \<not> pr_detached (promise_of w h)"

lemma register_root_other:
  assumes "root_chain r w xs" and "c \<notin> set xs" and "c \<noteq> h"
  shows "w_frames (register_root r h w) c = w_frames w c"
proof -
  have "rt_roots_head (w_rts w r) = head_ptr xs"
    using assms(1) by (auto simp: root_chain_def root_links_def intro: dll_head)
  with assms(2,3) show ?thesis
    by (cases xs) (auto simp: register_root_def Let_def split: option.splits)
qed

lemma spawn_frames:
  assumes "spawn r (Some h) sc a w = Some (j, w', k)" and "root_chain r w xs" and "c \<notin> set xs" and "c \<noteq> h"
    and "fresh_frame h w"
  shows "w_frames w' c = w_frames w c"
proof -
  let ?w3 = "spawned_world r h sc a w"
  have "w' = upd_rt r (schedule (Some h)) (register_root r h ?w3)"
    using assms(1,5) spawn_equation [of w h r sc a] by (simp add: fresh_frame_def)
  moreover have "root_chain r ?w3 xs" using assms(2) by simp
  ultimately show ?thesis
    using register_root_other [of r ?w3 xs c h] assms(3,4) by (simp add: spawned_world_def)
qed

lemma block_on_spawned:
  assumes "root_chain r w xs" and "h \<notin> set xs" and "Suc (length xs) < 2 ^ 64" and "fresh_frame h w"
    and "fresh_frame c w" and "c \<noteq> h" and "c \<notin> set xs"
  shows "\<exists>w1. block_on_spawn r h sc a w = Some (w1, []) \<and> root_chain r w1 (h # xs) \<and>
    rt_queue (w_rts w1 r) = rt_queue (w_rts w r) @ [h] \<and> spawned r sc a h w1 \<and>
    pr_owning_scope (promise_of w1 h) = Some sc \<and> \<not> cancelled sc (w_cancel w1) \<and>
    w_frames w1 c = w_frames w c \<and> o_receiver_dropped (w_channels w1 a) \<and> o_waiter (w_channels w1 a) = None"
proof -
  obtain w' where w': "spawn r (Some h) sc a w = Some (\<lparr>jh_rt = Some r, jh_scope = Some sc,
      jh_rx = \<lparr>r_state = Some a, r_scope = None\<rparr>\<rparr>, w', [])" "root_chain r w' (h # xs)"
      "rt_queue (w_rts w' r) = rt_queue (w_rts w r) @ [h]" "spawned r sc a h w'"
      "pr_owning_scope (promise_of w' h) = Some sc" "\<not> cancelled sc (w_cancel w')"
      "w_channels w' = (w_channels w)(a := new_oneshot)"
    using spawn_effect [OF assms(1-3), of sc a] assms(4) by (auto simp: fresh_frame_def)
  let ?w1 = "w'\<lparr>w_channels := receiver_destroy (Some a) (w_channels w')\<rparr>"
  have "w_frames w' c = w_frames w c"
    by (rule spawn_frames [OF w'(1) assms(1,7,6,4)])
  moreover have "root_chain r ?w1 (h # xs)"
    using w'(2) by (subst root_links_frames [where w' = w']) auto
  moreover have "block_on_spawn r h sc a w = Some (?w1, [])"
    using w'(1) by (simp add: block_on_spawn_def)
  ultimately show ?thesis
    using w' by (intro exI [of _ ?w1])
      (simp add: spawned_def receiver_destroy_def mark_receiver_dropped_def new_oneshot_def)
qed

lemma block_on_begins:
  assumes "spawned r sc a h w" and "fresh_frame c w" and "c \<noteq> h"
    and "o_receiver_dropped (w_channels w a)" and "o_waiter (w_channels w a) = None" and "root_chain r w ys"
  shows "\<exists>w2. block_on_begin h (Some c) w = Some (Some c, w2) \<and> blocked_on r sc a h c w2 \<and> root_chain r w2 ys \<and>
    pr_owning_scope (promise_of w2 c) = pr_owning_scope (promise_of w h)"
proof -
  let ?w2 = "upd_promise c (\<lambda>p. p\<lparr>pr_continuation := Some h\<rparr>)
    (upd_promise c (\<lambda>p. p\<lparr>pr_owning_scope := pr_owning_scope (promise_of w h)\<rparr>) w)"
  have "block_on_begin h (Some c) w = Some (Some c, ?w2)"
    using assms(2) by (simp add: block_on_begin_def await_transform_task_def task_set_owning_scope_def
        task_await_ready_def task_await_suspend_def fresh_frame_def)
  moreover have "blocked_on r sc a h c ?w2"
    using assms by (simp add: blocked_on_def spawned_def fresh_frame_def)
  moreover have "root_chain r ?w2 ys"
    using assms(6) by (subst root_links_frames [where w' = w]) auto
  ultimately show ?thesis by (intro exI [of _ ?w2]) simp
qed

lemma block_on_ends:
  assumes "blocked_on r sc a h c w" and "root_chain r w ys" and "h \<in> set ys" and "length ys < 2 ^ 64"
  shows "\<exists>w3 w4. final_suspend c (upd_promise c (end_body res) w) = Some (w3, Some h, []) \<and>
    block_on_end h (Some c) w3 = Some (block_on_body res, w4, []) \<and>
    \<not> fr_alive (w_frames w4 h) \<and> \<not> fr_alive (w_frames w4 c) \<and> root_chain r w4 (remove1 h ys)"
proof -
  note b = assms(1) [unfolded blocked_on_def]
  let ?w3 = "upd_frame c (\<lambda>f. f\<lparr>fr_done := True\<rparr>) (upd_promise c (end_body res) w)"
  let ?w4 = "(upd_frame c (\<lambda>f. f\<lparr>fr_alive := False\<rparr>) ?w3)\<lparr>w_channels := w_channels w\<rparr>"
  have 3: "final_suspend c (upd_promise c (end_body res) w) = Some (?w3, Some h, [])"
    using b by (simp add: final_suspend_def final_suspend_with_def Let_def)
  have r: "task_await_resume (Some c) ?w3 = Some res"
    using b by (cases res) (simp_all add: task_await_resume_def return_value_def unhandled_exception_def)
  have d: "task_awaiter_destroy (Some c) ?w3 = Some (?w4, [])"
    using b by (simp add: task_awaiter_destroy_def task_destroy_def destroy_frame_def sender_destroy_def)
  have s: "spawned r sc a h ?w4" using b by (simp add: spawned_def)
  have t: "root_chain r ?w4 ys"
    using assms(2) by (subst root_links_frames [where w' = w]) auto
  have "o_receiver_dropped (w_channels ?w4 a)" "o_waiter (w_channels ?w4 a) = None" using b by simp_all
  from final_suspend_unjoined [where eb = "end_body_void (Gave ())" and oc = outcome_of_void, OF s(1) this]
  obtain w5 where w5: "final_suspend_void h (upd_promise h (end_body_void (Gave ())) ?w4) = Some (w5, None, [])"
      "\<not> fr_alive (w_frames w5 h)" "\<forall>x. x \<noteq> h \<longrightarrow> fr_alive (w_frames w5 x) = fr_alive (w_frames ?w4 x)"
      "root_chain r w5 (remove1 h ys)"
    using s t assms(3,4) by (auto simp: final_suspend_void_eq return_void_def spawned_def)
  have "\<not> fr_alive (w_frames w5 c)" using w5(3) b by auto
  moreover have "block_on_end h (Some c) ?w3 = Some (block_on_body res, w5, [])"
    using r d w5(1) by (simp add: block_on_end_def)
  ultimately show ?thesis using 3 w5 by blast
qed

text \<open>
  C28. \<^verbatim>\<open>block_on(task)\<close> returns what the task does. It queues one coroutine, a new live root;
  resumed by a worker, this hands its scope to the task and starts it; when the body of the task
  ends with a value or an exception (whatever else has happened by then, as long as the two
  coroutines are as they were left), the wrapper is resumed directly, the future holds the value
  or the exception, which the caller gets, both frames have been destroyed, the wrapper is no
  longer a live root, and no coroutine has been scheduled on its account.
\<close>

theorem block_on_returns_task_result:
  assumes "root_chain r w xs" and "h \<notin> set xs" and "Suc (length xs) < 2 ^ 64" and "fresh_frame h w"
    and "fresh_frame c w" and "c \<noteq> h" and "c \<notin> set xs"
  shows "\<exists>w1 w2. block_on_spawn r h sc a w = Some (w1, []) \<and> root_chain r w1 (h # xs) \<and>
    rt_queue (w_rts w1 r) = rt_queue (w_rts w r) @ [h] \<and>
    block_on_begin h (Some c) w1 = Some (Some c, w2) \<and> root_chain r w2 (h # xs) \<and> blocked_on r sc a h c w2 \<and>
    pr_owning_scope (promise_of w2 c) = Some sc \<and>
    (\<forall>wm ys res. blocked_on r sc a h c wm \<and> root_chain r wm ys \<and> h \<in> set ys \<and> length ys < 2 ^ 64 \<longrightarrow>
      (\<exists>w3 w4 fut. final_suspend c (upd_promise c (end_body res) wm) = Some (w3, Some h, []) \<and>
        block_on_end h (Some c) w3 = Some (fut, w4, []) \<and> future_get fut = Some res \<and>
        \<not> fr_alive (w_frames w4 h) \<and> \<not> fr_alive (w_frames w4 c) \<and> root_chain r w4 (remove1 h ys)))"
proof -
  obtain w1 where w1: "block_on_spawn r h sc a w = Some (w1, [])" "root_chain r w1 (h # xs)"
      "rt_queue (w_rts w1 r) = rt_queue (w_rts w r) @ [h]" "spawned r sc a h w1"
      "pr_owning_scope (promise_of w1 h) = Some sc" "w_frames w1 c = w_frames w c"
      "o_receiver_dropped (w_channels w1 a)" "o_waiter (w_channels w1 a) = None"
    using block_on_spawned [OF assms, of sc a] by blast
  have "fresh_frame c w1" using assms(5) w1(6) by (simp add: fresh_frame_def)
  from block_on_begins [OF w1(4) this assms(6) w1(7,8,2)] obtain w2 where
    "block_on_begin h (Some c) w1 = Some (Some c, w2)" "blocked_on r sc a h c w2" "root_chain r w2 (h # xs)"
    "pr_owning_scope (promise_of w2 c) = Some sc"
    using w1(5) by auto
  moreover have "\<exists>w3 w4 fut. final_suspend c (upd_promise c (end_body res) wm) = Some (w3, Some h, []) \<and>
      block_on_end h (Some c) w3 = Some (fut, w4, []) \<and> future_get fut = Some res \<and>
      \<not> fr_alive (w_frames w4 h) \<and> \<not> fr_alive (w_frames w4 c) \<and> root_chain r w4 (remove1 h ys)"
    if "blocked_on r sc a h c wm \<and> root_chain r wm ys \<and> h \<in> set ys \<and> length ys < 2 ^ 64" for wm ys res
    using block_on_ends [of r sc a h c wm ys res] that block_on_returns by blast
  ultimately show ?thesis using w1(1-3) by blast
qed

theorem block_on_returns_task_result_witness:
  "\<exists>w1 w2 w3 w4 fut. block_on_spawn 0 5 2 3 demo_runtime_world = Some (w1, []) \<and>
     rt_queue (w_rts w1 0) = [5] \<and> block_on_begin 5 (Some 6) w1 = Some (Some 6, w2) \<and>
     final_suspend 6 (upd_promise 6 (end_body (Threw 9)) w2) = Some (w3, Some 5, []) \<and>
     block_on_end 5 (Some 6) w3 = Some (fut, w4, []) \<and> future_get fut = Some (Threw 9) \<and> root_chain 0 w4 []"
proof -
  have c: "root_chain 0 demo_runtime_world []"
    by (simp add: root_chain_def root_links_def dll_def new_runtime_def)
  have f: "fresh_frame 5 demo_runtime_world" "fresh_frame 6 demo_runtime_world" "(6 :: nat) \<noteq> 5"
    by (simp_all add: fresh_frame_def)
  obtain w1 w2 :: "(nat, nat, nat) world" where w: "block_on_spawn 0 5 2 3 demo_runtime_world = Some (w1, [])"
      "rt_queue (w_rts w1 0) = [5]" "block_on_begin 5 (Some 6) w1 = Some (Some 6, w2)"
      "root_chain 0 w2 [5]" "blocked_on 0 2 3 5 6 w2"
    and e: "\<forall>(wm :: (nat, nat, nat) world) ys res. blocked_on 0 2 3 5 6 wm \<and> root_chain 0 wm ys \<and> 5 \<in> set ys \<and> length ys < 2 ^ 64 \<longrightarrow>
      (\<exists>w3 w4 fut. final_suspend 6 (upd_promise 6 (end_body res) wm) = Some (w3, Some 5, []) \<and>
        block_on_end 5 (Some 6) w3 = Some (fut, w4, []) \<and> future_get fut = Some res \<and>
        \<not> fr_alive (w_frames w4 5) \<and> \<not> fr_alive (w_frames w4 6) \<and> root_chain 0 w4 (remove1 5 ys))"
    using block_on_returns_task_result [OF c _ _ f, of 2 3] by (auto simp: new_runtime_def)
  have "5 \<in> set [5 :: nat]" "length [5 :: nat] < 2 ^ 64" by simp_all
  with e [rule_format, of w2 "[5]" "Threw 9"] w show ?thesis by fastforce
qed

end
