(* ===== verification/Abort.thy ===== *)
theory Abort
  imports Block_On
begin

text \<open>
  Aborting a task, through all the parts that take part in it: \<^verbatim>\<open>JoinHandle::abort\<close>
  (\<^verbatim>\<open>include/coasio/runtime.hpp\<close>) cancels the scope that \<^verbatim>\<open>_spawn\<close> made; the tasks that the
  spawned one awaits, and those that they await, have been given that scope by
  \<^verbatim>\<open>await_transform\<close> (\<^verbatim>\<open>include/coasio/task.hpp\<close>); the innermost waits on a channel
  (\<^verbatim>\<open>include/coasio/sync/oneshot.hpp\<close>), for instance the one of another join handle, and its
  guard is the one armed on the scope.
\<close>

section \<open>Tasks that await tasks\<close>

text \<open>
  \<open>descend h cs\<close>: the coroutine at \<open>h\<close> awaits the task at the first of \<open>cs\<close>, whose coroutine,
  resumed by that, awaits the second, and so on.
\<close>

fun descend :: "handle \<Rightarrow> handle list \<Rightarrow> ('e, 'v, 'cb) world \<Rightarrow> ('e, 'v, 'cb) world option" where
  "descend h [] w = Some w"
| "descend h (c # cs) w =
     (case await_transform_task h (Some c) w of
        None \<Rightarrow> None
      | Some (t, w1) \<Rightarrow>
          if task_await_ready t w1 then None
          else (case task_await_suspend t h w1 of
                  None \<Rightarrow> None
                | Some (c', w2) \<Rightarrow> descend c' cs w2))"

text \<open>What a task is after it has been awaited: under the scope \<open>sp\<close>, with the awaiting one behind it.\<close>

definition awaited_by :: "handle \<Rightarrow> scope_ptr \<Rightarrow> handle \<Rightarrow> ('e, 'v, 'cb) world \<Rightarrow> bool" where
  "awaited_by h sp c w \<longleftrightarrow> fresh_frame c w \<and> pr_owning_scope (promise_of w c) = sp \<and>
     pr_continuation (promise_of w c) = Some h"

fun await_path :: "handle \<Rightarrow> scope_ptr \<Rightarrow> handle list \<Rightarrow> ('e, 'v, 'cb) world \<Rightarrow> bool" where
  "await_path h sp [] w \<longleftrightarrow> True"
| "await_path h sp (c # cs) w \<longleftrightarrow> awaited_by h sp c w \<and> await_path c sp cs w"

lemma await_path_nth:
  "await_path h sp cs w \<Longrightarrow> i < length cs \<Longrightarrow> awaited_by ((h # cs) ! i) sp (cs ! i) w"
proof (induction cs arbitrary: h i)
  case (Cons c cs)
  then show ?case by (cases i) auto
qed simp

lemma await_path_cong:
  "(\<And>c. c \<in> set cs \<Longrightarrow> w_frames w' c = w_frames w c) \<Longrightarrow> await_path h sp cs w' = await_path h sp cs w"
  by (induction cs arbitrary: h) (simp_all add: awaited_by_def fresh_frame_def)

lemma descend_effect:
  assumes "\<forall>c \<in> set cs. fresh_frame c w" and "distinct (h # cs)"
  shows "\<exists>w'. descend h cs w = Some w' \<and> await_path h (pr_owning_scope (promise_of w h)) cs w' \<and>
    (\<forall>x. x \<notin> set cs \<longrightarrow> w_frames w' x = w_frames w x) \<and>
    (\<forall>x. pr_next (promise_of w' x) = pr_next (promise_of w x) \<and>
      pr_prev (promise_of w' x) = pr_prev (promise_of w x)) \<and>
    w_rts w' = w_rts w \<and> w_channels w' = w_channels w \<and> w_cancel w' = w_cancel w"
  using assms
proof (induction cs arbitrary: h w)
  case (Cons c cs)
  let ?sp = "pr_owning_scope (promise_of w h)"
  let ?w2 = "upd_promise c (\<lambda>p. p\<lparr>pr_continuation := Some h\<rparr>)
    (upd_promise c (\<lambda>p. p\<lparr>pr_owning_scope := ?sp\<rparr>) w)"
  have step: "descend h (c # cs) w = descend c cs ?w2"
    using Cons.prems(1) by (simp add: await_transform_task_def task_set_owning_scope_def
        task_await_ready_def task_await_suspend_def fresh_frame_def)
  have "\<forall>x \<in> set cs. fresh_frame x ?w2" "distinct (c # cs)"
    using Cons.prems by (auto simp: fresh_frame_def)
  from Cons.IH [OF this] obtain w' where w': "descend c cs ?w2 = Some w'"
    "await_path c ?sp cs w'" "\<forall>x. x \<notin> set cs \<longrightarrow> w_frames w' x = w_frames ?w2 x"
    "\<forall>x. pr_next (promise_of w' x) = pr_next (promise_of w x) \<and>
      pr_prev (promise_of w' x) = pr_prev (promise_of w x)"
    "w_rts w' = w_rts w" "w_channels w' = w_channels w" "w_cancel w' = w_cancel w"
    by auto
  have "awaited_by h ?sp c w'"
    using w'(3) Cons.prems by (simp add: awaited_by_def fresh_frame_def)
  with w' step Cons.prems(2) show ?case by (intro exI [of _ w']) simp
qed simp

text \<open>When the body of an awaited task ends, its final suspension resumes the one that awaits it.\<close>

lemma awaited_end:
  assumes "awaited_by h sp c w"
  shows "\<exists>w'. final_suspend c (upd_promise c (end_body res) w) = Some (w', Some h, []) \<and>
    task_await_resume (Some c) w' = Some res"
  using assms by (cases res) (simp_all add: awaited_by_def fresh_frame_def final_suspend_def
      final_suspend_with_def task_await_resume_def return_value_def unhandled_exception_def Let_def)

section \<open>Waiting on a channel\<close>

text \<open>
  \<^verbatim>\<open>co_await std::move(rx)\<close> in the coroutine at \<open>c\<close>, on a worker of the runtime at \<open>r\<close>: the
  scope of the coroutine is given to the receiver, the awaiter is made with its guard at \<open>g\<close>,
  and, unless it is ready, it suspends the coroutine. The flag tells whether it did.
\<close>

definition await_receiver ::
  "nat \<Rightarrow> nat \<Rightarrow> handle \<Rightarrow> receiver \<Rightarrow> ('e, 'v, oneshot_cb) world \<Rightarrow>
   (receiver_awaiter \<times> bool \<times> ('e, 'v, oneshot_cb) world) option" where
  "await_receiver r g c rx w =
     (case receiver_co_await (Some r) g (await_transform_leaf receiver_set_cancel_scope c rx w)
             (w_channels w) (w_cancel w) of
        None \<Rightarrow> None
      | Some (aw, _, m1, cw1) \<Rightarrow>
          (case await_ready aw m1 cw1 of
             None \<Rightarrow> None
           | Some True \<Rightarrow> Some (aw, False, w\<lparr>w_channels := m1, w_cancel := cw1\<rparr>)
           | Some False \<Rightarrow>
               map_option (\<lambda>(b, m2, cw2). (aw, b, w\<lparr>w_channels := m2, w_cancel := cw2\<rparr>))
                 (await_suspend aw c m1 cw1)))"

text \<open>\<^verbatim>\<open>abort()\<close>, with the scheduling its callbacks do.\<close>

primrec schedule_wakes :: "wake list \<Rightarrow> ('e, 'v, 'cb) world \<Rightarrow> ('e, 'v, 'cb) world option" where
  "schedule_wakes [] w = Some w"
| "schedule_wakes (k # ks) w =
     (case runtime_schedule k w of None \<Rightarrow> None | Some w' \<Rightarrow> schedule_wakes ks w')"

definition abort_task ::
  "join_handle \<Rightarrow> ('e, 'v, oneshot_cb) world \<Rightarrow> ('e, 'v, oneshot_cb) world option" where
  "abort_task j w =
     (case abort run_oneshot_cb j (w_cancel w) (w_channels w, []) of
        None \<Rightarrow> None
      | Some (cw, m, ks) \<Rightarrow> schedule_wakes ks (w\<lparr>w_cancel := cw, w_channels := m\<rparr>))"

lemma await_receiver_suspends:
  assumes inv: "cancel_inv (w_cancel w)" "\<not> cancelled sc (w_cancel w)" "armed_on sc (w_cancel w) = {}"
    and g: "g_state (guards (w_cancel w) g) = Idle" and sc: "pr_owning_scope (promise_of w c) = Some sc"
    and b: "r_state rx = Some b" "\<not> ch_resolved (w_channels w b)"
  shows "\<exists>cw. await_receiver r g c rx w = Some (\<lparr>a_state = Some b, a_scope = Some sc, a_guard = g\<rparr>, True,
      w\<lparr>w_channels := (w_channels w)(b := (w_channels w b)\<lparr>o_rt := Some r, o_waiter := Some c\<rparr>),
        w_cancel := cw\<rparr>) \<and>
    cancel_inv cw \<and> \<not> cancelled sc cw \<and> armed_on sc cw = {g} \<and>
    g_cb (guards cw g) = Some (Cancel_waiter b c) \<and> g_scope (guards cw g) = Some sc"
proof -
  let ?aw = "\<lparr>a_state = Some b, a_scope = Some sc, a_guard = g\<rparr>"
  let ?cw = "upd_guard g (\<lambda>r. r\<lparr>g_scope := Some sc\<rparr>) (w_cancel w)"
  have bind: "bind g (Some sc) (w_cancel w) = Some ?cw" using g by (simp add: bind_def)
  have 1: "cancel_inv ?cw" using inv(1) bind by (rule bind_inv)
  have 2: "\<not> cancelled sc ?cw" "armed_on sc ?cw = {}" "g_state (guards ?cw (a_guard ?aw)) = Idle"
      "g_scope (guards ?cw (a_guard ?aw)) = Some sc" "a_state ?aw = Some b"
    using inv g by (auto simp: cancelled_def armed_on_def)
  obtain cw where cw: "suspend_arm ?aw c ?cw = Some (Arm_armed, cw)" "cancel_inv cw"
      "armed_on sc cw = {g}" "g_cb (guards cw g) = Some (Cancel_waiter b c)"
      "g_scope (guards cw g) = Some sc" "\<not> cancelled sc cw"
    using suspend_arm_idle [OF 2(3-5,1) 1 2(2), of c] by auto
  then show ?thesis
    using bind b 2(1) sc
    by (auto simp: await_receiver_def receiver_co_await_def await_transform_leaf_def
        receiver_set_cancel_scope_def await_ready_def already_cancelled_def await_suspend_def
        suspend_enrol_def ch_resolved_def)
qed

text \<open>Aborting cancels the wait, schedules the coroutine that waits, and closes the channel.\<close>

lemma abort_task_wakes:
  assumes cw: "cancel_inv (w_cancel w)" "\<not> cancelled sc (w_cancel w)" "armed_on sc (w_cancel w) = {g}"
      "g_cb (guards (w_cancel w) g) = Some (Cancel_waiter b c)" "g_scope (guards (w_cancel w) g) = Some sc"
    and ch: "\<not> ch_resolved (w_channels w b)" "o_waiter (w_channels w b) = Some c" "o_rt (w_channels w b) = Some r"
    and aw: "aw = \<lparr>a_state = Some b, a_scope = Some sc, a_guard = g\<rparr>" and j: "jh_scope j = Some sc"
  shows "\<exists>cw'. abort_task j w = Some (upd_rt r (schedule (Some c)) (w\<lparr>w_cancel := cw',
      w_channels := (w_channels w)(b := (w_channels w b)\<lparr>o_cancelled := True, o_waiter := None\<rparr>)\<rparr>)) \<and>
    cancelled sc cw' \<and>
    await_resume aw ((w_channels w)(b := (w_channels w b)\<lparr>o_cancelled := True, o_waiter := None\<rparr>)) cw' =
      Some (Inl err_cancelled, cw')"
proof -
  let ?m = "(w_channels w)(b := (w_channels w b)\<lparr>o_cancelled := True, o_waiter := None\<rparr>)"
  obtain cw' where c: "cancel run_oneshot_cb sc (w_cancel w) (w_channels w, []) =
      Some (cw', ?m, [(Some r, c)])" "await_resume aw ?m cw' = Some (Inl err_cancelled, cw')"
    using armed_then_cancelled [OF cw aw, where m = "w_channels w", OF ch(1) refl, of "[]"] ch(2,3) by auto
  moreover have "cancelled sc cw'"
    using cancel_sets_flags [OF cw(1), of run_oneshot_cb sc "(w_channels w, [])"] c(1) by auto
  ultimately show ?thesis
    using j by (intro exI [of _ cw']) (simp add: abort_task_def abort_def runtime_schedule_def)
qed

lemma abort_again:
  "jh_scope j = Some sc \<Longrightarrow> cancelled sc (w_cancel w) \<Longrightarrow> abort_task j w = Some w"
  by (cases w) (simp add: abort_task_def abort_def cancel_def)

section \<open>The whole\<close>

text \<open>
  The three phases one after the other, and what they leave: the frames on the path as the
  awaiting made them, all others untouched, one handle more in the run queue, the channel and
  the scope cancelled.
\<close>

lemma path_scope:
  assumes "await_path h sp cs w" and "pr_owning_scope (promise_of w h) = sp"
  shows "pr_owning_scope (promise_of w (last (h # cs))) = sp"
  using assms by (induction cs arbitrary: h) (auto simp: awaited_by_def)

lemma wait_and_abort:
  assumes sp: "pr_owning_scope (promise_of w h) = Some sc" "jh_scope j = Some sc"
    and path: "\<forall>c \<in> set cs. fresh_frame c w" "distinct (h # cs)"
    and scope: "cancel_inv (w_cancel w)" "\<not> cancelled sc (w_cancel w)" "armed_on sc (w_cancel w) = {}"
    and wait: "g_state (guards (w_cancel w) g) = Idle" "r_state rx = Some b" "\<not> ch_resolved (w_channels w b)"
  obtains w1 aw w2 w3 where "descend h cs w = Some w1"
    "await_receiver r g (last (h # cs)) rx w1 = Some (aw, True, w2)" "w_rts w2 = w_rts w"
    "abort_task j w2 = Some w3"
    "await_resume aw (w_channels w3) (w_cancel w3) = Some (Inl err_cancelled, w_cancel w3)"
    "w_rts w3 = (w_rts w)(r := schedule (Some (last (h # cs))) (w_rts w r))"
    "w_channels w3 = (w_channels w)(b := (w_channels w b)\<lparr>o_rt := Some r, o_cancelled := True, o_waiter := None\<rparr>)"
    "cancelled sc (w_cancel w3)" "await_path h (Some sc) cs w3"
    "\<And>x. x \<notin> set cs \<Longrightarrow> w_frames w3 x = w_frames w x"
    "\<And>x. pr_next (promise_of w3 x) = pr_next (promise_of w x)"
    "\<And>x. pr_prev (promise_of w3 x) = pr_prev (promise_of w x)"
proof -
  let ?l = "last (h # cs)"
  obtain w1 where w1: "descend h cs w = Some w1" "await_path h (Some sc) cs w1"
      "\<forall>x. x \<notin> set cs \<longrightarrow> w_frames w1 x = w_frames w x"
      "\<forall>x. pr_next (promise_of w1 x) = pr_next (promise_of w x) \<and>
        pr_prev (promise_of w1 x) = pr_prev (promise_of w x)"
      "w_rts w1 = w_rts w" "w_channels w1 = w_channels w" "w_cancel w1 = w_cancel w"
    using descend_effect [OF path] sp(1) by auto
  have l: "pr_owning_scope (promise_of w1 ?l) = Some sc"
    using w1(3) path(2) sp(1) by (intro path_scope [OF w1(2)]) simp
  have ch: "\<not> ch_resolved (w_channels w1 b)" and idle: "g_state (guards (w_cancel w1) g) = Idle"
    using wait(1,3) w1(6,7) by simp_all
  let ?aw = "\<lparr>a_state = Some b, a_scope = Some sc, a_guard = g\<rparr>"
  let ?m2 = "(w_channels w)(b := (w_channels w b)\<lparr>o_rt := Some r, o_waiter := Some ?l\<rparr>)"
  obtain cw2 where cw2: "await_receiver r g ?l rx w1 = Some (?aw, True, w1\<lparr>w_channels := ?m2, w_cancel := cw2\<rparr>)"
      "cancel_inv cw2" "\<not> cancelled sc cw2" "armed_on sc cw2 = {g}"
      "g_cb (guards cw2 g) = Some (Cancel_waiter b ?l)" "g_scope (guards cw2 g) = Some sc"
    using await_receiver_suspends [OF _ _ _ idle l wait(2) ch, of r] scope w1(6,7) by (metis (no_types))
  let ?w2 = "w1\<lparr>w_channels := ?m2, w_cancel := cw2\<rparr>"
  let ?m3 = "?m2(b := (?m2 b)\<lparr>o_cancelled := True, o_waiter := None\<rparr>)"
  obtain cw3 where cw3: "abort_task j ?w2 = Some (upd_rt r (schedule (Some ?l)) (?w2\<lparr>w_cancel := cw3, w_channels := ?m3\<rparr>))"
      "cancelled sc cw3" "await_resume ?aw ?m3 cw3 = Some (Inl err_cancelled, cw3)"
    using abort_task_wakes [of ?w2 sc g b ?l r ?aw j] cw2 wait(3) sp(2) by (auto simp: ch_resolved_def)
  let ?w3 = "upd_rt r (schedule (Some ?l)) (?w2\<lparr>w_cancel := cw3, w_channels := ?m3\<rparr>)"
  have "await_path h (Some sc) cs ?w3"
    using w1(2) await_path_cong [of cs ?w3 w1] by simp
  with that [of w1 ?aw ?w2 ?w3] w1 cw2(1) cw3 show thesis by simp
qed

text \<open>
  C24. \<^verbatim>\<open>abort()\<close> reaches the innermost wait of the task, however deep. A spawned task at \<open>h\<close>
  awaits a task, this another, and so on along \<open>cs\<close>, the last of which waits on the channel at
  \<open>b\<close>: nothing is scheduled by that. Aborting the task through its join handle schedules the
  coroutine that waits, it alone and once, and that reads the error \<^verbatim>\<open>cancelled\<close>; whoever sends
  on the channel afterwards gets the value back; aborting again does nothing. The tasks are not
  torn down: when the body of one of \<open>cs\<close> ends, its final suspension resumes the one that awaits
  it, with its result, up to \<open>h\<close>, which is still a live root; and what the body of \<open>h\<close> makes of
  the cancellation is what \<^verbatim>\<open>join()\<close> gives.
\<close>

theorem abort_reaches_the_wait:
  assumes spawned: "spawned r sc a h w" "pr_owning_scope (promise_of w h) = Some sc" "jh_scope j = Some sc"
    and roots: "root_chain r w xs" "h \<in> set xs" "length xs < 2 ^ 64" "undelivered (w_channels w a)"
    and path: "\<forall>c \<in> set cs. fresh_frame c w" "distinct (h # cs)"
    and scope: "cancel_inv (w_cancel w)" "\<not> cancelled sc (w_cancel w)" "armed_on sc (w_cancel w) = {}"
    and wait: "g_state (guards (w_cancel w) g) = Idle" "r_state rx = Some b" "b \<noteq> a" "\<not> ch_resolved (w_channels w b)"
  shows "\<exists>w1 aw w2 w3 cw. descend h cs w = Some w1 \<and>
    await_receiver r g (last (h # cs)) rx w1 = Some (aw, True, w2) \<and> w_rts w2 = w_rts w \<and>
    abort_task j w2 = Some w3 \<and> rt_queue (w_rts w3 r) = rt_queue (w_rts w r) @ [last (h # cs)] \<and>
    await_resume aw (w_channels w3) (w_cancel w3) = Some (Inl err_cancelled, cw) \<and>
    (\<forall>v. send (Some b) v (w_channels w3) = (Inl v, w_channels w3, [])) \<and>
    join_cancelled j (w_cancel w3) \<and> abort_task j w3 = Some w3 \<and> root_chain r w3 xs \<and>
    (\<forall>i < length cs. \<forall>res. \<exists>w4.
      final_suspend (cs ! i) (upd_promise (cs ! i) (end_body res) w3) = Some (w4, Some ((h # cs) ! i), []) \<and>
      task_await_resume (Some (cs ! i)) w4 = Some res) \<and>
    (\<forall>res. \<exists>w4 out k. final_suspend h (upd_promise h (end_body res) w3) = Some (w4, None, k) \<and>
      root_chain r w4 (remove1 h xs) \<and> resume_value sd (w_channels w4 a) = Some (Inr out) \<and>
      join_body (Inr out) = Some (case res of Threw e \<Rightarrow> Threw e | Gave v \<Rightarrow> Gave (Inr v)))"
proof -
  let ?l = "last (h # cs)"
  obtain w1 aw w2 w3 where w: "descend h cs w = Some w1" "await_receiver r g ?l rx w1 = Some (aw, True, w2)"
      "w_rts w2 = w_rts w" "abort_task j w2 = Some w3"
      "await_resume aw (w_channels w3) (w_cancel w3) = Some (Inl err_cancelled, w_cancel w3)"
    and rt: "w_rts w3 = (w_rts w)(r := schedule (Some ?l) (w_rts w r))"
    and m: "w_channels w3 = (w_channels w)(b := (w_channels w b)\<lparr>o_rt := Some r, o_cancelled := True, o_waiter := None\<rparr>)"
    and c: "cancelled sc (w_cancel w3)" "await_path h (Some sc) cs w3"
    and f: "\<And>x. x \<notin> set cs \<Longrightarrow> w_frames w3 x = w_frames w x"
      "\<And>x. pr_next (promise_of w3 x) = pr_next (promise_of w x)"
      "\<And>x. pr_prev (promise_of w3 x) = pr_prev (promise_of w x)"
    by (rule wait_and_abort [OF spawned(2,3) path scope wait(1,2,4), where r = r]) (rule that)
  have "w_frames w3 h = w_frames w h" using f(1) path(2) by simp
  then have s3: "spawned r sc a h w3" using spawned(1) by (simp add: spawned_def)
  have u3: "undelivered (w_channels w3 a)" using roots(4) wait(3) m by simp
  have links: "root_chain r w3 xs"
    using roots(1) f(2,3) rt
    by (simp add: root_chain_def root_links_def schedule_def put_task_in_queue_def)
  have "rt_queue (w_rts w3 r) = rt_queue (w_rts w r) @ [?l]"
    using rt by (simp add: schedule_def put_task_in_queue_def)
  moreover have "send (Some b) v (w_channels w3) = (Inl v, w_channels w3, [])" for v
    using m by (simp add: send_def set_value_def)
  moreover have "join_cancelled j (w_cancel w3)" "abort_task j w3 = Some w3"
    using spawned(3) c(1) by (simp_all add: join_cancelled_def already_cancelled_def abort_again)
  moreover note awaited_end [OF await_path_nth [OF c(2)]] spawned_ends [OF s3 u3 links roots(2,3)]
  ultimately show ?thesis
    using w links by (intro exI [of _ w1] exI [of _ aw] exI [of _ w2] exI [of _ w3] exI [of _ "w_cancel w3"]) blast
qed

definition demo_task_world :: "(nat, nat, oneshot_cb) world" where
  "demo_task_world =
     \<lparr>w_frames = (\<lambda>h. if h = 5 then demo_frame\<lparr>fr_promise := new_promise\<lparr>pr_owning_scope := Some 2,
          pr_sender := Some 3, pr_owner_rt := Some 0, pr_scope_raw := Some 2, pr_detached := True\<rparr>\<rparr>
        else demo_frame),
      w_rts = (\<lambda>_. new_runtime\<lparr>rt_roots_head := Some 5, rt_live := 1\<rparr>),
      w_channels = (\<lambda>_. new_oneshot), w_cancel = \<lparr>guards = (\<lambda>_. new_guard None), scopes = (\<lambda>_. new_scope)\<rparr>\<rparr>"

theorem abort_reaches_the_wait_witness:
  "\<exists>w1 aw w2 w3 w4 cw. descend 5 [6, 7] demo_task_world = Some w1 \<and>
     await_receiver 0 9 7 \<lparr>r_state = Some 4, r_scope = None\<rparr> w1 = Some (aw, True, w2) \<and>
     abort_task \<lparr>jh_rt = Some 0, jh_scope = Some 2, jh_rx = \<lparr>r_state = Some 3, r_scope = None\<rparr>\<rparr> w2 = Some w3 \<and>
     rt_queue (w_rts w3 0) = [7] \<and>
     await_resume aw (w_channels w3) (w_cancel w3) = Some (Inl err_cancelled, cw) \<and>
     final_suspend 7 (upd_promise 7 (end_body (Gave 1)) w3) = Some (w4, Some 6, []) \<and> root_chain 0 w3 [5]"
proof -
  let ?w = demo_task_world
  let ?j = "\<lparr>jh_rt = Some 0, jh_scope = Some 2, jh_rx = \<lparr>r_state = Some 3, r_scope = None\<rparr>\<rparr>"
  let ?rx = "\<lparr>r_state = Some (4 :: nat), r_scope = None\<rparr>"
  have s: "spawned 0 2 3 5 ?w" "pr_owning_scope (promise_of ?w 5) = Some 2" "jh_scope ?j = Some 2"
    by (simp_all add: demo_task_world_def spawned_def)
  have r: "root_chain 0 ?w [5]" "5 \<in> set [5 :: nat]" "length [5 :: nat] < 2 ^ 64" "undelivered (w_channels ?w 3)"
    by (simp_all add: demo_task_world_def root_chain_def root_links_def dll_def last_ptr_def new_runtime_def
        undelivered_def new_oneshot_def new_promise_def)
  have p: "\<forall>c \<in> set [6, 7]. fresh_frame c ?w" "distinct [5 :: nat, 6, 7]"
    by (simp_all add: demo_task_world_def fresh_frame_def)
  have "fresh_world (w_cancel ?w)"
    by (simp add: demo_task_world_def fresh_world_def new_guard_def new_scope_def)
  then have c: "cancel_inv (w_cancel ?w)" by (rule fresh_world_inv)
  have n: "\<not> cancelled 2 (w_cancel ?w)" "armed_on 2 (w_cancel ?w) = {}"
    "g_state (guards (w_cancel ?w) 9) = Idle" "r_state ?rx = Some 4" "4 \<noteq> (3 :: nat)" "\<not> ch_resolved (w_channels ?w 4)"
    by (simp_all add: demo_task_world_def cancelled_def armed_on_def new_scope_def new_guard_def
        ch_resolved_def new_oneshot_def)
  have q: "rt_queue (w_rts ?w 0) = []" by (simp add: demo_task_world_def new_runtime_def)
  from abort_reaches_the_wait [where sd = False, OF s r p c n] obtain w1 aw w2 w3 cw where
    w: "descend 5 [6, 7] ?w = Some w1" "await_receiver 0 9 7 ?rx w1 = Some (aw, True, w2)"
      "abort_task ?j w2 = Some w3" "rt_queue (w_rts w3 0) = [7]"
      "await_resume aw (w_channels w3) (w_cancel w3) = Some (Inl err_cancelled, cw)" "root_chain 0 w3 [5]"
    and e: "\<forall>i < length [6 :: nat, 7]. \<forall>res. \<exists>w4.
      final_suspend ([6, 7] ! i) (upd_promise ([6, 7] ! i) (end_body res) w3) = Some (w4, Some ([5, 6, 7] ! i), []) \<and>
      task_await_resume (Some ([6, 7] ! i)) w4 = Some res"
    unfolding q by (auto simp del: descend.simps length_Cons list.size)
  obtain w4 where "final_suspend 7 (upd_promise 7 (end_body (Gave 1)) w3) = Some (w4, Some 6, [])"
    using e [rule_format, of 1 "Gave 1"] by auto
  with w show ?thesis by blast
qed

end
