(* ===== verification/System.thy ===== *)
theory System
  imports Abort
begin

text \<open>
  The parts of the library together: a runtime with its run queue and its list of live roots, any
  number of coroutines that call each other, spawn each other and wait on channels, the channels,
  the scopes and the guards, used by any number of threads at the same time. A step is what one
  critical section, or one resumption of a coroutine, does; its effect is the composition of the
  operations of the other theories, and its result is \<^term>\<open>None\<close> where one of them is undefined,
  or where a handle that is not suspended is resumed. The bodies of the coroutines are arbitrary:
  what a step may do next is restricted only by the rules of \<open>sys_guard\<close>, which say who owns the tasks,
  the senders and the receivers.
\<close>

section \<open>Where a coroutine is\<close>

text \<open>
  \<open>Testing\<close> to \<open>Waiting\<close> are the points between the calls of the awaiter of a receiver: made but
  not asked \<^verbatim>\<open>await_ready\<close>, not ready, armed, and suspended with its handle in the channel.
  \<open>Woken\<close> is in the run queue again, \<open>Reading\<close> is to call \<^verbatim>\<open>await_resume\<close>. \<open>Calling\<close> is suspended
  on a task, \<open>Returning\<close> has been resumed by its final suspension.
\<close>

datatype ctl =
    Absent | Created | Queued | Running
  | Testing receiver_awaiter | Binding receiver_awaiter | Arming receiver_awaiter
  | Waiting receiver_awaiter | Woken receiver_awaiter | Reading receiver_awaiter
  | Calling handle | Returning handle | Finished

record ('e, 'v) system =
  sy_world :: "('e, 'v, oneshot_cb) world"
  sy_ctl :: "handle \<Rightarrow> ctl"
  sy_channels :: "nat set"
  sy_senders :: "nat set"
  sy_receivers :: "nat set"
  sy_guards :: "nat set"
  sy_scopes :: "nat set"

text \<open>
  The addresses in the sets are those of the objects made so far; \<open>sy_senders\<close> are the senders that
  the program holds, the others belong to the promises of roots; \<open>sy_receivers\<close> are the receivers not
  awaited yet.
\<close>

definition new_frame :: "('e, 'v) frame" where
  "new_frame = \<lparr>fr_promise = new_promise, fr_done = False, fr_alive = True\<rparr>"

definition new_system :: "('e, 'v) system" where
  "new_system = \<lparr>
     sy_world = \<lparr>w_frames = (\<lambda>_. new_frame\<lparr>fr_alive := False\<rparr>), w_rts = (\<lambda>_. new_runtime),
       w_channels = (\<lambda>_. new_oneshot),
       w_cancel = \<lparr>guards = (\<lambda>_. new_guard None), scopes = (\<lambda>_. new_scope)\<rparr>\<rparr>,
     sy_ctl = (\<lambda>_. Absent), sy_channels = {}, sy_senders = {}, sy_receivers = {}, sy_guards = {}, sy_scopes = {}\<rparr>"

section \<open>Steps\<close>

datatype ('e, 'v) sys_op =
    Op_take | Op_create handle | Op_drop_task handle | Op_spawn handle nat nat
  | Op_make nat | Op_send nat "('e, 'v) root_outcome" | Op_drop_sender nat | Op_drop_receiver nat
  | Op_call handle handle | Op_return handle | Op_end handle "('e, 'v) ran"
  | Op_await handle nat nat | Op_test handle | Op_arm_awaiter handle | Op_enrol handle | Op_read handle
  | Op_cancel_scope nat

text \<open>
  The rules of ownership: a queue is popped when it is not empty, new objects have new addresses,
  a task is called, spawned or dropped by its one owner before it has started, a receiver is
  awaited once, and a coroutine goes on from where it is. Whoever holds a sender or a scope may send,
  drop or cancel at any time. The types of the library do not enforce all of this: a receiver that is
  null, moved from or awaited already and a task that is empty can be awaited too, and that is undefined
  (\<open>null_receiver_is_dereferenced\<close> in \<open>Oneshot\<close>, \<open>empty_task_is_dereferenced\<close> in \<open>Task\<close>); such steps are
  outside the system.
\<close>

fun sys_guard :: "nat \<Rightarrow> ('e, 'v) sys_op \<Rightarrow> ('e, 'v) system \<Rightarrow> bool" where
  "sys_guard r Op_take s \<longleftrightarrow> rt_queue (w_rts (sy_world s) r) \<noteq> []"
| "sys_guard r (Op_create h) s \<longleftrightarrow> sy_ctl s h = Absent"
| "sys_guard r (Op_drop_task h) s \<longleftrightarrow> sy_ctl s h = Created"
| "sys_guard r (Op_spawn h sc a) s \<longleftrightarrow> sy_ctl s h = Created \<and> sc \<notin> sy_scopes s \<and> a \<notin> sy_channels s \<and>
     Suc (rt_live (w_rts (sy_world s) r)) < 2 ^ 64"
| "sys_guard r (Op_make a) s \<longleftrightarrow> a \<notin> sy_channels s"
| "sys_guard r (Op_send a v) s \<longleftrightarrow> a \<in> sy_senders s"
| "sys_guard r (Op_drop_sender a) s \<longleftrightarrow> a \<in> sy_senders s"
| "sys_guard r (Op_drop_receiver a) s \<longleftrightarrow> a \<in> sy_receivers s"
| "sys_guard r (Op_call h c) s \<longleftrightarrow> sy_ctl s h = Running \<and> sy_ctl s c = Created"
| "sys_guard r (Op_return h) s \<longleftrightarrow> (case sy_ctl s h of Returning c \<Rightarrow> True | _ \<Rightarrow> False)"
| "sys_guard r (Op_end h res) s \<longleftrightarrow> sy_ctl s h = Running"
| "sys_guard r (Op_await h a g) s \<longleftrightarrow> sy_ctl s h = Running \<and> a \<in> sy_receivers s \<and> g \<notin> sy_guards s"
| "sys_guard r (Op_test h) s \<longleftrightarrow> (case sy_ctl s h of Testing aw \<Rightarrow> True | _ \<Rightarrow> False)"
| "sys_guard r (Op_arm_awaiter h) s \<longleftrightarrow> (case sy_ctl s h of Binding aw \<Rightarrow> True | _ \<Rightarrow> False)"
| "sys_guard r (Op_enrol h) s \<longleftrightarrow> (case sy_ctl s h of Arming aw \<Rightarrow> True | _ \<Rightarrow> False)"
| "sys_guard r (Op_read h) s \<longleftrightarrow> (case sy_ctl s h of Reading aw \<Rightarrow> True | _ \<Rightarrow> False)"
| "sys_guard r (Op_cancel_scope sc) s \<longleftrightarrow> sc \<in> sy_scopes s"

text \<open>A coroutine that is scheduled while it waits is in the run queue.\<close>

definition wakes_ctl :: "ctl \<Rightarrow> ctl" where
  "wakes_ctl k = (case k of Waiting aw \<Rightarrow> Woken aw | _ \<Rightarrow> k)"

primrec woken :: "wake list \<Rightarrow> (handle \<Rightarrow> ctl) \<Rightarrow> handle \<Rightarrow> ctl" where
  "woken [] c = c"
| "woken (k # ks) c = woken ks (c(snd k := wakes_ctl (c (snd k))))"

text \<open>The calls of \<^verbatim>\<open>runtime_schedule\<close> an operation has made, after the operation.\<close>

definition sys_schedule ::
  "wake list \<Rightarrow> ('e, 'v, oneshot_cb) world \<Rightarrow> (handle \<Rightarrow> ctl) \<Rightarrow> ('e, 'v) system \<Rightarrow> ('e, 'v) system option" where
  "sys_schedule ks w c s = map_option (\<lambda>w'. s\<lparr>sy_world := w', sy_ctl := woken ks c\<rparr>) (schedule_wakes ks w)"

text \<open>A worker resumes the first handle of the queue; the frame must exist and be suspended.\<close>

definition sys_take :: "nat \<Rightarrow> ('e, 'v) system \<Rightarrow> ('e, 'v) system option" where
  "sys_take r s =
     (case get_next_task_from_queue (w_rts (sy_world s) r) of
        (Got h, t) \<Rightarrow>
          if \<not> fr_alive (w_frames (sy_world s) h) \<or> fr_done (w_frames (sy_world s) h) then None
          else
            let s' = s\<lparr>sy_world := upd_rt r (\<lambda>_. t) (sy_world s)\<rparr>
            in (case sy_ctl s h of
                  Queued \<Rightarrow> Some (s'\<lparr>sy_ctl := (sy_ctl s)(h := Running)\<rparr>)
                | Woken aw \<Rightarrow> Some (s'\<lparr>sy_ctl := (sy_ctl s)(h := Reading aw)\<rparr>)
                | _ \<Rightarrow> None)
      | _ \<Rightarrow> Some s)"

definition sys_spawn :: "nat \<Rightarrow> handle \<Rightarrow> nat \<Rightarrow> nat \<Rightarrow> ('e, 'v) system \<Rightarrow> ('e, 'v) system option" where
  "sys_spawn r h sc a s =
     (case spawn r (Some h) sc a (sy_world s) of
        None \<Rightarrow> None
      | Some (j, w, ks) \<Rightarrow>
          sys_schedule ks w ((sy_ctl s)(h := Queued))
            (s\<lparr>sy_channels := insert a (sy_channels s), sy_receivers := insert a (sy_receivers s),
               sy_scopes := insert sc (sy_scopes s)\<rparr>))"

text \<open>
  The call of a task, up to the transfer of control to it; and what the caller does when the
  final suspension of the task has transferred control back.
\<close>

definition sys_call :: "handle \<Rightarrow> handle \<Rightarrow> ('e, 'v) system \<Rightarrow> ('e, 'v) system option" where
  "sys_call h c s =
     (case await_transform_task h (Some c) (sy_world s) of
        None \<Rightarrow> None
      | Some (t, w1) \<Rightarrow>
          if task_await_ready t w1 then Some (s\<lparr>sy_world := w1, sy_ctl := (sy_ctl s)(h := Returning c)\<rparr>)
          else (case task_await_suspend t h w1 of
                  None \<Rightarrow> None
                | Some (c', w2) \<Rightarrow>
                    if sy_ctl s c' \<noteq> Created then None
                    else Some (s\<lparr>sy_world := w2, sy_ctl := (sy_ctl s)(h := Calling c, c' := Running)\<rparr>)))"

definition sys_return :: "handle \<Rightarrow> ('e, 'v) system \<Rightarrow> ('e, 'v) system option" where
  "sys_return h s =
     (case sy_ctl s h of
        Returning c \<Rightarrow>
          (case task_await_resume (Some c) (sy_world s) of
             None \<Rightarrow> None
           | Some res \<Rightarrow>
               (case task_awaiter_destroy (Some c) (sy_world s) of
                  None \<Rightarrow> None
                | Some (w, ks) \<Rightarrow> sys_schedule ks w ((sy_ctl s)(h := Running, c := Absent)) s))
      | _ \<Rightarrow> None)"

text \<open>The end of a body and the final suspension; the coroutine it resumes must be suspended on this one.\<close>

definition sys_end :: "handle \<Rightarrow> ('e, 'v) ran \<Rightarrow> ('e, 'v) system \<Rightarrow> ('e, 'v) system option" where
  "sys_end h res s =
     (case final_suspend h (upd_promise h (end_body res) (sy_world s)) of
        None \<Rightarrow> None
      | Some (w, next, ks) \<Rightarrow>
          let c = (sy_ctl s)(h := if fr_alive (w_frames w h) then Finished else Absent)
          in (case next of
                None \<Rightarrow> sys_schedule ks w c s
              | Some p \<Rightarrow>
                  if \<not> fr_alive (w_frames w p) \<or> c p \<noteq> Calling h then None
                  else sys_schedule ks w (c(p := Returning h)) s))"

definition sys_await :: "nat \<Rightarrow> handle \<Rightarrow> nat \<Rightarrow> nat \<Rightarrow> ('e, 'v) system \<Rightarrow> ('e, 'v) system option" where
  "sys_await r h a g s =
     (let w = sy_world s;
          rx = await_transform_leaf receiver_set_cancel_scope h \<lparr>r_state = Some a, r_scope = None\<rparr> w
      in map_option (\<lambda>(aw, _, m, cw).
           s\<lparr>sy_world := w\<lparr>w_channels := m, w_cancel := cw\<rparr>, sy_ctl := (sy_ctl s)(h := Testing aw),
             sy_receivers := sy_receivers s - {a}, sy_guards := insert g (sy_guards s)\<rparr>)
         (receiver_co_await (Some r) g rx (w_channels w) (w_cancel w)))"

definition sys_test :: "handle \<Rightarrow> ('e, 'v) system \<Rightarrow> ('e, 'v) system option" where
  "sys_test h s =
     (case sy_ctl s h of
        Testing aw \<Rightarrow>
          map_option (\<lambda>b. s\<lparr>sy_ctl := (sy_ctl s)(h := if b then Reading aw else Binding aw)\<rparr>)
            (await_ready aw (w_channels (sy_world s)) (w_cancel (sy_world s)))
      | _ \<Rightarrow> None)"

definition sys_arm :: "handle \<Rightarrow> ('e, 'v) system \<Rightarrow> ('e, 'v) system option" where
  "sys_arm h s =
     (case sy_ctl s h of
        Binding aw \<Rightarrow>
          map_option (\<lambda>(x, cw). s\<lparr>sy_world := (sy_world s)\<lparr>w_cancel := cw\<rparr>,
              sy_ctl := (sy_ctl s)(h := case x of Arm_armed \<Rightarrow> Arming aw | Arm_already_cancelled \<Rightarrow> Reading aw)\<rparr>)
            (suspend_arm aw h (w_cancel (sy_world s)))
      | _ \<Rightarrow> None)"

definition sys_enrol :: "handle \<Rightarrow> ('e, 'v) system \<Rightarrow> ('e, 'v) system option" where
  "sys_enrol h s =
     (case sy_ctl s h of
        Arming aw \<Rightarrow>
          (case a_state aw of
             None \<Rightarrow> None
           | Some a \<Rightarrow>
               (case suspend_enrol h (w_channels (sy_world s) a) of
                  (b, ch) \<Rightarrow>
                    Some (s\<lparr>sy_world := (sy_world s)\<lparr>w_channels := (w_channels (sy_world s))(a := ch)\<rparr>,
                      sy_ctl := (sy_ctl s)(h := if b then Waiting aw else Reading aw)\<rparr>)))
      | _ \<Rightarrow> None)"

definition sys_read :: "handle \<Rightarrow> ('e, 'v) system \<Rightarrow> ('e, 'v) system option" where
  "sys_read h s =
     (case sy_ctl s h of
        Reading aw \<Rightarrow>
          (case await_resume aw (w_channels (sy_world s)) (w_cancel (sy_world s)) of
             None \<Rightarrow> None
           | Some (res, cw) \<Rightarrow>
               (case awaiter_destroy aw (w_channels (sy_world s)) cw of
                  (m, cw') \<Rightarrow>
                    Some (s\<lparr>sy_world := (sy_world s)\<lparr>w_channels := m, w_cancel := cw'\<rparr>,
                      sy_ctl := (sy_ctl s)(h := Running)\<rparr>)))
      | _ \<Rightarrow> None)"

definition sys_cancel :: "nat \<Rightarrow> ('e, 'v) system \<Rightarrow> ('e, 'v) system option" where
  "sys_cancel sc s =
     (case cancel run_oneshot_cb sc (w_cancel (sy_world s)) (w_channels (sy_world s), []) of
        None \<Rightarrow> None
      | Some (cw, m, ks) \<Rightarrow>
          sys_schedule ks ((sy_world s)\<lparr>w_cancel := cw, w_channels := m\<rparr>) (sy_ctl s) s)"

fun sys_exec :: "nat \<Rightarrow> ('e, 'v) sys_op \<Rightarrow> ('e, 'v) system \<Rightarrow> ('e, 'v) system option" where
  "sys_exec r Op_take s = sys_take r s"
| "sys_exec r (Op_create h) s =
     Some (s\<lparr>sy_world := upd_frame h (\<lambda>_. new_frame) (sy_world s), sy_ctl := (sy_ctl s)(h := Created)\<rparr>)"
| "sys_exec r (Op_drop_task h) s =
     (case task_destroy (Some h) (sy_world s) of
        None \<Rightarrow> None | Some (w, ks) \<Rightarrow> sys_schedule ks w ((sy_ctl s)(h := Absent)) s)"
| "sys_exec r (Op_spawn h sc a) s = sys_spawn r h sc a s"
| "sys_exec r (Op_make a) s =
     (case make_oneshot a (w_channels (sy_world s)) of
        (tx, rx, m) \<Rightarrow> Some (s\<lparr>sy_world := (sy_world s)\<lparr>w_channels := m\<rparr>,
          sy_channels := insert a (sy_channels s), sy_senders := insert a (sy_senders s),
          sy_receivers := insert a (sy_receivers s)\<rparr>))"
| "sys_exec r (Op_send a v) s =
     (case send (Some a) v (w_channels (sy_world s)) of
        (res, m, ks) \<Rightarrow> sys_schedule ks ((sy_world s)\<lparr>w_channels := m\<rparr>) (sy_ctl s) s)"
| "sys_exec r (Op_drop_sender a) s =
     (case sender_destroy (Some a) (w_channels (sy_world s)) of
        (m, ks) \<Rightarrow> sys_schedule ks ((sy_world s)\<lparr>w_channels := m\<rparr>) (sy_ctl s)
          (s\<lparr>sy_senders := sy_senders s - {a}\<rparr>))"
| "sys_exec r (Op_drop_receiver a) s =
     Some (s\<lparr>sy_world := (sy_world s)\<lparr>w_channels := receiver_destroy (Some a) (w_channels (sy_world s))\<rparr>,
       sy_receivers := sy_receivers s - {a}\<rparr>)"
| "sys_exec r (Op_call h c) s = sys_call h c s"
| "sys_exec r (Op_return h) s = sys_return h s"
| "sys_exec r (Op_end h res) s = sys_end h res s"
| "sys_exec r (Op_await h a g) s = sys_await r h a g s"
| "sys_exec r (Op_test h) s = sys_test h s"
| "sys_exec r (Op_arm_awaiter h) s = sys_arm h s"
| "sys_exec r (Op_enrol h) s = sys_enrol h s"
| "sys_exec r (Op_read h) s = sys_read h s"
| "sys_exec r (Op_cancel_scope sc) s = sys_cancel sc s"

text \<open>What a program can reach.\<close>

inductive sys_reach :: "nat \<Rightarrow> ('e, 'v) system \<Rightarrow> bool" for r where
  reach_start: "sys_reach r new_system"
| reach_step: "sys_reach r s \<Longrightarrow> sys_guard r op s \<Longrightarrow> sys_exec r op s = Some s' \<Longrightarrow> sys_reach r s'"

end
