(* ===== verification/System_Inv.thy ===== *)
theory System_Inv
  imports System
begin

text \<open>
  The invariant of the whole: one predicate for the frames, one for who waits for whom, one each
  for the run queue, the live roots, the waiting coroutines and the guards, each over what it
  depends on only. That every step keeps them is shown in \<open>System_Safe\<close>.
\<close>

section \<open>Frames\<close>

text \<open>A frame without the links of the list of roots, which other roots' registrations change.\<close>

definition core :: "('e, 'v, 'cb) world \<Rightarrow> handle \<Rightarrow> ('e, 'v) frame" where
  "core w h = (w_frames w h)\<lparr>fr_promise := (promise_of w h)\<lparr>pr_next := None, pr_prev := None\<rparr>\<rparr>"

text \<open>Where a coroutine is, as far as its frame is concerned.\<close>

definition shape :: "ctl \<Rightarrow> ctl" where
  "shape k = (case k of Absent \<Rightarrow> Absent | Created \<Rightarrow> Created | Finished \<Rightarrow> Finished
     | Calling c \<Rightarrow> Calling c | Returning c \<Rightarrow> Returning c | _ \<Rightarrow> Running)"

definition in_body :: "ctl \<Rightarrow> bool" where
  "in_body k \<longleftrightarrow> k \<noteq> Absent \<and> k \<noteq> Created \<and> k \<noteq> Finished"

definition frame_fits :: "nat \<Rightarrow> nat set \<Rightarrow> nat set \<Rightarrow> ctl \<Rightarrow> ('e, 'v) frame \<Rightarrow> bool" where
  "frame_fits r A S k f \<longleftrightarrow> (fr_alive f \<longleftrightarrow> k \<noteq> Absent) \<and>
     (k \<noteq> Absent \<longrightarrow>
       (fr_done f \<longleftrightarrow> k = Finished) \<and>
       (k = Finished \<longleftrightarrow> pr_exception (fr_promise f) \<noteq> None \<or> pr_result (fr_promise f) \<noteq> None) \<and>
       (\<forall>sc. pr_owning_scope (fr_promise f) = Some sc \<longrightarrow> sc \<in> S) \<and>
       (if pr_detached (fr_promise f)
        then in_body k \<and> pr_owner_rt (fr_promise f) = Some r \<and> (\<exists>a \<in> A. pr_sender (fr_promise f) = Some a) \<and>
          pr_scope_raw (fr_promise f) = pr_owning_scope (fr_promise f) \<and> pr_owning_scope (fr_promise f) \<noteq> None
        else pr_sender (fr_promise f) = None))"

definition frames_ok :: "nat \<Rightarrow> nat set \<Rightarrow> nat set \<Rightarrow> (handle \<Rightarrow> ctl) \<Rightarrow> (handle \<Rightarrow> ('e, 'v) frame) \<Rightarrow> bool" where
  "frames_ok r A S c f \<longleftrightarrow> (\<forall>h. frame_fits r A S (c h) (f h))"

text \<open>A coroutine that is suspended on a task is the continuation of that task, and of no other.\<close>

definition callers_ok :: "(handle \<Rightarrow> ctl) \<Rightarrow> (handle \<Rightarrow> ('e, 'v) frame) \<Rightarrow> bool" where
  "callers_ok c f \<longleftrightarrow>
     (\<forall>p h. c p = Calling h \<longleftrightarrow>
        in_body (c h) \<and> \<not> pr_detached (fr_promise (f h)) \<and> pr_continuation (fr_promise (f h)) = Some p) \<and>
     (\<forall>p h. c p = Returning h \<longleftrightarrow> c h = Finished \<and> pr_continuation (fr_promise (f h)) = Some p) \<and>
     (\<forall>h. (in_body (c h) \<or> c h = Finished) \<and> \<not> pr_detached (fr_promise (f h)) \<longrightarrow>
        pr_continuation (fr_promise (f h)) \<noteq> None)"

section \<open>The runtime\<close>

definition in_queue :: "ctl \<Rightarrow> bool" where
  "in_queue k \<longleftrightarrow> (case k of Queued \<Rightarrow> True | Woken aw \<Rightarrow> True | _ \<Rightarrow> False)"

definition queue_ok :: "handle list \<Rightarrow> (handle \<Rightarrow> ctl) \<Rightarrow> bool" where
  "queue_ok q c \<longleftrightarrow> distinct q \<and> set q = {h. in_queue (c h)}"

definition live_roots :: "(handle \<Rightarrow> ('e, 'v) frame) \<Rightarrow> handle set" where
  "live_roots f = {h. fr_alive (f h) \<and> pr_detached (fr_promise (f h))}"

definition roots_ok_in :: "nat \<Rightarrow> ('e, 'v, 'cb) world \<Rightarrow> bool" where
  "roots_ok_in r w \<longleftrightarrow> (\<exists>xs. root_chain r w xs \<and> set xs = live_roots (core w) \<and> length xs < 2 ^ 64)"

section \<open>Channels\<close>

definition awaiter_of :: "ctl \<Rightarrow> receiver_awaiter option" where
  "awaiter_of k = (case k of Testing aw \<Rightarrow> Some aw | Binding aw \<Rightarrow> Some aw | Arming aw \<Rightarrow> Some aw
     | Waiting aw \<Rightarrow> Some aw | Woken aw \<Rightarrow> Some aw | Reading aw \<Rightarrow> Some aw | _ \<Rightarrow> None)"

definition chan_ok :: "'v oneshot \<Rightarrow> bool" where
  "chan_ok s \<longleftrightarrow> (o_waiter s \<noteq> None \<longrightarrow> \<not> ch_resolved s) \<and> (o_ready s \<longleftrightarrow> o_value s \<noteq> None)"

text \<open>
  A channel holds the handle of the coroutine that waits on it, and every such coroutine is held by
  its channel; an awaiter has its channel and its guard to itself.
\<close>

definition waits_ok :: "nat \<Rightarrow> nat set \<Rightarrow> nat set \<Rightarrow> nat set \<Rightarrow> 'v channels \<Rightarrow> (handle \<Rightarrow> ctl) \<Rightarrow> bool" where
  "waits_ok r A R G m c \<longleftrightarrow> R \<subseteq> A \<and> (\<forall>a. chan_ok (m a)) \<and>
     (\<forall>a h. o_waiter (m a) = Some h \<longleftrightarrow> (\<exists>aw. c h = Waiting aw \<and> a_state aw = Some a)) \<and>
     (\<forall>h aw. awaiter_of (c h) = Some aw \<longrightarrow> a_guard aw \<in> G \<and>
        (\<exists>a. a_state aw = Some a \<and> a \<in> A \<and> a \<notin> R \<and> o_rt (m a) = Some r)) \<and>
     (\<forall>h h' aw aw'. awaiter_of (c h) = Some aw \<and> awaiter_of (c h') = Some aw' \<and>
        (a_state aw = a_state aw' \<or> a_guard aw = a_guard aw') \<longrightarrow> h = h')"

section \<open>Guards\<close>

text \<open>What the state of the guard of an awaiter tells about the channel \<open>s\<close> it is for.\<close>

definition guard_fits :: "'cb cancel_guard \<Rightarrow> ctl \<Rightarrow> receiver_awaiter \<Rightarrow> 'v oneshot \<Rightarrow> bool" where
  "guard_fits g k aw s \<longleftrightarrow> g_scope g = a_scope aw \<and>
     (k = Testing aw \<or> k = Binding aw \<longrightarrow> g_state g = Idle) \<and>
     (k = Arming aw \<or> k = Waiting aw \<longrightarrow> g_state g = Armed \<or> g_state g = Fired \<and> ch_resolved s)"

definition guards_ok ::
  "nat set \<Rightarrow> nat set \<Rightarrow> 'v channels \<Rightarrow> oneshot_cb cancel_world \<Rightarrow> (handle \<Rightarrow> ctl) \<Rightarrow> bool" where
  "guards_ok G S m cw c \<longleftrightarrow> cancel_inv cw \<and>
     (\<forall>g. g \<notin> G \<longrightarrow> g_state (guards cw g) = Idle) \<and>
     (\<forall>g sc. g_scope (guards cw g) = Some sc \<longrightarrow> sc \<in> S) \<and>
     (\<forall>h aw a. awaiter_of (c h) = Some aw \<and> a_state aw = Some a \<longrightarrow>
        guard_fits (guards cw (a_guard aw)) (c h) aw (m a)) \<and>
     (\<forall>sc. \<forall>g \<in> armed_on sc cw. \<exists>h aw a. awaiter_of (c h) = Some aw \<and> a_guard aw = g \<and>
        a_state aw = Some a \<and> g_cb (guards cw g) = Some (Cancel_waiter a h))"

lemma guards_okD:
  assumes "guards_ok G S m cw c"
  shows "cancel_inv cw"
    and "g \<notin> G \<Longrightarrow> g_state (guards cw g) = Idle"
    and "g_scope (guards cw g) = Some sc \<Longrightarrow> sc \<in> S"
    and "awaiter_of (c h) = Some aw \<Longrightarrow> a_state aw = Some a \<Longrightarrow> guard_fits (guards cw (a_guard aw)) (c h) aw (m a)"
    and "g \<in> armed_on sc cw \<Longrightarrow> \<exists>h aw a. awaiter_of (c h) = Some aw \<and> a_guard aw = g \<and> a_state aw = Some a \<and>
      g_cb (guards cw g) = Some (Cancel_waiter a h)"
  using assms unfolding guards_ok_def by blast+

lemma guards_okI:
  assumes "cancel_inv cw"
    and "\<And>g. g \<notin> G \<Longrightarrow> g_state (guards cw g) = Idle"
    and "\<And>g sc. g_scope (guards cw g) = Some sc \<Longrightarrow> sc \<in> S"
    and "\<And>h aw a. awaiter_of (c h) = Some aw \<Longrightarrow> a_state aw = Some a \<Longrightarrow>
      guard_fits (guards cw (a_guard aw)) (c h) aw (m a)"
    and "\<And>g sc. g \<in> armed_on sc cw \<Longrightarrow> \<exists>h aw a. awaiter_of (c h) = Some aw \<and> a_guard aw = g \<and>
      a_state aw = Some a \<and> g_cb (guards cw g) = Some (Cancel_waiter a h)"
  shows "guards_ok G S m cw c"
  unfolding guards_ok_def using assms by simp

lemma waits_okD:
  assumes "waits_ok r A R G m c"
  shows "R \<subseteq> A" and "chan_ok (m a)"
    and "o_waiter (m a) = Some h \<longleftrightarrow> (\<exists>aw. c h = Waiting aw \<and> a_state aw = Some a)"
    and "awaiter_of (c h) = Some aw \<Longrightarrow> a_guard aw \<in> G \<and>
      (\<exists>a. a_state aw = Some a \<and> a \<in> A \<and> a \<notin> R \<and> o_rt (m a) = Some r)"
    and "awaiter_of (c h) = Some aw \<Longrightarrow> awaiter_of (c h') = Some aw' \<Longrightarrow>
      a_state aw = a_state aw' \<or> a_guard aw = a_guard aw' \<Longrightarrow> h = h'"
  using assms unfolding waits_ok_def by blast+

lemma waits_okI:
  assumes "R \<subseteq> A" and "\<And>a. chan_ok (m a)"
    and "\<And>a h. o_waiter (m a) = Some h \<longleftrightarrow> (\<exists>aw. c h = Waiting aw \<and> a_state aw = Some a)"
    and "\<And>h aw. awaiter_of (c h) = Some aw \<Longrightarrow> a_guard aw \<in> G \<and>
      (\<exists>a. a_state aw = Some a \<and> a \<in> A \<and> a \<notin> R \<and> o_rt (m a) = Some r)"
    and "\<And>h h' aw aw'. awaiter_of (c h) = Some aw \<Longrightarrow> awaiter_of (c h') = Some aw' \<Longrightarrow>
      a_state aw = a_state aw' \<or> a_guard aw = a_guard aw' \<Longrightarrow> h = h'"
  shows "waits_ok r A R G m c"
  unfolding waits_ok_def using assms by simp

text \<open>The channel of an awaiter.\<close>

lemma awaiter_channel:
  assumes "waits_ok r A R G m c" and "awaiter_of (c h) = Some aw"
  obtains a where "a_state aw = Some a" "a \<in> A" "a \<notin> R" "o_rt (m a) = Some r" "a_guard aw \<in> G"
  using waits_okD(4) [OF assms] by blast

section \<open>Together\<close>

definition sys_inv :: "nat \<Rightarrow> ('e, 'v) system \<Rightarrow> bool" where
  "sys_inv r s \<longleftrightarrow>
     frames_ok r (sy_channels s) (sy_scopes s) (\<lambda>h. shape (sy_ctl s h)) (core (sy_world s)) \<and>
     callers_ok (\<lambda>h. shape (sy_ctl s h)) (core (sy_world s)) \<and>
     queue_ok (rt_queue (w_rts (sy_world s) r)) (sy_ctl s) \<and>
     roots_ok_in r (sy_world s) \<and>
     waits_ok r (sy_channels s) (sy_receivers s) (sy_guards s) (w_channels (sy_world s)) (sy_ctl s) \<and>
     guards_ok (sy_guards s) (sy_scopes s) (w_channels (sy_world s)) (w_cancel (sy_world s)) (sy_ctl s)"

lemma new_system_inv: "sys_inv r new_system"
proof -
  have "fresh_world (w_cancel (sy_world (new_system :: ('a, 'b) system)))"
    by (simp add: new_system_def fresh_world_def new_guard_def new_scope_def)
  then have "cancel_inv (w_cancel (sy_world (new_system :: ('a, 'b) system)))"
    by (rule fresh_world_inv)
  moreover have "root_chain r (sy_world (new_system :: ('a, 'b) system)) []"
    by (simp add: new_system_def root_chain_def root_links_def dll_def new_runtime_def)
  ultimately show ?thesis
    by (auto simp: sys_inv_def new_system_def frames_ok_def frame_fits_def shape_def callers_ok_def in_body_def
        queue_ok_def in_queue_def new_runtime_def roots_ok_in_def live_roots_def core_def waits_ok_def chan_ok_def
        new_oneshot_def awaiter_of_def guards_ok_def new_guard_def armed_on_def)
qed

section \<open>Scheduling\<close>

definition enqueue :: "nat \<Rightarrow> handle list \<Rightarrow> ('e, 'v, 'cb) world \<Rightarrow> ('e, 'v, 'cb) world" where
  "enqueue r hs w = upd_rt r (\<lambda>t. t\<lparr>rt_queue := rt_queue t @ hs\<rparr>) w"

lemma enqueue_simps [simp]:
  "w_frames (enqueue r hs w) = w_frames w" "w_channels (enqueue r hs w) = w_channels w"
  "w_cancel (enqueue r hs w) = w_cancel w" "rt_queue (w_rts (enqueue r hs w) r) = rt_queue (w_rts w r) @ hs"
  "core (enqueue r hs w) = core w" "root_chain r (enqueue r hs w) xs = root_chain r w xs"
  by (simp_all add: enqueue_def core_def fun_eq_iff root_chain_def root_links_def)

lemma schedule_wakes_enqueue:
  "\<forall>k \<in> set ks. fst k = Some r \<Longrightarrow> schedule_wakes ks w = Some (enqueue r (map snd ks) w)"
proof (induction ks arbitrary: w)
  case Nil
  show ?case by (cases w) (simp add: enqueue_def upd_rt_def)
next
  case (Cons k ks)
  have "runtime_schedule k w = Some (enqueue r [snd k] w)"
    using Cons.prems by (simp add: runtime_schedule_def enqueue_def schedule_def put_task_in_queue_def)
  moreover have "schedule_wakes ks (enqueue r [snd k] w) = Some (enqueue r (map snd ks) (enqueue r [snd k] w))"
    using Cons.prems by (intro Cons.IH) simp
  ultimately show ?case by (simp add: enqueue_def upd_rt_def)
qed

lemma wakes_ctl_simps [simp]:
  "shape (wakes_ctl k) = shape k" "awaiter_of (wakes_ctl k) = awaiter_of k"
  "wakes_ctl (Waiting aw) = Woken aw" "wakes_ctl k \<noteq> Waiting aw"
  "wakes_ctl k = Testing aw \<longleftrightarrow> k = Testing aw" "wakes_ctl k = Binding aw \<longleftrightarrow> k = Binding aw"
  "wakes_ctl k = Arming aw \<longleftrightarrow> k = Arming aw"
  by (auto simp: wakes_ctl_def shape_def awaiter_of_def split: ctl.splits)

lemma woken_frames [simp]:
  "shape (woken ks c h) = shape (c h)" "awaiter_of (woken ks c h) = awaiter_of (c h)"
  by (induction ks arbitrary: c) auto

lemma woken_append [simp]: "woken (ks @ ks') c = woken ks' (woken ks c)"
  by (induction ks arbitrary: c) auto

end
