(* ===== verification/System_Parts.thy ===== *)
theory System_Parts
  imports System_Inv
begin

text \<open>
  What the parts of the invariant of \<open>System_Inv\<close> make of the elementary changes of a step: an event
  of a channel, a coroutine that moves on, a call and a return, a root that comes or goes.
\<close>

section \<open>Events of one channel\<close>

text \<open>
  What an operation on a channel may do to it: leave its waiter alone, or resolve it and schedule
  the waiter, if there is one. Sending, dropping either end and the callback of a guard do no more.
\<close>

definition settles :: "'v oneshot \<Rightarrow> 'v oneshot \<Rightarrow> wake list \<Rightarrow> bool" where
  "settles s s' ks \<longleftrightarrow> chan_ok s' \<and> o_rt s' = o_rt s \<and> (ch_resolved s \<longrightarrow> ch_resolved s') \<and>
     (o_waiter s' = o_waiter s \<and> ks = [] \<or> o_waiter s' = None \<and> ks = wake_if (o_rt s) (o_waiter s))"

lemma set_value_settles: "chan_ok s \<Longrightarrow> set_value v s = (res, s', ks) \<Longrightarrow> settles s s' ks"
  by (auto simp: settles_def set_value_def chan_ok_def ch_resolved_def Let_def split: if_splits)

lemma sender_dropped_settles: "chan_ok s \<Longrightarrow> mark_sender_dropped s = (s', ks) \<Longrightarrow> settles s s' ks"
  by (auto simp: settles_def mark_sender_dropped_def chan_ok_def ch_resolved_def Let_def split: if_splits)

lemma receiver_dropped_settles: "chan_ok s \<Longrightarrow> settles s (mark_receiver_dropped s) []"
  by (auto simp: settles_def mark_receiver_dropped_def chan_ok_def ch_resolved_def)

lemma callback_settles:
  assumes "chan_ok s" and "cancel_and_take_waiter s = (taken, s')" and "o_waiter s \<in> {None, Some h}"
  shows "settles s s' (if taken then [(o_rt s', h)] else [])" and "ch_resolved s'"
  using assms
  by (auto simp: settles_def cancel_and_take_waiter_def chan_ok_def ch_resolved_def wake_if_def split: if_splits)

lemma settles_wake:
  "settles s s' ks \<Longrightarrow> k \<in> set ks \<Longrightarrow> k = (o_rt s, the (o_waiter s)) \<and> o_waiter s \<noteq> None"
  by (auto simp: settles_def wake_if_def split: option.splits)

text \<open>What the event does to the coroutine that waited.\<close>

lemma settles_cases:
  assumes "settles (m a) s' ks" and "waits_ok r A R G m c"
  obtains (quiet) "ks = []" "o_waiter s' = o_waiter (m a)" "woken ks c = c"
  | (wakes) h aw where "ks = [(Some r, h)]" "o_waiter (m a) = Some h" "o_waiter s' = None"
      "c h = Waiting aw" "a_state aw = Some a" "woken ks c = c(h := Woken aw)"
proof (cases "o_waiter s' = o_waiter (m a) \<and> ks = []")
  case True
  then show thesis by (intro quiet) simp_all
next
  case False
  then have s': "o_waiter s' = None" "ks = wake_if (o_rt (m a)) (o_waiter (m a))"
    using assms(1) by (auto simp: settles_def)
  show thesis
  proof (cases "o_waiter (m a)")
    case None
    with s' show thesis by (intro quiet) (simp_all add: wake_if_def)
  next
    case (Some h)
    then obtain aw where aw: "c h = Waiting aw" "a_state aw = Some a"
      using assms(2) unfolding waits_ok_def by blast
    moreover have "o_rt (m a) = Some r"
    proof -
      have "awaiter_of (c h) = Some aw" using aw(1) by (simp add: awaiter_of_def)
      then show ?thesis using assms(2) aw(2) unfolding waits_ok_def by (metis option.inject)
    qed
    ultimately show thesis
      using Some s' by (intro wakes [of h aw]) (simp_all add: wake_if_def)
  qed
qed

lemma settles_waits:
  assumes "settles (m a) s' ks" and "waits_ok r A R G m c"
  shows "waits_ok r A R G (m(a := s')) (woken ks c)"
proof -
  have ok: "chan_ok s'" "o_rt s' = o_rt (m a)" using assms(1) by (simp_all add: settles_def)
  have w: "o_waiter ((m(a := s')) b) = Some h \<longleftrightarrow> (\<exists>aw. woken ks c h = Waiting aw \<and> a_state aw = Some b)" for b h
    using assms
  proof (cases rule: settles_cases)
    case quiet
    then show ?thesis using assms(2) by (auto simp: waits_ok_def)
  next
    case (wakes h' aw')
    show ?thesis
    proof (cases "h = h'")
      case True
      then have "o_waiter (m b) \<noteq> Some h" if "b \<noteq> a"
        using that assms(2) wakes(4,5) by (auto simp: waits_ok_def)
      with True wakes show ?thesis by auto
    next
      case False
      then have "o_waiter (m a) \<noteq> Some h" using wakes(2) by simp
      then have "\<not> (\<exists>aw. c h = Waiting aw \<and> a_state aw = Some a)"
        using assms(2) unfolding waits_ok_def by blast
      with False wakes assms(2) show ?thesis by (auto simp: waits_ok_def)
    qed
  qed
  have o: "chan_ok ((m(a := s')) b)" "o_rt ((m(a := s')) b) = o_rt (m b)" for b
    using ok assms(2) by (simp_all add: waits_ok_def)
  from assms(2) w o show ?thesis
    unfolding waits_ok_def woken_frames by (simp del: fun_upd_apply)
qed

lemma settles_queue:
  assumes "settles (m a) s' ks" and "waits_ok r A R G m c" and "queue_ok q c"
  shows "queue_ok (q @ map snd ks) (woken ks c)"
  using assms(1,2)
proof (cases rule: settles_cases)
  case (wakes h aw)
  then show ?thesis using assms(3) by (auto simp: queue_ok_def in_queue_def split: ctl.splits)
qed (use assms(3) in simp)

lemma woken_state:
  "woken ks c h = Testing aw \<longleftrightarrow> c h = Testing aw" "woken ks c h = Binding aw \<longleftrightarrow> c h = Binding aw"
  "woken ks c h = Arming aw \<longleftrightarrow> c h = Arming aw" "woken ks c h = Waiting aw \<Longrightarrow> c h = Waiting aw"
proof (induction ks arbitrary: c)
  case (Cons k ks)
  {
    case 4
    then have "woken ks (c(snd k := wakes_ctl (c (snd k)))) h = Waiting aw" by simp
    from Cons.IH(4) [OF this] show ?case by (simp split: if_splits)
  }
qed (auto split: if_splits)

lemma settles_guards:
  assumes "settles (m a) s' ks" and "guards_ok G S m cw c"
  shows "guards_ok G S (m(a := s')) cw (woken ks c)"
proof -
  have mono: "ch_resolved (m b) \<Longrightarrow> ch_resolved ((m(a := s')) b)" for b
    using assms(1) by (auto simp: settles_def)
  have "guard_fits (guards cw (a_guard aw)) (woken ks c h) aw ((m(a := s')) b)"
    if "awaiter_of (c h) = Some aw" "a_state aw = Some b" for h aw b
  proof -
    have "guard_fits (guards cw (a_guard aw)) (c h) aw (m b)"
      using assms(2) that unfolding guards_ok_def by blast
    then show ?thesis
      using mono [of b] woken_state(4) [of ks c h aw] unfolding guard_fits_def woken_state by blast
  qed
  with assms(2) show ?thesis
    unfolding guards_ok_def woken_frames by blast
qed

lemma settles_rts:
  assumes "settles (m a) s' ks" and "waits_ok r A R G m c"
  shows "\<forall>k \<in> set ks. fst k = Some r"
  using assms by (cases rule: settles_cases) simp_all

text \<open>The same for the system: an event of a channel, and the scheduling it asks for.\<close>

lemma core_channels [simp]: "core (w\<lparr>w_channels := m\<rparr>) = core w" "core (w\<lparr>w_cancel := cw\<rparr>) = core w"
  by (simp_all add: core_def fun_eq_iff)

lemma chain_channels [simp]:
  "root_chain r (w\<lparr>w_channels := m\<rparr>) xs = root_chain r w xs" "root_chain r (w\<lparr>w_cancel := cw\<rparr>) xs = root_chain r w xs"
  by (simp_all add: root_chain_def root_links_def)

lemma sys_scheduled:
  assumes "\<forall>k \<in> set ks. fst k = Some r"
  shows "sys_schedule ks w c s = Some (s\<lparr>sy_world := enqueue r (map snd ks) w, sy_ctl := woken ks c\<rparr>)"
  using schedule_wakes_enqueue [OF assms, of w] by (simp add: sys_schedule_def)

lemma senders_aside [simp]:
  "sys_inv r (s\<lparr>sy_senders := X\<rparr>) = sys_inv r s"
  "sys_schedule ks w c (s\<lparr>sy_senders := X\<rparr>) = map_option (\<lambda>t. t\<lparr>sy_senders := X\<rparr>) (sys_schedule ks w c s)"
  by (cases s; simp add: sys_inv_def sys_schedule_def option.map_comp comp_def)+

lemma settles_sys:
  assumes inv: "sys_inv r s" and e: "settles (w_channels (sy_world s) a) s' ks"
  shows "\<exists>t. sys_schedule ks ((sy_world s)\<lparr>w_channels := (w_channels (sy_world s))(a := s')\<rparr>) (sy_ctl s) s = Some t \<and>
    sys_inv r t"
proof -
  note i = inv [unfolded sys_inv_def]
  note w = i [THEN conjunct2, THEN conjunct2, THEN conjunct2, THEN conjunct2, THEN conjunct1]
  have "sys_inv r (s\<lparr>sy_world := enqueue r (map snd ks) ((sy_world s)\<lparr>w_channels := (w_channels (sy_world s))(a := s')\<rparr>),
      sy_ctl := woken ks (sy_ctl s)\<rparr>)"
    using i settles_waits [OF e w] settles_queue [OF e w] settles_guards [where m = "w_channels (sy_world s)", OF e]
    by (simp add: sys_inv_def roots_ok_in_def)
  then show ?thesis using sys_scheduled [OF settles_rts [OF e w]] by blast
qed

section \<open>Parts of the invariant\<close>

lemma sys_invD:
  assumes "sys_inv r s"
  shows "frames_ok r (sy_channels s) (sy_scopes s) (\<lambda>h. shape (sy_ctl s h)) (core (sy_world s))"
    and "callers_ok (\<lambda>h. shape (sy_ctl s h)) (core (sy_world s))"
    and "queue_ok (rt_queue (w_rts (sy_world s) r)) (sy_ctl s)"
    and "roots_ok_in r (sy_world s)"
    and "waits_ok r (sy_channels s) (sy_receivers s) (sy_guards s) (w_channels (sy_world s)) (sy_ctl s)"
    and "guards_ok (sy_guards s) (sy_scopes s) (w_channels (sy_world s)) (w_cancel (sy_world s)) (sy_ctl s)"
  using assms by (simp_all add: sys_inv_def)

lemma frame_of:
  assumes "sys_inv r s"
  shows "frame_fits r (sy_channels s) (sy_scopes s) (shape (sy_ctl s h)) (core (sy_world s) h)"
  using sys_invD(1) [OF assms] by (simp add: frames_ok_def)

lemma core_fields [simp]:
  "fr_alive (core w h) = fr_alive (w_frames w h)" "fr_done (core w h) = fr_done (w_frames w h)"
  "pr_exception (fr_promise (core w h)) = pr_exception (promise_of w h)"
  "pr_result (fr_promise (core w h)) = pr_result (promise_of w h)"
  "pr_owning_scope (fr_promise (core w h)) = pr_owning_scope (promise_of w h)"
  "pr_scope_raw (fr_promise (core w h)) = pr_scope_raw (promise_of w h)"
  "pr_detached (fr_promise (core w h)) = pr_detached (promise_of w h)"
  "pr_owner_rt (fr_promise (core w h)) = pr_owner_rt (promise_of w h)"
  "pr_sender (fr_promise (core w h)) = pr_sender (promise_of w h)"
  "pr_continuation (fr_promise (core w h)) = pr_continuation (promise_of w h)"
  by (simp_all add: core_def)

lemma core_upd_rt [simp]: "core (upd_rt r k w) = core w"
  by (simp add: core_def fun_eq_iff)

lemma core_upd_frame:
  "core (upd_frame h k w) = (core w)(h := core (upd_frame h k w) h)"
  by (simp add: core_def fun_eq_iff)

lemma core_other: "y \<noteq> h \<Longrightarrow> core ((upd_frame h k w)\<lparr>w_channels := m\<rparr>) y = core w y"
  by (simp add: core_def)

lemma core_register [simp]: "core (register_root r n w) = core w"
  by (auto simp: core_def fun_eq_iff register_root_def Let_def split: option.splits)

lemma core_unregister [simp]: "core (unregister_root r n w) = core w"
  by (auto simp: core_def fun_eq_iff unregister_root_def Let_def split: option.splits)

lemma shape_upd: "(\<lambda>x. shape ((c(h := k)) x)) = (\<lambda>x. shape (c x))(h := shape k)"
  by (simp add: fun_eq_iff)

lemma shape_simps [simp]:
  "shape Absent = Absent" "shape Created = Created" "shape Queued = Running" "shape Running = Running"
  "shape (Testing aw) = Running" "shape (Binding aw) = Running" "shape (Arming aw) = Running"
  "shape (Waiting aw) = Running" "shape (Woken aw) = Running" "shape (Reading aw) = Running"
  "shape (Calling c) = Calling c" "shape (Returning c) = Returning c" "shape Finished = Finished"
  by (simp_all add: shape_def)

lemma awaiter_of_simps [simp]:
  "awaiter_of Absent = None" "awaiter_of Created = None" "awaiter_of Queued = None" "awaiter_of Running = None"
  "awaiter_of (Testing aw) = Some aw" "awaiter_of (Binding aw) = Some aw" "awaiter_of (Arming aw) = Some aw"
  "awaiter_of (Waiting aw) = Some aw" "awaiter_of (Woken aw) = Some aw" "awaiter_of (Reading aw) = Some aw"
  "awaiter_of (Calling c) = None" "awaiter_of (Returning c) = None" "awaiter_of Finished = None"
  by (simp_all add: awaiter_of_def)

lemma in_queue_simps [simp]:
  "\<not> in_queue Absent" "\<not> in_queue Created" "in_queue Queued" "\<not> in_queue Running"
  "\<not> in_queue (Testing aw)" "\<not> in_queue (Binding aw)" "\<not> in_queue (Arming aw)" "\<not> in_queue (Waiting aw)"
  "in_queue (Woken aw)" "\<not> in_queue (Reading aw)" "\<not> in_queue (Calling c)" "\<not> in_queue (Returning c)"
  "\<not> in_queue Finished"
  by (simp_all add: in_queue_def)

lemma in_body_simps [simp]:
  "\<not> in_body Absent" "\<not> in_body Created" "in_body Running" "in_body (Calling c)" "in_body (Returning c)"
  "\<not> in_body Finished"
  by (simp_all add: in_body_def)

text \<open>A coroutine moves on.\<close>

lemma frame_fits_body: "frame_fits r A S k f \<Longrightarrow> in_body k \<Longrightarrow> in_body k' \<Longrightarrow> frame_fits r A S k' f"
  by (auto simp: frame_fits_def in_body_def)

lemma frames_move:
  assumes "frames_ok r A S c f" and "frame_fits r A S k x"
  shows "frames_ok r A S (c(h := k)) (f(h := x))"
  using assms by (simp add: frames_ok_def)

lemma frames_move_on: "frames_ok r A S c f \<Longrightarrow> frame_fits r A S k (f h) \<Longrightarrow> frames_ok r A S (c(h := k)) f"
  by (simp add: frames_ok_def)

lemma frames_same:
  "frames_ok r A S (\<lambda>h. shape (c h)) f \<Longrightarrow> shape k = shape (c h) \<Longrightarrow> frames_ok r A S (\<lambda>x. shape ((c(h := k)) x)) f"
  by (auto simp: frames_ok_def)

lemma frame_fits_grow:
  assumes "frame_fits r A S k f" and "A \<subseteq> A'" and "S \<subseteq> S'"
  shows "frame_fits r A' S' k f"
proof (cases "pr_detached (fr_promise f)")
  case True
  have "\<exists>a \<in> A. P a \<Longrightarrow> \<exists>a \<in> A'. P a" for P using assms(2) by blast
  then show ?thesis using assms(1,3) True unfolding frame_fits_def by (simp add: subset_iff)
next
  case False
  then show ?thesis using assms(1,3) unfolding frame_fits_def by (simp add: subset_iff)
qed

lemma frames_grow: "frames_ok r A S c f \<Longrightarrow> A \<subseteq> A' \<Longrightarrow> S \<subseteq> S' \<Longrightarrow> frames_ok r A' S' c f"
  unfolding frames_ok_def by (blast intro: frame_fits_grow)

lemma callers_same:
  "callers_ok (\<lambda>h. shape (c h)) f \<Longrightarrow> shape k = shape (c h) \<Longrightarrow> callers_ok (\<lambda>x. shape ((c(h := k)) x)) f"
  by (subst shape_upd) (simp add: fun_upd_idem)

text \<open>
  Who calls whom does not depend on a coroutine that has not started, is gone, or is a root
  that calls nobody.
\<close>

definition no_callee :: "ctl \<Rightarrow> ('e, 'v) frame \<Rightarrow> bool" where
  "no_callee k f \<longleftrightarrow> k \<noteq> Finished \<and> (in_body k \<longrightarrow> pr_detached (fr_promise f)) \<and>
     (\<forall>y. k \<noteq> Calling y \<and> k \<noteq> Returning y)"

lemma callers_okD:
  assumes "callers_ok c f"
  shows "c p = Calling h \<longleftrightarrow>
      in_body (c h) \<and> \<not> pr_detached (fr_promise (f h)) \<and> pr_continuation (fr_promise (f h)) = Some p"
    and "c p = Returning h \<longleftrightarrow> c h = Finished \<and> pr_continuation (fr_promise (f h)) = Some p"
    and "in_body (c h) \<or> c h = Finished \<Longrightarrow> \<not> pr_detached (fr_promise (f h)) \<Longrightarrow>
      pr_continuation (fr_promise (f h)) \<noteq> None"
  using assms unfolding callers_ok_def by blast+

lemma callers_okI:
  assumes "\<And>p h. c p = Calling h \<longleftrightarrow>
      in_body (c h) \<and> \<not> pr_detached (fr_promise (f h)) \<and> pr_continuation (fr_promise (f h)) = Some p"
    and "\<And>p h. c p = Returning h \<longleftrightarrow> c h = Finished \<and> pr_continuation (fr_promise (f h)) = Some p"
    and "\<And>h. in_body (c h) \<or> c h = Finished \<Longrightarrow> \<not> pr_detached (fr_promise (f h)) \<Longrightarrow>
      pr_continuation (fr_promise (f h)) \<noteq> None"
  shows "callers_ok c f"
  unfolding callers_ok_def using assms by simp

lemma callers_outside:
  assumes "callers_ok c f" and "no_callee (c h) (f h)" and "no_callee k x"
  shows "callers_ok (c(h := k)) (f(h := x))"
proof (rule callers_okI)
  note d = callers_okD [OF assms(1)] and n = assms(2,3) [unfolded no_callee_def]
  show "(c(h := k)) p = Calling y \<longleftrightarrow> in_body ((c(h := k)) y) \<and> \<not> pr_detached (fr_promise ((f(h := x)) y)) \<and>
      pr_continuation (fr_promise ((f(h := x)) y)) = Some p" for p y
    using n d(1) [of p y] by (cases "p = h"; cases "y = h") (auto simp: d(1) [of h])
  show "(c(h := k)) p = Returning y \<longleftrightarrow> (c(h := k)) y = Finished \<and>
      pr_continuation (fr_promise ((f(h := x)) y)) = Some p" for p y
    using n d(2) [of p y] by (cases "p = h"; cases "y = h") (auto simp: d(2) [of h])
  show "pr_continuation (fr_promise ((f(h := x)) y)) \<noteq> None"
    if "in_body ((c(h := k)) y) \<or> (c(h := k)) y = Finished" "\<not> pr_detached (fr_promise ((f(h := x)) y))" for y
    using n d(3) [of y] that by (cases "y = h") auto
qed

lemma callers_call:
  assumes "callers_ok c f" and "c h = Running" and "c x = Created"
    and "\<not> pr_detached (fr_promise fx)" and "pr_continuation (fr_promise fx) = Some h"
  shows "callers_ok (c(h := Calling x, x := Running)) (f(x := fx))"
proof (rule callers_okI)
  note d = callers_okD [OF assms(1)]
  let ?c = "c(h := Calling x, x := Running)"
  have hx: "h \<noteq> x" using assms(2,3) by auto
  show "?c p = Calling y \<longleftrightarrow> in_body (?c y) \<and> \<not> pr_detached (fr_promise ((f(x := fx)) y)) \<and>
      pr_continuation (fr_promise ((f(x := fx)) y)) = Some p" for p y
    using assms hx d(1) [of p y] d(1) [of h y] d(1) [of x y]
    by (cases "p = h"; cases "p = x"; cases "y = h"; cases "y = x") (auto simp: in_body_def)
  show "?c p = Returning y \<longleftrightarrow> ?c y = Finished \<and> pr_continuation (fr_promise ((f(x := fx)) y)) = Some p" for p y
    using assms hx d(2) [of p y] d(2) [of h y] d(2) [of x y]
    by (cases "p = h"; cases "p = x"; cases "y = h"; cases "y = x") auto
  show "pr_continuation (fr_promise ((f(x := fx)) y)) \<noteq> None"
    if "in_body (?c y) \<or> ?c y = Finished" "\<not> pr_detached (fr_promise ((f(x := fx)) y))" for y
    using assms hx d(3) [of y] that by (cases "y = x"; cases "y = h") (auto simp: in_body_def)
qed

lemma callers_return:
  assumes "callers_ok c f" and "c h = Returning x"
  shows "callers_ok (c(h := Running, x := Absent)) (f(x := fx))"
proof (rule callers_okI)
  note d = callers_okD [OF assms(1)]
  let ?c = "c(h := Running, x := Absent)"
  have x: "c x = Finished" "pr_continuation (fr_promise (f x)) = Some h" using d(2) assms(2) by blast+
  then have hx: "h \<noteq> x" using assms(2) by auto
  show "?c p = Calling y \<longleftrightarrow> in_body (?c y) \<and> \<not> pr_detached (fr_promise ((f(x := fx)) y)) \<and>
      pr_continuation (fr_promise ((f(x := fx)) y)) = Some p" for p y
    using assms hx x d(1) [of p y] d(1) [of h y] d(1) [of x y]
    by (cases "p = h"; cases "p = x"; cases "y = h"; cases "y = x") (auto simp: in_body_def)
  show "?c p = Returning y \<longleftrightarrow> ?c y = Finished \<and> pr_continuation (fr_promise ((f(x := fx)) y)) = Some p" for p y
    using assms hx x d(2) [of p y] d(2) [of h y] d(2) [of x y]
    by (cases "p = h"; cases "p = x"; cases "y = h"; cases "y = x") auto
  show "pr_continuation (fr_promise ((f(x := fx)) y)) \<noteq> None"
    if "in_body (?c y) \<or> ?c y = Finished" "\<not> pr_detached (fr_promise ((f(x := fx)) y))" for y
    using assms hx d(3) [of y] that by (cases "y = x"; cases "y = h") (auto simp: in_body_def)
qed

lemma callers_end:
  assumes "callers_ok c f" and "c h = Running" and "c p = Calling h"
    and "pr_continuation (fr_promise fh) = Some p" and "\<not> pr_detached (fr_promise fh)"
  shows "callers_ok (c(h := Finished, p := Returning h)) (f(h := fh))"
proof (rule callers_okI)
  note d = callers_okD [OF assms(1)]
  let ?c = "c(h := Finished, p := Returning h)"
  have hp: "h \<noteq> p" using assms(2,3) by auto
  have h: "\<not> pr_detached (fr_promise (f h))" "pr_continuation (fr_promise (f h)) = Some p"
    using d(1) [of p h] assms(3) by simp_all
  show "?c q = Calling y \<longleftrightarrow> in_body (?c y) \<and> \<not> pr_detached (fr_promise ((f(h := fh)) y)) \<and>
      pr_continuation (fr_promise ((f(h := fh)) y)) = Some q" for q y
    using assms hp h d(1) [of q y] d(1) [of p y] d(1) [of h y]
    by (cases "q = h"; cases "q = p"; cases "y = h"; cases "y = p") (auto simp: in_body_def)
  show "?c q = Returning y \<longleftrightarrow> ?c y = Finished \<and> pr_continuation (fr_promise ((f(h := fh)) y)) = Some q" for q y
    using assms hp h d(2) [of q y] d(2) [of p y] d(2) [of h y]
    by (cases "q = h"; cases "q = p"; cases "y = h"; cases "y = p") auto
  show "pr_continuation (fr_promise ((f(h := fh)) y)) \<noteq> None"
    if "in_body (?c y) \<or> ?c y = Finished" "\<not> pr_detached (fr_promise ((f(h := fh)) y))" for y
    using assms hp d(3) [of y] that by (cases "y = h"; cases "y = p") (auto simp: in_body_def)
qed

lemma queue_same: "queue_ok q c \<Longrightarrow> in_queue k = in_queue (c h) \<Longrightarrow> queue_ok q (c(h := k))"
  by (auto simp: queue_ok_def)

lemma waits_same:
  assumes "waits_ok r A R G m c" and "awaiter_of k = None \<or> awaiter_of k = awaiter_of (c h)"
    and "\<And>aw. k \<noteq> Waiting aw" and "\<And>aw. c h \<noteq> Waiting aw"
  shows "waits_ok r A R G m (c(h := k))"
proof -
  have "awaiter_of ((c(h := k)) x) = Some aw \<Longrightarrow> awaiter_of (c x) = Some aw" for x aw
    using assms(2) by (auto split: if_splits)
  moreover have "(c(h := k)) x = Waiting aw \<longleftrightarrow> c x = Waiting aw" for x aw
    using assms(3,4) by auto
  ultimately show ?thesis
    using assms(1) unfolding waits_ok_def by (simp del: fun_upd_apply) blast
qed

lemma waits_shrink:
  assumes "waits_ok r A R G m c" and "R' \<subseteq> R"
  shows "waits_ok r A R' G m c"
proof -
  have "\<exists>a. a_state aw = Some a \<and> a \<in> A \<and> a \<notin> R' \<and> o_rt (m a) = Some r"
    if "awaiter_of (c h) = Some aw" for h aw
    using assms that unfolding waits_ok_def by blast
  moreover have "R' \<subseteq> A" using assms by (auto simp: waits_ok_def)
  ultimately show ?thesis using assms(1) unfolding waits_ok_def by blast
qed

lemma guards_same:
  assumes "guards_ok G S m cw c" and "awaiter_of k = awaiter_of (c h)"
    and "\<And>aw a. awaiter_of k = Some aw \<Longrightarrow> a_state aw = Some a \<Longrightarrow>
      guard_fits (guards cw (a_guard aw)) (c h) aw (m a) \<Longrightarrow> guard_fits (guards cw (a_guard aw)) k aw (m a)"
  shows "guards_ok G S m cw (c(h := k))"
proof -
  have "awaiter_of ((c(h := k)) x) = awaiter_of (c x)" for x using assms(2) by simp
  then show ?thesis
    using assms unfolding guards_ok_def by (simp del: fun_upd_apply) (auto simp: fun_upd_apply)
qed

lemma guards_none:
  "guards_ok G S m cw c \<Longrightarrow> awaiter_of k = None \<Longrightarrow> awaiter_of (c h) = None \<Longrightarrow> guards_ok G S m cw (c(h := k))"
  by (rule guards_same) simp_all

lemma roots_frame:
  assumes "roots_ok_in r w" and "live_roots (core w') = live_roots (core w)"
    and "rt_roots_head (w_rts w' r) = rt_roots_head (w_rts w r)" and "rt_live (w_rts w' r) = rt_live (w_rts w r)"
    and "\<And>x. x \<in> live_roots (core w) \<Longrightarrow> pr_next (promise_of w' x) = pr_next (promise_of w x) \<and>
      pr_prev (promise_of w' x) = pr_prev (promise_of w x)"
  shows "roots_ok_in r w'"
proof -
  obtain xs where xs: "root_chain r w xs" "set xs = live_roots (core w)" "length xs < 2 ^ 64"
    using assms(1) by (auto simp: roots_ok_in_def)
  have "root_links r w' xs = root_links r w xs"
    using xs(2) assms(3,5) by (intro root_links_cong) auto
  with xs assms(2,4) show ?thesis by (auto simp: roots_ok_in_def root_chain_def)
qed

end
