(* ===== verification/System_Tasks.thy ===== *)
theory System_Tasks
  imports System_Parts
begin

text \<open>
  The steps of \<open>System\<close> that take coroutines from the queue, make, call and end them, and those on
  channels nobody awaits yet, are defined and keep the invariant.
\<close>

section \<open>The steps, one by one\<close>

lemma take_keeps:
  assumes inv: "sys_inv r s" and g: "sys_guard r Op_take s"
  shows "\<exists>t. sys_exec r Op_take s = Some t \<and> sys_inv r t"
proof -
  note i = sys_invD [OF inv]
  obtain h hs where q: "rt_queue (w_rts (sy_world s) r) = h # hs"
    using g by (auto simp: neq_Nil_conv)
  have iq: "in_queue (sy_ctl s h)" using i(3) q by (auto simp: queue_ok_def)
  then have sh: "shape (sy_ctl s h) = Running" by (auto simp: in_queue_def split: ctl.splits)
  then have f: "fr_alive (w_frames (sy_world s) h)" "\<not> fr_done (w_frames (sy_world s) h)"
    using frame_of [OF inv, of h] by (simp_all add: frame_fits_def)
  let ?w = "upd_rt r (\<lambda>_. (w_rts (sy_world s) r)\<lparr>rt_queue := hs\<rparr>) (sy_world s)"
  define k where "k = (case sy_ctl s h of Woken aw \<Rightarrow> Reading aw | _ \<Rightarrow> Running)"
  have e: "sys_take r s = Some (s\<lparr>sy_world := ?w, sy_ctl := (sy_ctl s)(h := k)\<rparr>)"
    using q f iq by (auto simp: sys_take_def get_next_task_from_queue_def k_def in_queue_def split: ctl.splits)
  have k: "shape k = shape (sy_ctl s h)" "awaiter_of k = awaiter_of (sy_ctl s h)" "\<not> in_queue k"
      "k \<noteq> Waiting aw" "sy_ctl s h \<noteq> Waiting aw" "k \<noteq> Testing aw" "k \<noteq> Binding aw" "k \<noteq> Arming aw" for aw
    using iq by (auto simp: k_def in_queue_def split: ctl.splits)
  have "queue_ok hs ((sy_ctl s)(h := k))"
    using i(3) q k(3) by (auto simp: queue_ok_def)
  moreover have "roots_ok_in r ?w" using i(4) by (rule roots_frame) auto
  moreover have "waits_ok r (sy_channels s) (sy_receivers s) (sy_guards s) (w_channels (sy_world s)) ((sy_ctl s)(h := k))"
    using i(5) k by (intro waits_same) auto
  moreover have "guards_ok (sy_guards s) (sy_scopes s) (w_channels (sy_world s)) (w_cancel (sy_world s)) ((sy_ctl s)(h := k))"
    using i(6) k by (intro guards_same) (auto simp: guard_fits_def)
  ultimately have "sys_inv r (s\<lparr>sy_world := ?w, sy_ctl := (sy_ctl s)(h := k)\<rparr>)"
    using frames_same [OF i(1) k(1)] callers_same [OF i(2) k(1)] by (simp add: sys_inv_def)
  with e show ?thesis by simp
qed

lemma channel_events_keep:
  assumes inv: "sys_inv r s"
  shows "\<exists>t. sys_exec r (Op_send a v) s = Some t \<and> sys_inv r t"
    and "\<exists>t. sys_exec r (Op_drop_sender a) s = Some t \<and> sys_inv r t"
    and "\<exists>t. sys_exec r (Op_drop_receiver a) s = Some t \<and> sys_inv r t"
proof -
  note i = sys_invD [OF inv]
  let ?m = "w_channels (sy_world s)"
  have ok: "chan_ok (?m a)" using i(5) by (simp add: waits_ok_def)
  obtain res s' ks where sv: "set_value v (?m a) = (res, s', ks)" by (cases "set_value v (?m a)")
  show "\<exists>t. sys_exec r (Op_send a v) s = Some t \<and> sys_inv r t"
    using settles_sys [OF inv set_value_settles [OF ok sv]] sv by (simp add: send_def)
  obtain s2 k2 where sd: "mark_sender_dropped (?m a) = (s2, k2)" by (cases "mark_sender_dropped (?m a)")
  show "\<exists>t. sys_exec r (Op_drop_sender a) s = Some t \<and> sys_inv r t"
    using settles_sys [OF inv sender_dropped_settles [OF ok sd]] sd by (auto simp: sender_destroy_def)
  obtain t where t: "sys_schedule [] ((sy_world s)\<lparr>w_channels := ?m(a := mark_receiver_dropped (?m a))\<rparr>) (sy_ctl s) s = Some t"
      "sys_inv r t"
    using settles_sys [OF inv receiver_dropped_settles [OF ok]] by blast
  then have "t = s\<lparr>sy_world := (sy_world s)\<lparr>w_channels := ?m(a := mark_receiver_dropped (?m a))\<rparr>\<rparr>"
    by (simp add: sys_schedule_def)
  with t(2) have "sys_inv r (s\<lparr>sy_world := (sy_world s)\<lparr>w_channels := ?m(a := mark_receiver_dropped (?m a))\<rparr>,
      sy_receivers := sy_receivers s - {a}\<rparr>)"
    by (simp add: sys_inv_def waits_shrink [where R = "sy_receivers s"])
  then show "\<exists>t. sys_exec r (Op_drop_receiver a) s = Some t \<and> sys_inv r t"
    by (simp add: receiver_destroy_def)
qed

text \<open>New frames and their end before they have run.\<close>

lemma create_keeps:
  assumes inv: "sys_inv r s" and g: "sys_guard r (Op_create h) s"
  shows "\<exists>t. sys_exec r (Op_create h) s = Some t \<and> sys_inv r t"
proof -
  note i = sys_invD [OF inv]
  let ?w = "upd_frame h (\<lambda>_. new_frame) (sy_world s)" and ?c = "(sy_ctl s)(h := Created)"
  have a: "sy_ctl s h = Absent" using g by simp
  have dead: "\<not> fr_alive (w_frames (sy_world s) h)" using frame_of [OF inv, of h] a by (simp add: frame_fits_def)
  have cf: "core ?w = (core (sy_world s))(h := new_frame)"
    by (simp add: core_def fun_eq_iff new_frame_def new_promise_def)
  have "frame_fits r (sy_channels s) (sy_scopes s) Created new_frame"
    by (simp add: frame_fits_def new_frame_def new_promise_def)
  with i(1) have "frames_ok r (sy_channels s) (sy_scopes s) (\<lambda>x. shape (?c x)) (core ?w)"
    unfolding shape_upd cf by (intro frames_move) simp_all
  moreover have "callers_ok (\<lambda>x. shape (?c x)) (core ?w)"
    using i(2) a unfolding shape_upd cf by (intro callers_outside) (simp_all add: no_callee_def)
  moreover have "queue_ok (rt_queue (w_rts ?w r)) ?c" using i(3) a by (simp add: queue_same)
  moreover have "roots_ok_in r ?w"
    using i(4) by (rule roots_frame) (use dead cf in \<open>auto simp: live_roots_def new_frame_def\<close>)
  moreover have "waits_ok r (sy_channels s) (sy_receivers s) (sy_guards s) (w_channels ?w) ?c"
    using i(5) a by (simp add: waits_same)
  moreover have "guards_ok (sy_guards s) (sy_scopes s) (w_channels ?w) (w_cancel ?w) ?c"
    using i(6) a by (simp add: guards_none)
  ultimately show ?thesis by (simp add: sys_inv_def)
qed

lemma drop_task_keeps:
  assumes inv: "sys_inv r s" and g: "sys_guard r (Op_drop_task h) s"
  shows "\<exists>t. sys_exec r (Op_drop_task h) s = Some t \<and> sys_inv r t"
proof -
  note i = sys_invD [OF inv]
  let ?w = "upd_frame h (\<lambda>f. f\<lparr>fr_alive := False\<rparr>) (sy_world s)" and ?c = "(sy_ctl s)(h := Absent)"
  have a: "sy_ctl s h = Created" using g by simp
  have f: "fr_alive (w_frames (sy_world s) h)" "pr_sender (promise_of (sy_world s) h) = None"
      "\<not> pr_detached (promise_of (sy_world s) h)"
    using frame_of [OF inv, of h] a by (auto simp: frame_fits_def split: if_splits)
  have "task_destroy (Some h) (sy_world s) = Some (?w, [])"
    using f by (simp add: task_destroy_def destroy_frame_def sender_destroy_def upd_frame_def)
  then have e: "sys_exec r (Op_drop_task h) s = Some (s\<lparr>sy_world := ?w, sy_ctl := ?c\<rparr>)"
    by (simp add: sys_schedule_def)
  have cf: "core ?w = (core (sy_world s))(h := (core (sy_world s) h)\<lparr>fr_alive := False\<rparr>)"
    by (simp add: core_def fun_eq_iff)
  have "frame_fits r (sy_channels s) (sy_scopes s) Absent ((core (sy_world s) h)\<lparr>fr_alive := False\<rparr>)"
    by (simp add: frame_fits_def)
  with i(1) have "frames_ok r (sy_channels s) (sy_scopes s) (\<lambda>x. shape (?c x)) (core ?w)"
    unfolding shape_upd cf by (intro frames_move) simp_all
  moreover have "callers_ok (\<lambda>x. shape (?c x)) (core ?w)"
    using i(2) a unfolding shape_upd cf by (intro callers_outside) (simp_all add: no_callee_def)
  moreover have "queue_ok (rt_queue (w_rts ?w r)) ?c" using i(3) a by (simp add: queue_same)
  moreover have "roots_ok_in r ?w"
    using i(4) by (rule roots_frame) (use f cf in \<open>auto simp: live_roots_def\<close>)
  moreover have "waits_ok r (sy_channels s) (sy_receivers s) (sy_guards s) (w_channels ?w) ?c"
    using i(5) a by (simp add: waits_same)
  moreover have "guards_ok (sy_guards s) (sy_scopes s) (w_channels ?w) (w_cancel ?w) ?c"
    using i(6) a by (simp add: guards_none)
  ultimately show ?thesis using e by (simp add: sys_inv_def)
qed

text \<open>New channels and scopes.\<close>

lemma fresh_channel_waits:
  assumes "waits_ok r A R G m c" and "a \<notin> A"
  shows "waits_ok r (insert a A) (insert a R) G (m(a := new_oneshot)) c"
proof -
  have w: "o_waiter ((m(a := new_oneshot)) b) = o_waiter (m b)" for b
  proof -
    have "o_waiter (m a) = None"
    proof (rule ccontr)
      assume "o_waiter (m a) \<noteq> None"
      then obtain h aw where "c h = Waiting aw" "a_state aw = Some a"
        using assms(1) unfolding waits_ok_def by blast
      then have "awaiter_of (c h) = Some aw" "a_state aw = Some a" by simp_all
      with assms show False unfolding waits_ok_def by (metis option.inject)
    qed
    then show ?thesis by (simp add: new_oneshot_def)
  qed
  have "chan_ok ((m(a := new_oneshot)) b)" for b
    using assms(1) by (simp add: waits_ok_def) (simp add: chan_ok_def new_oneshot_def)
  moreover have "\<exists>b. a_state aw = Some b \<and> b \<in> insert a A \<and> b \<notin> insert a R \<and> o_rt ((m(a := new_oneshot)) b) = Some r"
    if aw: "awaiter_of (c h) = Some aw" for h aw
  proof -
    obtain b where b: "a_state aw = Some b" "b \<in> A" "b \<notin> R" "o_rt (m b) = Some r"
      using assms(1) aw unfolding waits_ok_def by blast
    then have "b \<noteq> a" using assms(2) by auto
    with b show ?thesis by simp
  qed
  ultimately show ?thesis
    using assms(1) unfolding waits_ok_def w by (simp del: fun_upd_apply) blast
qed

lemma fresh_channel_guards:
  assumes "guards_ok G S m cw c" and "waits_ok r A R G m c" and "a \<notin> A"
  shows "guards_ok G S (m(a := new_oneshot)) cw c"
proof -
  note g = guards_okD [OF assms(1)]
  show ?thesis
  proof (rule guards_okI [OF g(1)])
    fix h aw b
    assume aw: "awaiter_of (c h) = Some aw" "a_state aw = Some b"
    from waits_okD(4) [OF assms(2) aw(1)] aw(2) have "b \<in> A" by auto
    then have "b \<noteq> a" using assms(3) by auto
    with g(4) [OF aw] show "guard_fits (guards cw (a_guard aw)) (c h) aw ((m(a := new_oneshot)) b)" by simp
  qed (blast intro: g)+
qed

lemma make_keeps:
  assumes inv: "sys_inv r s" and g: "sys_guard r (Op_make a) s"
  shows "\<exists>t. sys_exec r (Op_make a) s = Some t \<and> sys_inv r t"
proof -
  note i = sys_invD [OF inv]
  have "frames_ok r (insert a (sy_channels s)) (sy_scopes s) (\<lambda>h. shape (sy_ctl s h)) (core (sy_world s))"
    using i(1) by (rule frames_grow) auto
  with i g fresh_channel_waits [OF i(5)] fresh_channel_guards [OF i(6,5)] show ?thesis
    by (simp add: make_oneshot_def sys_inv_def roots_ok_in_def)
qed

lemma fresh_scope_guards:
  assumes "guards_ok G S m cw c" and "sc \<notin> S"
  shows "guards_ok G (insert sc S) m (upd_scope sc (\<lambda>_. new_scope) cw) c"
proof -
  have none: "armed_on sc cw = {}"
    using assms unfolding guards_ok_def armed_on_def by blast
  have same: "armed_on s (upd_scope sc (\<lambda>_. new_scope) cw) = armed_on s cw" for s
    by (simp add: armed_on_def)
  have "scope_chain sc (upd_scope sc (\<lambda>_. new_scope) cw) []"
    by (simp add: scope_chain_def dll_def new_scope_def)
  then have "scope_ok sc (upd_scope sc (\<lambda>_. new_scope) cw)"
    unfolding scope_ok_def same none by auto
  then have inv: "cancel_inv (upd_scope sc (\<lambda>_. new_scope) cw)"
    by (rule cancel_inv_one_scope [OF guards_okD(1) [OF assms(1)]]) (simp_all add: same)
  note g = guards_okD [OF assms(1)]
  show ?thesis
  proof (rule guards_okI [OF inv])
    fix g s
    assume "g \<in> armed_on s (upd_scope sc (\<lambda>_. new_scope) cw)"
    then have "g \<in> armed_on s cw" unfolding same .
    from g(5) [OF this] show "\<exists>h aw a. awaiter_of (c h) = Some aw \<and> a_guard aw = g \<and> a_state aw = Some a \<and>
        g_cb (guards (upd_scope sc (\<lambda>_. new_scope) cw) g) = Some (Cancel_waiter a h)"
      by simp
  qed (auto simp: g(2,4) dest: g(3))
qed

lemma live_roots_upd:
  "live_roots (f(h := x)) = (if fr_alive x \<and> pr_detached (fr_promise x) then insert h (live_roots f) else live_roots f - {h})"
  by (auto simp: live_roots_def)

lemma schedule_one: "upd_rt r (schedule (Some h)) w = enqueue r [h] w"
  by (simp add: enqueue_def schedule_def put_task_in_queue_def)

lemma spawned_world_simps [simp]:
  "w_channels (spawned_world r h sc a w) = (w_channels w)(a := new_oneshot)"
  "w_cancel (spawned_world r h sc a w) = upd_scope sc (\<lambda>_. new_scope) (w_cancel w)"
  "w_rts (spawned_world r h sc a w) = w_rts w"
  by (simp_all add: spawned_world_def)

lemma core_spawned_world:
  "core (spawned_world r h sc a w) = (core w)(h := (core w h)\<lparr>fr_promise := (fr_promise (core w h))
     \<lparr>pr_owning_scope := Some sc, pr_sender := Some a, pr_owner_rt := Some r, pr_scope_raw := Some sc, pr_detached := True\<rparr>\<rparr>)"
  by (simp add: core_def fun_eq_iff spawned_world_def)

lemma spawn_keeps:
  assumes inv: "sys_inv r s" and g: "sys_guard r (Op_spawn h sc a) s"
  shows "\<exists>t. sys_exec r (Op_spawn h sc a) s = Some t \<and> sys_inv r t"
proof -
  note i = sys_invD [OF inv]
  let ?w3 = "spawned_world r h sc a (sy_world s)" and ?c = "(sy_ctl s)(h := Queued)"
  let ?w = "enqueue r [h] (register_root r h ?w3)"
  let ?A = "insert a (sy_channels s)" and ?S = "insert sc (sy_scopes s)"
  have a: "sy_ctl s h = Created" "sc \<notin> sy_scopes s" "a \<notin> sy_channels s" "Suc (rt_live (w_rts (sy_world s) r)) < 2 ^ 64"
    using g by simp_all
  have f: "fr_alive (w_frames (sy_world s) h)" "\<not> fr_done (w_frames (sy_world s) h)"
      "pr_sender (promise_of (sy_world s) h) = None" "\<not> pr_detached (promise_of (sy_world s) h)"
      "pr_exception (promise_of (sy_world s) h) = None" "pr_result (promise_of (sy_world s) h) = None"
    using frame_of [OF inv, of h] a(1) by (auto simp: frame_fits_def split: if_splits)
  have e: "sys_spawn r h sc a s = Some (s\<lparr>sy_world := ?w, sy_ctl := ?c, sy_channels := ?A,
      sy_receivers := insert a (sy_receivers s), sy_scopes := ?S\<rparr>)"
    by (simp add: sys_spawn_def spawn_equation [OF f(2,3)] sys_schedule_def schedule_one)
  let ?x = "(core (sy_world s) h)\<lparr>fr_promise := (fr_promise (core (sy_world s) h))
     \<lparr>pr_owning_scope := Some sc, pr_sender := Some a, pr_owner_rt := Some r, pr_scope_raw := Some sc, pr_detached := True\<rparr>\<rparr>"
  have cf: "core ?w = (core (sy_world s))(h := ?x)" by (simp add: core_spawned_world)
  have "frames_ok r ?A ?S (\<lambda>h. shape (sy_ctl s h)) (core (sy_world s))"
    using i(1) by (rule frames_grow) auto
  moreover have "frame_fits r ?A ?S Running ?x" using f by (simp add: frame_fits_def)
  ultimately have "frames_ok r ?A ?S (\<lambda>x. shape (?c x)) (core ?w)"
    unfolding shape_upd cf by (intro frames_move) simp_all
  moreover have "callers_ok (\<lambda>x. shape (?c x)) (core ?w)"
    using i(2) a unfolding shape_upd cf by (intro callers_outside) (simp_all add: no_callee_def)
  moreover have "queue_ok (rt_queue (w_rts ?w r)) ?c"
    using i(3) a(1) by (auto simp: queue_ok_def)
  moreover have "roots_ok_in r ?w"
  proof -
    obtain xs where xs: "root_chain r (sy_world s) xs" "set xs = live_roots (core (sy_world s))"
      using i(4) by (auto simp: roots_ok_in_def)
    then have l: "Suc (length xs) < 2 ^ 64" "h \<notin> set xs"
      using a(4) f(4) by (simp_all add: root_chain_def live_roots_def)
    then have "root_chain r (register_root r h ?w3) (h # xs)"
      using xs(1) by (intro root_chain_register) simp_all
    moreover have "set (h # xs) = live_roots (core ?w)"
      unfolding cf live_roots_upd using xs(2) f(1) by simp
    ultimately show ?thesis using l(1) unfolding roots_ok_in_def by (intro exI [of _ "h # xs"]) simp
  qed
  moreover have "waits_ok r ?A (insert a (sy_receivers s)) (sy_guards s) (w_channels ?w) ?c"
    using fresh_channel_waits [OF i(5) a(3)] a(1) by (simp add: waits_same)
  moreover have "guards_ok (sy_guards s) ?S (w_channels ?w) (w_cancel ?w) ?c"
    using fresh_scope_guards [OF fresh_channel_guards [OF i(6,5) a(3)] a(2)] a(1) by (simp add: guards_none)
  ultimately show ?thesis using e by (simp add: sys_inv_def)
qed

text \<open>Calls and returns.\<close>

lemma call_keeps:
  assumes inv: "sys_inv r s" and g: "sys_guard r (Op_call h c) s"
  shows "\<exists>t. sys_exec r (Op_call h c) s = Some t \<and> sys_inv r t"
proof -
  note i = sys_invD [OF inv]
  let ?sp = "pr_owning_scope (promise_of (sy_world s) h)"
  let ?w = "upd_promise c (\<lambda>p. p\<lparr>pr_continuation := Some h\<rparr>) (upd_promise c (\<lambda>p. p\<lparr>pr_owning_scope := ?sp\<rparr>) (sy_world s))"
  let ?c = "(sy_ctl s)(h := Calling c, c := Running)"
  have a: "sy_ctl s h = Running" "sy_ctl s c = Created" "h \<noteq> c" using g by auto
  have f: "\<not> fr_done (w_frames (sy_world s) c)" "fr_alive (w_frames (sy_world s) c)"
      "pr_sender (promise_of (sy_world s) c) = None" "\<not> pr_detached (promise_of (sy_world s) c)"
      "pr_exception (promise_of (sy_world s) c) = None" "pr_result (promise_of (sy_world s) c) = None"
    using frame_of [OF inv, of c] a(2) by (auto simp: frame_fits_def split: if_splits)
  have fh: "\<And>sc. ?sp = Some sc \<Longrightarrow> sc \<in> sy_scopes s"
    using frame_of [OF inv, of h] a(1) by (simp add: frame_fits_def)
  have hh: "frame_fits r (sy_channels s) (sy_scopes s) (Calling c) (core (sy_world s) h)"
    by (rule frame_fits_body [OF frame_of [OF inv, of h]]) (simp_all add: a(1))
  have e: "sys_call h c s = Some (s\<lparr>sy_world := ?w, sy_ctl := ?c\<rparr>)"
    using f(1) a by (simp add: sys_call_def await_transform_task_def task_set_owning_scope_def
        task_await_ready_def task_await_suspend_def)
  let ?x = "(core (sy_world s) c)\<lparr>fr_promise := (fr_promise (core (sy_world s) c))
     \<lparr>pr_owning_scope := ?sp, pr_continuation := Some h\<rparr>\<rparr>"
  have cf: "core ?w = (core (sy_world s))(c := ?x)" by (simp add: core_def fun_eq_iff)
  have sh: "(\<lambda>x. shape (?c x)) = (\<lambda>x. shape (sy_ctl s x))(h := Calling c, c := Running)"
    by (simp add: fun_eq_iff)
  have "frame_fits r (sy_channels s) (sy_scopes s) Running ?x" using f fh by (simp add: frame_fits_def)
  with frames_move_on [where f = "core (sy_world s)", OF i(1) hh] have "frames_ok r (sy_channels s) (sy_scopes s) (\<lambda>x. shape (?c x)) (core ?w)"
    unfolding sh cf by (intro frames_move) simp_all
  moreover have "callers_ok (\<lambda>x. shape (?c x)) (core ?w)"
    using i(2) a f unfolding sh cf by (intro callers_call) simp_all
  moreover have "queue_ok (rt_queue (w_rts ?w r)) ?c" using i(3) a by (simp add: queue_same)
  moreover have "roots_ok_in r ?w"
    using i(4) by (rule roots_frame) (use f(4) cf in \<open>auto simp: live_roots_def\<close>)
  moreover have "waits_ok r (sy_channels s) (sy_receivers s) (sy_guards s) (w_channels ?w) ?c"
    using i(5) a by (simp add: waits_same)
  moreover have "guards_ok (sy_guards s) (sy_scopes s) (w_channels ?w) (w_cancel ?w) ?c"
    using i(6) a by (simp add: guards_none)
  ultimately show ?thesis using e by (simp add: sys_inv_def)
qed

lemma return_keeps:
  assumes inv: "sys_inv r s" and g: "sys_guard r (Op_return h) s"
  shows "\<exists>t. sys_exec r (Op_return h) s = Some t \<and> sys_inv r t"
proof -
  note i = sys_invD [OF inv]
  obtain c where a: "sy_ctl s h = Returning c" using g by (auto split: ctl.splits)
  then have "shape (sy_ctl s c) = Finished" using callers_okD(2) [OF i(2), of h c] by simp
  then have b: "sy_ctl s c = Finished" by (auto simp: shape_def split: ctl.splits)
  have hc: "h \<noteq> c" using a b by auto
  let ?w = "upd_frame c (\<lambda>f. f\<lparr>fr_alive := False\<rparr>) (sy_world s)"
  let ?c = "(sy_ctl s)(h := Running, c := Absent)"
  have f: "fr_alive (w_frames (sy_world s) c)" "pr_sender (promise_of (sy_world s) c) = None"
      "\<not> pr_detached (promise_of (sy_world s) c)"
      "pr_exception (promise_of (sy_world s) c) \<noteq> None \<or> pr_result (promise_of (sy_world s) c) \<noteq> None"
    using frame_of [OF inv, of c] b by (auto simp: frame_fits_def split: if_splits)
  have hh: "frame_fits r (sy_channels s) (sy_scopes s) Running (core (sy_world s) h)"
    by (rule frame_fits_body [OF frame_of [OF inv, of h]]) (simp_all add: a)
  have "task_await_resume (Some c) (sy_world s) \<noteq> None"
    using f(4) by (auto simp: task_await_resume_def split: option.splits)
  moreover have "task_awaiter_destroy (Some c) (sy_world s) = Some (?w, [])"
    using f by (simp add: task_awaiter_destroy_def task_destroy_def destroy_frame_def sender_destroy_def upd_frame_def)
  ultimately have e: "sys_return h s = Some (s\<lparr>sy_world := ?w, sy_ctl := ?c\<rparr>)"
    using a by (auto simp: sys_return_def sys_schedule_def)
  let ?x = "(core (sy_world s) c)\<lparr>fr_alive := False\<rparr>"
  have cf: "core ?w = (core (sy_world s))(c := ?x)" by (simp add: core_def fun_eq_iff)
  have sh: "(\<lambda>x. shape (?c x)) = (\<lambda>x. shape (sy_ctl s x))(h := Running, c := Absent)"
    by (simp add: fun_eq_iff)
  have "frame_fits r (sy_channels s) (sy_scopes s) Absent ?x" by (simp add: frame_fits_def)
  with frames_move_on [where f = "core (sy_world s)", OF i(1) hh] have "frames_ok r (sy_channels s) (sy_scopes s) (\<lambda>x. shape (?c x)) (core ?w)"
    unfolding sh cf by (intro frames_move) simp_all
  moreover have "callers_ok (\<lambda>x. shape (?c x)) (core ?w)"
    using i(2) a unfolding sh cf by (intro callers_return) simp_all
  moreover have "queue_ok (rt_queue (w_rts ?w r)) ?c" using i(3) a b hc by (simp add: queue_same)
  moreover have "roots_ok_in r ?w"
    using i(4) by (rule roots_frame) (use f(3) cf in \<open>auto simp: live_roots_def\<close>)
  moreover have "waits_ok r (sy_channels s) (sy_receivers s) (sy_guards s) (w_channels ?w) ?c"
    using i(5) a b hc by (simp add: waits_same)
  moreover have "guards_ok (sy_guards s) (sy_scopes s) (w_channels ?w) (w_cancel ?w) ?c"
    using i(6) a b hc by (simp add: guards_none)
  ultimately show ?thesis using e by (simp add: sys_inv_def)
qed

lemma end_called_keeps:
  assumes inv: "sys_inv r s" and a: "sy_ctl s h = Running" and nd: "\<not> pr_detached (promise_of (sy_world s) h)"
  shows "\<exists>t. sys_end h res s = Some t \<and> sys_inv r t"
proof -
  note i = sys_invD [OF inv]
  obtain p where p: "pr_continuation (promise_of (sy_world s) h) = Some p"
    using callers_okD(3) [OF i(2), of h] a nd by auto
  then have "shape (sy_ctl s p) = Calling h" using callers_okD(1) [OF i(2), of p h] a nd by simp
  then have cp: "sy_ctl s p = Calling h" by (auto simp: shape_def split: ctl.splits)
  have hp: "h \<noteq> p" using a cp by auto
  let ?w = "upd_frame h (\<lambda>f. f\<lparr>fr_done := True\<rparr>) (upd_promise h (end_body res) (sy_world s))"
  let ?c = "(sy_ctl s)(h := Finished, p := Returning h)"
  have f: "fr_alive (w_frames (sy_world s) h)" "pr_sender (promise_of (sy_world s) h) = None"
      "\<And>sc. pr_owning_scope (promise_of (sy_world s) h) = Some sc \<Longrightarrow> sc \<in> sy_scopes s"
    using frame_of [OF inv, of h] a nd by (simp_all add: frame_fits_def)
  have fp: "fr_alive (w_frames (sy_world s) p)" "frame_fits r (sy_channels s) (sy_scopes s) (Returning h) (core (sy_world s) p)"
  proof -
    show "fr_alive (w_frames (sy_world s) p)" using frame_of [OF inv, of p] cp by (simp add: frame_fits_def)
    show "frame_fits r (sy_channels s) (sy_scopes s) (Returning h) (core (sy_world s) p)"
      by (rule frame_fits_body [OF frame_of [OF inv, of p]]) (simp_all add: cp)
  qed
  have "final_suspend h (upd_promise h (end_body res) (sy_world s)) = Some (?w, Some p, [])"
    using nd p by (simp add: final_suspend_def final_suspend_with_def Let_def)
  then have e: "sys_end h res s = Some (s\<lparr>sy_world := ?w, sy_ctl := ?c\<rparr>)"
    using f(1) fp(1) cp hp by (simp add: sys_end_def sys_schedule_def)
  let ?x = "(core (sy_world s) h)\<lparr>fr_promise := end_body res (fr_promise (core (sy_world s) h)), fr_done := True\<rparr>"
  have cf: "core ?w = (core (sy_world s))(h := ?x)"
    by (cases res) (simp_all add: core_def fun_eq_iff return_value_def unhandled_exception_def)
  have sh: "(\<lambda>x. shape (?c x)) = (\<lambda>x. shape (sy_ctl s x))(h := Finished, p := Returning h)"
    by (simp add: fun_eq_iff)
  have "pr_exception (end_body res q) \<noteq> None \<or> pr_result (end_body res q) \<noteq> None" for q :: "('a, 'b) promise"
    by (cases res) (simp_all add: return_value_def unhandled_exception_def)
  then have "frame_fits r (sy_channels s) (sy_scopes s) Finished ?x" using f nd by (simp add: frame_fits_def)
  from frames_move [OF frames_move_on [where f = "core (sy_world s)", OF i(1) fp(2)] this, of h]
  have "frames_ok r (sy_channels s) (sy_scopes s) (\<lambda>x. shape (?c x)) (core ?w)"
    unfolding sh cf by (subst fun_upd_twist [OF hp])
  moreover have "callers_ok (\<lambda>x. shape (?c x)) (core ?w)"
    using i(2) a cp p nd unfolding sh cf by (intro callers_end) simp_all
  moreover have "queue_ok (rt_queue (w_rts ?w r)) ?c" using i(3) a cp hp by (simp add: queue_same)
  moreover have "roots_ok_in r ?w"
    using i(4) by (rule roots_frame) (use nd cf in \<open>auto simp: live_roots_def\<close>)
  moreover have "waits_ok r (sy_channels s) (sy_receivers s) (sy_guards s) (w_channels ?w) ?c"
    using i(5) a cp hp by (simp add: waits_same)
  moreover have "guards_ok (sy_guards s) (sy_scopes s) (w_channels ?w) (w_cancel ?w) ?c"
    using i(6) a cp hp by (simp add: guards_none)
  ultimately show ?thesis using e by (simp add: sys_inv_def)
qed

text \<open>The end of a root: its outcome is sent, it is unregistered, its frame and its sender are destroyed.\<close>

lemma root_channel_events:
  assumes inv: "sys_inv r s" and a: "sy_ctl s h = Running"
    and sv: "set_value v (w_channels (sy_world s) b) = (rv, s1, k1)" and sd: "mark_sender_dropped s1 = (s2, k2)"
  shows "waits_ok r (sy_channels s) (sy_receivers s) (sy_guards s) ((w_channels (sy_world s))(b := s2))
      (woken (k1 @ k2) ((sy_ctl s)(h := Absent)))"
    and "queue_ok (rt_queue (w_rts (sy_world s) r) @ map snd (k1 @ k2)) (woken (k1 @ k2) ((sy_ctl s)(h := Absent)))"
    and "guards_ok (sy_guards s) (sy_scopes s) ((w_channels (sy_world s))(b := s2)) (w_cancel (sy_world s))
      (woken (k1 @ k2) ((sy_ctl s)(h := Absent)))"
    and "\<forall>k \<in> set (k1 @ k2). fst k = Some r"
proof -
  note i = sys_invD [OF inv]
  let ?m = "w_channels (sy_world s)" and ?c = "(sy_ctl s)(h := Absent)"
  have e1: "settles (?m b) s1 k1" using waits_okD(2) [OF i(5)] sv by (rule set_value_settles)
  then have "chan_ok s1" by (simp add: settles_def)
  then have e2: "settles ((?m(b := s1)) b) s2 k2" using sd by (simp add: sender_dropped_settles)
  have w0: "waits_ok r (sy_channels s) (sy_receivers s) (sy_guards s) ?m ?c" using i(5) a by (simp add: waits_same)
  note w1 = settles_waits [OF e1 w0]
  show "waits_ok r (sy_channels s) (sy_receivers s) (sy_guards s) (?m(b := s2)) (woken (k1 @ k2) ?c)"
    using settles_waits [OF e2 w1] by simp
  have "queue_ok (rt_queue (w_rts (sy_world s) r)) ?c" using i(3) a by (simp add: queue_same)
  from settles_queue [OF e2 w1 settles_queue [OF e1 w0 this]]
  show "queue_ok (rt_queue (w_rts (sy_world s) r) @ map snd (k1 @ k2)) (woken (k1 @ k2) ?c)" by simp
  have "guards_ok (sy_guards s) (sy_scopes s) ?m (w_cancel (sy_world s)) ?c" using i(6) a by (simp add: guards_none)
  from settles_guards [where m = "?m(b := s1)", OF e2 settles_guards [where m = ?m, OF e1 this]]
  show "guards_ok (sy_guards s) (sy_scopes s) (?m(b := s2)) (w_cancel (sy_world s)) (woken (k1 @ k2) ?c)" by simp
  show "\<forall>k \<in> set (k1 @ k2). fst k = Some r" using settles_rts [OF e1 w0] settles_rts [OF e2 w1] by auto
qed

lemma root_goes:
  assumes roots: "roots_ok_in r w" and f: "fr_alive (w_frames w h)" "pr_detached (promise_of w h)"
    and w0: "w_rts w0 = w_rts w" "\<And>x. pr_next (promise_of w0 x) = pr_next (promise_of w x)"
      "\<And>x. pr_prev (promise_of w0 x) = pr_prev (promise_of w x)" "\<And>y. y \<noteq> h \<Longrightarrow> core w0 y = core w y"
    and w3: "w3 = (upd_frame h (\<lambda>f. f\<lparr>fr_alive := False\<rparr>) (unregister_root r h w0))\<lparr>w_channels := m\<rparr>"
  obtains x where "core w3 = (core w)(h := x)" "\<not> fr_alive x" "roots_ok_in r w3"
proof -
  define x where "x = core w3 h"
  have dead: "\<not> fr_alive x" unfolding x_def w3 by simp
  have cf: "core w3 = (core w)(h := x)"
  proof
    fix y
    show "core w3 y = ((core w)(h := x)) y"
    proof (cases "y = h")
      case False
      then have "core w3 y = core (unregister_root r h w0) y" unfolding w3 by (rule core_other)
      then show ?thesis using w0(4) [OF False] False by simp
    qed (simp add: x_def)
  qed
  obtain xs where xs: "root_chain r w xs" "set xs = live_roots (core w)" "length xs < 2 ^ 64"
    using roots by (auto simp: roots_ok_in_def)
  have h: "h \<in> set xs" using xs(2) f by (simp add: live_roots_def)
  have "root_chain r w0 xs" using xs(1) w0(1-3) by (subst root_links_frames [where w' = w]) auto
  then have "root_chain r (unregister_root r h w0) (remove1 h xs)" using h xs(3) by (intro root_chain_unregister)
  then have "root_chain r w3 (remove1 h xs)"
    unfolding w3 by (subst root_links_frames [where w' = "unregister_root r h w0"]) auto
  moreover have "set (remove1 h xs) = live_roots (core w3)"
    unfolding cf live_roots_upd using dead xs(2) root_chain_distinct [OF xs(1)] by simp
  moreover have "length (remove1 h xs) < 2 ^ 64" using xs(3) by (simp add: length_remove1 less_imp_diff_less)
  ultimately have "roots_ok_in r w3" unfolding roots_ok_in_def by blast
  with cf dead show thesis by (rule that)
qed

lemma end_root_equation:
  assumes inv: "sys_inv r s" and a: "sy_ctl s h = Running" and d: "pr_detached (promise_of (sy_world s) h)"
  obtains b rv s1 k1 s2 k2 w x where "pr_sender (promise_of (sy_world s) h) = Some b"
    "set_value (outcome_of (end_body res (promise_of (sy_world s) h))) (w_channels (sy_world s) b) = (rv, s1, k1)"
    "mark_sender_dropped s1 = (s2, k2)" "core w = (core (sy_world s))(h := x)" "\<not> fr_alive x" "roots_ok_in r w"
    "w_channels w = (w_channels (sy_world s))(b := s2)" "w_cancel w = w_cancel (sy_world s)"
    "rt_queue (w_rts w r) = rt_queue (w_rts (sy_world s) r)"
    "sys_end h res s = Some (s\<lparr>sy_world := enqueue r (map snd (k1 @ k2)) w, sy_ctl := woken (k1 @ k2) ((sy_ctl s)(h := Absent))\<rparr>)"
proof -
  note i = sys_invD [OF inv]
  let ?m = "w_channels (sy_world s)" and ?v = "outcome_of (end_body res (promise_of (sy_world s) h))"
  have f: "fr_alive (w_frames (sy_world s) h)" "pr_owner_rt (promise_of (sy_world s) h) = Some r"
    using frame_of [OF inv, of h] a d by (simp_all add: frame_fits_def)
  obtain b where b: "pr_sender (promise_of (sy_world s) h) = Some b"
    using frame_of [OF inv, of h] a d by (auto simp: frame_fits_def)
  obtain rv s1 k1 where sv: "set_value ?v (?m b) = (rv, s1, k1)" by (cases "set_value ?v (?m b)")
  obtain s2 k2 where sd: "mark_sender_dropped s1 = (s2, k2)" by (cases "mark_sender_dropped s1")
  let ?w0 = "(upd_frame h (\<lambda>f. f\<lparr>fr_done := True\<rparr>) (upd_promise h (end_body res) (sy_world s)))
    \<lparr>w_channels := ?m(b := s1)\<rparr>"
  define w3 where "w3 = (upd_frame h (\<lambda>f. f\<lparr>fr_alive := False\<rparr>) (unregister_root r h ?w0))\<lparr>w_channels := ?m(b := s2)\<rparr>"
  have fs: "final_suspend h (upd_promise h (end_body res) (sy_world s)) = Some (w3, None, k1 @ k2)"
    unfolding final_suspend_def w3_def
    by (rule final_suspend_equation [where eb = "end_body res" and oc = outcome_of])
      (use f b d sv sd in simp_all)
  obtain x where x: "core w3 = (core (sy_world s))(h := x)" "\<not> fr_alive x" "roots_ok_in r w3"
    by (rule root_goes [OF i(4) f(1) d _ _ _ _ w3_def]) (auto simp: core_def)
  have e: "sys_end h res s = Some (s\<lparr>sy_world := enqueue r (map snd (k1 @ k2)) w3, sy_ctl := woken (k1 @ k2) ((sy_ctl s)(h := Absent))\<rparr>)"
    using fs x(2) arg_cong [OF x(1), of "\<lambda>f. fr_alive (f h)"] sys_scheduled [OF root_channel_events(4) [OF inv a sv sd]]
    by (simp add: sys_end_def)
  have "w_channels w3 = ?m(b := s2)" "w_cancel w3 = w_cancel (sy_world s)" "rt_queue (w_rts w3 r) = rt_queue (w_rts (sy_world s) r)"
    by (simp_all add: w3_def)
  from that [OF b sv sd x this e] show thesis .
qed

lemma end_root_keeps:
  assumes inv: "sys_inv r s" and a: "sy_ctl s h = Running" and d: "pr_detached (promise_of (sy_world s) h)"
  shows "\<exists>t. sys_end h res s = Some t \<and> sys_inv r t"
proof -
  note i = sys_invD [OF inv]
  obtain b rv s1 k1 s2 k2 w x where e: "pr_sender (promise_of (sy_world s) h) = Some b"
    "set_value (outcome_of (end_body res (promise_of (sy_world s) h))) (w_channels (sy_world s) b) = (rv, s1, k1)"
    "mark_sender_dropped s1 = (s2, k2)" "core w = (core (sy_world s))(h := x)" "\<not> fr_alive x" "roots_ok_in r w"
    "w_channels w = (w_channels (sy_world s))(b := s2)" "w_cancel w = w_cancel (sy_world s)"
    "rt_queue (w_rts w r) = rt_queue (w_rts (sy_world s) r)"
    "sys_end h res s = Some (s\<lparr>sy_world := enqueue r (map snd (k1 @ k2)) w, sy_ctl := woken (k1 @ k2) ((sy_ctl s)(h := Absent))\<rparr>)"
    by (rule end_root_equation [OF inv a d, of res])
  let ?k = "woken (k1 @ k2) ((sy_ctl s)(h := Absent))"
  have sh: "(\<lambda>x. shape (?k x)) = (\<lambda>x. shape (sy_ctl s x))(h := Absent)"
    by (simp add: fun_eq_iff)
  have "frame_fits r (sy_channels s) (sy_scopes s) Absent x" using e(5) by (simp add: frame_fits_def)
  with i(1) have "frames_ok r (sy_channels s) (sy_scopes s) (\<lambda>x. shape (?k x)) (core w)"
    unfolding sh e(4) by (rule frames_move)
  moreover have "callers_ok (\<lambda>x. shape (?k x)) (core w)"
    using i(2) a d e(5) unfolding sh e(4) by (intro callers_outside) (simp_all add: no_callee_def)
  ultimately show ?thesis
    using root_channel_events(1-3) [OF inv a e(2,3)] e(6-10) by (simp add: sys_inv_def roots_ok_in_def)
qed

lemma end_keeps:
  assumes "sys_inv r s" and "sys_guard r (Op_end h res) s"
  shows "\<exists>t. sys_exec r (Op_end h res) s = Some t \<and> sys_inv r t"
  using assms end_called_keeps [OF assms(1), of h res] end_root_keeps [OF assms(1), of h res] by auto

end
