(* ===== verification/System_Waits.thy ===== *)
theory System_Waits
  imports System_Tasks
begin

text \<open>
  The steps of \<open>System\<close> around a wait are defined and keep the invariant: the awaiter of a receiver,
  from its making to its destruction, and the cancellation of a scope.
\<close>

section \<open>Awaiting a receiver\<close>

lemma awaiter_bound_waits:
  assumes w: "waits_ok r A R G m c" and a: "awaiter_of (c h) = None" "a \<in> R" "g \<notin> G"
  shows "waits_ok r A (R - {a}) (insert g G) (m(a := (m a)\<lparr>o_rt := Some r\<rparr>))
    (c(h := Testing \<lparr>a_state = Some a, a_scope = sp, a_guard = g\<rparr>))"
proof (rule waits_okI)
  let ?aw = "\<lparr>a_state = Some a, a_scope = sp, a_guard = g\<rparr>" and ?m' = "m(a := (m a)\<lparr>o_rt := Some r\<rparr>)"
  let ?c = "c(h := Testing ?aw)"
  have others: "a_guard aw \<noteq> g \<and> a_state aw \<noteq> Some a" if "awaiter_of (c x) = Some aw" for x aw
    using waits_okD(4) [OF w that] a(2,3) by auto
  have cx: "awaiter_of (?c x) = Some aw \<Longrightarrow> (if x = h then aw = ?aw else awaiter_of (c x) = Some aw)" for x aw
    by auto
  show "R - {a} \<subseteq> A" using waits_okD(1) [OF w] by auto
  have "chan_ok ((m a)\<lparr>o_rt := Some r\<rparr>)"
    using waits_okD(2) [OF w, of a] by (auto simp: chan_ok_def ch_resolved_def)
  then show "chan_ok (?m' b)" for b using waits_okD(2) [OF w, of b] by simp
  show "o_waiter (?m' b) = Some x \<longleftrightarrow> (\<exists>aw. ?c x = Waiting aw \<and> a_state aw = Some b)" for b x
    using waits_okD(3) [OF w, of b x] a(1) by auto
  show "a_guard aw \<in> insert g G \<and> (\<exists>b. a_state aw = Some b \<and> b \<in> A \<and> b \<notin> R - {a} \<and> o_rt (?m' b) = Some r)"
    if "awaiter_of (?c x) = Some aw" for x aw
  proof (cases "x = h")
    case True
    then show ?thesis using cx [OF that] a(2) waits_okD(1) [OF w] by auto
  next
    case False
    then have x: "awaiter_of (c x) = Some aw" using that by simp
    from awaiter_channel [OF w x] others [OF x] show ?thesis by (metis Diff_iff fun_upd_other insertI2)
  qed
  show "x = y" if "awaiter_of (?c x) = Some aw" "awaiter_of (?c y) = Some aw'"
    "a_state aw = a_state aw' \<or> a_guard aw = a_guard aw'" for x y aw aw'
    using cx [OF that(1)] cx [OF that(2)] that(3) others [of x aw] others [of y aw'] waits_okD(5) [OF w, of x aw y aw']
    by (auto split: if_splits)
qed

lemma awaiter_bound_guards:
  assumes gk: "guards_ok G S m cw c" and w: "waits_ok r A R G m c" and a: "awaiter_of (c h) = None" "a \<in> R" "g \<notin> G"
    and sp: "\<And>sc. sp = Some sc \<Longrightarrow> sc \<in> S"
  shows "guards_ok (insert g G) S (m(a := (m a)\<lparr>o_rt := Some r\<rparr>)) (upd_guard g (\<lambda>x. x\<lparr>g_scope := sp\<rparr>) cw)
    (c(h := Testing \<lparr>a_state = Some a, a_scope = sp, a_guard = g\<rparr>))"
proof (rule guards_okI)
  let ?c = "c(h := Testing \<lparr>a_state = Some a, a_scope = sp, a_guard = g\<rparr>)"
  let ?cw = "upd_guard g (\<lambda>x. x\<lparr>g_scope := sp\<rparr>) cw"
  have idle: "g_state (guards cw g) = Idle" using guards_okD(2) [OF gk a(3)] .
  have others: "a_guard aw \<noteq> g \<and> a_state aw \<noteq> Some a" if "awaiter_of (c x) = Some aw" for x aw
    using waits_okD(4) [OF w that] a(2,3) by auto
  have "bind g sp cw = Some ?cw" using idle by (simp add: bind_def)
  with guards_okD(1) [OF gk] show "cancel_inv ?cw" by (rule bind_inv)
  show "g_state (guards ?cw x) = Idle" if "x \<notin> insert g G" for x using that guards_okD(2) [OF gk, of x] by simp
  show "sc \<in> S" if "g_scope (guards ?cw x) = Some sc" for x sc
    using that guards_okD(3) [OF gk, of x sc] sp by (auto split: if_splits)
  show "guard_fits (guards ?cw (a_guard aw)) (?c x) aw ((m(a := (m a)\<lparr>o_rt := Some r\<rparr>)) b)"
    if "awaiter_of (?c x) = Some aw" "a_state aw = Some b" for x aw b
  proof (cases "x = h")
    case True
    then show ?thesis using that idle by (auto simp: guard_fits_def)
  next
    case False
    then have x: "awaiter_of (c x) = Some aw" using that by simp
    with others [OF x] guards_okD(4) [OF gk x that(2)] False that(2) show ?thesis by auto
  qed
  show "\<exists>y aw b. awaiter_of (?c y) = Some aw \<and> a_guard aw = x \<and> a_state aw = Some b \<and>
      g_cb (guards ?cw x) = Some (Cancel_waiter b y)" if "x \<in> armed_on sc ?cw" for x sc
  proof -
    have x: "x \<noteq> g" using that idle by (auto simp: armed_on_def)
    then have "x \<in> armed_on sc cw" using that by (simp add: armed_on_def)
    from guards_okD(5) [OF gk this] obtain y aw b where y: "awaiter_of (c y) = Some aw"
      "a_guard aw = x" "a_state aw = Some b" "g_cb (guards cw x) = Some (Cancel_waiter b y)" by blast
    have "y \<noteq> h" using y(1) a(1) by auto
    with x y show ?thesis by (intro exI [of _ y] exI [of _ aw] exI [of _ b]) simp
  qed
qed

lemma await_keeps:
  assumes inv: "sys_inv r s" and g: "sys_guard r (Op_await h a g) s"
  shows "\<exists>t. sys_exec r (Op_await h a g) s = Some t \<and> sys_inv r t"
proof -
  note i = sys_invD [OF inv]
  have a: "sy_ctl s h = Running" "awaiter_of (sy_ctl s h) = None" "a \<in> sy_receivers s" "g \<notin> sy_guards s"
    using g by simp_all
  let ?sp = "pr_owning_scope (promise_of (sy_world s) h)"
  let ?k = "Testing \<lparr>a_state = Some a, a_scope = ?sp, a_guard = g\<rparr>"
  let ?m = "w_channels (sy_world s)" and ?cw = "w_cancel (sy_world s)"
  let ?m' = "?m(a := (?m a)\<lparr>o_rt := Some r\<rparr>)" and ?cw' = "upd_guard g (\<lambda>x. x\<lparr>g_scope := ?sp\<rparr>) ?cw"
  have "bind g ?sp ?cw = Some ?cw'" using guards_okD(2) [OF i(6) a(4)] by (simp add: bind_def)
  then have e: "sys_await r h a g s = Some (s\<lparr>sy_world := (sy_world s)\<lparr>w_channels := ?m', w_cancel := ?cw'\<rparr>,
      sy_ctl := (sy_ctl s)(h := ?k), sy_receivers := sy_receivers s - {a}, sy_guards := insert g (sy_guards s)\<rparr>)"
    by (simp add: sys_await_def receiver_co_await_def await_transform_leaf_def receiver_set_cancel_scope_def Let_def)
  have sp: "\<And>sc. ?sp = Some sc \<Longrightarrow> sc \<in> sy_scopes s"
    using frame_of [OF inv, of h] a(1) by (simp add: frame_fits_def)
  have "queue_ok (rt_queue (w_rts (sy_world s) r)) ((sy_ctl s)(h := ?k))" using i(3) a(1) by (simp add: queue_same)
  then have "sys_inv r (s\<lparr>sy_world := (sy_world s)\<lparr>w_channels := ?m', w_cancel := ?cw'\<rparr>,
      sy_ctl := (sy_ctl s)(h := ?k), sy_receivers := sy_receivers s - {a}, sy_guards := insert g (sy_guards s)\<rparr>)"
    using frames_same [OF i(1), of ?k h] callers_same [OF i(2), of ?k h] i(4) a(1)
      awaiter_bound_waits [OF i(5) a(2-4)] awaiter_bound_guards [OF i(6,5) a(2-4) sp]
    by (simp add: sys_inv_def roots_ok_in_def)
  with e show ?thesis by simp
qed

lemma test_keeps:
  assumes inv: "sys_inv r s" and g: "sys_guard r (Op_test h) s"
  shows "\<exists>t. sys_exec r (Op_test h) s = Some t \<and> sys_inv r t"
proof -
  note i = sys_invD [OF inv]
  obtain aw where a: "sy_ctl s h = Testing aw" using g by (auto split: ctl.splits)
  then have "awaiter_of (sy_ctl s h) = Some aw" by simp
  from awaiter_channel [OF i(5) this] obtain b where "a_state aw = Some b" .
  then obtain x where x: "await_ready aw (w_channels (sy_world s)) (w_cancel (sy_world s)) = Some x"
    by (cases "await_ready aw (w_channels (sy_world s)) (w_cancel (sy_world s))")
      (auto simp: await_ready_def split: if_splits)
  let ?k = "if x then Reading aw else Binding aw"
  have e: "sys_test h s = Some (s\<lparr>sy_ctl := (sy_ctl s)(h := ?k)\<rparr>)" using a x by (simp add: sys_test_def)
  have k: "shape ?k = shape (sy_ctl s h)" using a by simp
  have "queue_ok (rt_queue (w_rts (sy_world s) r)) ((sy_ctl s)(h := ?k))" using i(3) a by (intro queue_same) simp_all
  moreover have "waits_ok r (sy_channels s) (sy_receivers s) (sy_guards s) (w_channels (sy_world s)) ((sy_ctl s)(h := ?k))"
    using i(5) a by (intro waits_same) (simp_all split: if_splits)
  moreover have "guards_ok (sy_guards s) (sy_scopes s) (w_channels (sy_world s)) (w_cancel (sy_world s)) ((sy_ctl s)(h := ?k))"
    using i(6) a by (intro guards_same) (auto simp: guard_fits_def split: if_splits)
  ultimately have "sys_inv r (s\<lparr>sy_ctl := (sy_ctl s)(h := ?k)\<rparr>)"
    using frames_same [OF i(1) k] callers_same [OF i(2) k] i(4) by (simp add: sys_inv_def)
  with e show ?thesis by simp
qed

lemma arm_result:
  assumes "arm g f w = Some (x, w')"
  obtains (late) "x = Arm_already_cancelled" "w' = w"
  | (armed) "x = Arm_armed" "g_state (guards w' g) = Armed" "g_scope (guards w g) \<noteq> None \<Longrightarrow> g_cb (guards w' g) = Some f"
      "\<And>y. g_scope (guards w' y) = g_scope (guards w y)"
      "\<And>y. y \<noteq> g \<Longrightarrow> g_state (guards w' y) = g_state (guards w y) \<and> g_cb (guards w' y) = g_cb (guards w y)"
proof (cases "x")
  case Arm_already_cancelled
  with assms late show thesis by (auto simp: arm_def Let_def split: if_splits option.splits)
next
  case Arm_armed
  show thesis
  proof (rule armed [OF Arm_armed])
    show "g_scope (guards w' y) = g_scope (guards w y)" for y
      using assms by (auto simp: arm_def Let_def split: if_splits option.splits)
    show "g_scope (guards w g) \<noteq> None \<Longrightarrow> g_cb (guards w' g) = Some f"
      using assms Arm_armed by (auto simp: arm_def Let_def split: if_splits option.splits)
    show "g_state (guards w' g) = Armed" using arm_guards(1) [OF assms, of g] Arm_armed by simp
    show "g_state (guards w' y) = g_state (guards w y) \<and> g_cb (guards w' y) = g_cb (guards w y)" if "y \<noteq> g" for y
      using arm_guards(1,2) [OF assms, of y] that by simp
  qed
qed

lemma arm_guards_ok:
  assumes gk: "guards_ok G S m cw c" and w: "waits_ok r A R G m c" and h: "c h = Binding aw" and b: "a_state aw = Some b"
    and arm: "arm (a_guard aw) (Cancel_waiter b h) cw = Some (Arm_armed, cw')"
  shows "guards_ok G S m cw' (c(h := Arming aw))"
  using arm
proof (cases rule: arm_result)
  case armed
  let ?c = "c(h := Arming aw)"
  have aw: "awaiter_of (c h) = Some aw" using h by simp
  have mine: "a_guard aw \<in> G" "g_scope (guards cw (a_guard aw)) = a_scope aw"
    using waits_okD(4) [OF w aw] guards_okD(4) [OF gk aw b] by (simp_all add: guard_fits_def)
  have cx: "awaiter_of (?c y) = awaiter_of (c y)" for y using aw by simp
  show ?thesis
  proof (rule guards_okI)
    show "cancel_inv cw'" using guards_okD(1) [OF gk] arm by (rule arm_inv)
    show "g_state (guards cw' y) = Idle" if "y \<notin> G" for y
      using that guards_okD(2) [OF gk that] armed(5) [of y] mine(1) by auto
    show "sc \<in> S" if "g_scope (guards cw' y) = Some sc" for y sc
      using that armed(4) guards_okD(3) [OF gk] by simp
    show "guard_fits (guards cw' (a_guard w')) (?c y) w' (m d)"
      if o: "awaiter_of (?c y) = Some w'" "a_state w' = Some d" for y w' d
    proof (cases "y = h")
      case True
      then show ?thesis using o armed(2,4) mine(2) by (auto simp: guard_fits_def)
    next
      case False
      have o': "awaiter_of (c y) = Some w'" using o(1) cx by simp
      then have "a_guard w' \<noteq> a_guard aw" using waits_okD(5) [OF w o' aw] False by auto
      then show ?thesis
        using guards_okD(4) [OF gk o' o(2)] armed(4) armed(5) [of "a_guard w'"] False by (simp add: guard_fits_def)
    qed
    show "\<exists>z w' d. awaiter_of (?c z) = Some w' \<and> a_guard w' = y \<and> a_state w' = Some d \<and>
        g_cb (guards cw' y) = Some (Cancel_waiter d z)" if y: "y \<in> armed_on sc cw'" for y sc
    proof (cases "y = a_guard aw")
      case True
      then have "g_cb (guards cw' y) = Some (Cancel_waiter b h)" using y armed(3,4) by (auto simp: armed_on_def)
      with True b aw show ?thesis unfolding cx by blast
    next
      case False
      then have "y \<in> armed_on sc cw" using y armed(4) armed(5) [OF False] by (simp add: armed_on_def)
      from guards_okD(5) [OF gk this] show ?thesis using armed(5) [OF False] unfolding cx by simp
    qed
  qed
qed simp

lemma arm_keeps:
  assumes inv: "sys_inv r s" and g: "sys_guard r (Op_arm_awaiter h) s"
  shows "\<exists>t. sys_exec r (Op_arm_awaiter h) s = Some t \<and> sys_inv r t"
proof -
  note i = sys_invD [OF inv]
  let ?m = "w_channels (sy_world s)" and ?cw = "w_cancel (sy_world s)"
  obtain aw where a: "sy_ctl s h = Binding aw" using g by (auto split: ctl.splits)
  then have aw: "awaiter_of (sy_ctl s h) = Some aw" by simp
  from awaiter_channel [OF i(5) aw] obtain b where b: "a_state aw = Some b" .
  have "g_state (guards ?cw (a_guard aw)) = Idle"
    using guards_okD(4) [OF i(6) aw b] a by (simp add: guard_fits_def)
  then obtain x cw where arm: "arm (a_guard aw) (Cancel_waiter b h) ?cw = Some (x, cw)"
    by (cases "arm (a_guard aw) (Cancel_waiter b h) ?cw") (auto simp: arm_def Let_def split: option.splits if_splits)
  let ?k = "case x of Arm_armed \<Rightarrow> Arming aw | Arm_already_cancelled \<Rightarrow> Reading aw"
  let ?c = "(sy_ctl s)(h := ?k)"
  have e: "sys_arm h s = Some (s\<lparr>sy_world := (sy_world s)\<lparr>w_cancel := cw\<rparr>, sy_ctl := ?c\<rparr>)"
    using a b arm by (simp add: sys_arm_def suspend_arm_def)
  have k: "shape ?k = shape (sy_ctl s h)" using a by (simp split: arm_result.splits)
  have "guards_ok (sy_guards s) (sy_scopes s) ?m cw ?c"
  proof (cases x)
    case Arm_armed
    then show ?thesis using arm_guards_ok [OF i(6,5) a b] arm by simp
  next
    case Arm_already_cancelled
    with arm have "cw = ?cw" by (cases rule: arm_result) simp_all
    with Arm_already_cancelled show ?thesis
      using i(6) a by (simp, intro guards_same) (simp_all add: guard_fits_def)
  qed
  moreover have "queue_ok (rt_queue (w_rts (sy_world s) r)) ?c"
    using i(3) a by (intro queue_same) (simp_all split: arm_result.splits)
  moreover have "waits_ok r (sy_channels s) (sy_receivers s) (sy_guards s) ?m ?c"
    using i(5) a by (intro waits_same) (simp_all split: arm_result.splits)
  ultimately have "sys_inv r (s\<lparr>sy_world := (sy_world s)\<lparr>w_cancel := cw\<rparr>, sy_ctl := ?c\<rparr>)"
    using frames_same [OF i(1) k] callers_same [OF i(2) k] i(4) by (simp add: sys_inv_def roots_ok_in_def)
  with e show ?thesis by simp
qed

text \<open>Enrolling: either the channel has been resolved meanwhile, or its waiter is recorded.\<close>

lemma enrol_waits:
  assumes w: "waits_ok r A R G m c" and h: "c h = Arming aw" "a_state aw = Some b" and n: "\<not> ch_resolved (m b)"
  shows "waits_ok r A R G (m(b := (m b)\<lparr>o_waiter := Some h\<rparr>)) (c(h := Waiting aw))"
proof (rule waits_okI)
  let ?c = "c(h := Waiting aw)" and ?m' = "m(b := (m b)\<lparr>o_waiter := Some h\<rparr>)"
  have aw: "awaiter_of (c h) = Some aw" using h(1) by simp
  have cx: "awaiter_of (?c y) = awaiter_of (c y)" for y using aw by simp
  have free: "o_waiter (m b) = None"
  proof (rule ccontr)
    assume "o_waiter (m b) \<noteq> None"
    then obtain y w' where w': "c y = Waiting w'" "a_state w' = Some b" using waits_okD(3) [OF w, of b] by blast
    then have "awaiter_of (c y) = Some w'" by simp
    from waits_okD(5) [OF w this aw] w' h show False by simp
  qed
  show "R \<subseteq> A" using waits_okD(1) [OF w] .
  have "chan_ok ((m b)\<lparr>o_waiter := Some h\<rparr>)"
    using n waits_okD(2) [OF w, of b] by (auto simp: chan_ok_def ch_resolved_def)
  then show "chan_ok (?m' d)" for d using waits_okD(2) [OF w, of d] by simp
  show "o_waiter (?m' d) = Some y \<longleftrightarrow> (\<exists>w'. ?c y = Waiting w' \<and> a_state w' = Some d)" for d y
    using free waits_okD(3) [OF w, of d y] waits_okD(3) [OF w, of b y] h by auto
  show "a_guard w' \<in> G \<and> (\<exists>d. a_state w' = Some d \<and> d \<in> A \<and> d \<notin> R \<and> o_rt (?m' d) = Some r)"
    if "awaiter_of (?c y) = Some w'" for y w'
    using waits_okD(4) [OF w, of y w'] that unfolding cx by auto
  show "y = z" if "awaiter_of (?c y) = Some w'" "awaiter_of (?c z) = Some w''"
    "a_state w' = a_state w'' \<or> a_guard w' = a_guard w''" for y z w' w''
    using waits_okD(5) [OF w, of y w' z w''] that unfolding cx by simp
qed

lemma enrol_guards:
  assumes gk: "guards_ok G S m cw c" and h: "c h = Arming aw" and k: "k = Waiting aw \<or> k = Reading aw"
    and res: "\<And>d. ch_resolved (m' d) = ch_resolved (m d)"
  shows "guards_ok G S m' cw (c(h := k))"
proof (rule guards_okI [OF guards_okD(1-3) [OF gk]])
  have cx: "awaiter_of ((c(h := k)) y) = awaiter_of (c y)" for y using h k by auto
  show "guard_fits (guards cw (a_guard w)) ((c(h := k)) y) w (m' d)"
    if w: "awaiter_of ((c(h := k)) y) = Some w" "a_state w = Some d" for y w d
  proof -
    have o: "guard_fits (guards cw (a_guard w)) (c y) w (m d)" using guards_okD(4) [OF gk _ w(2)] w(1) unfolding cx .
    show ?thesis
    proof (cases "y = h")
      case True
      then have "w = aw" using w(1) k by auto
      with o True h k show ?thesis by (auto simp: guard_fits_def res)
    qed (use o in \<open>simp add: guard_fits_def res\<close>)
  qed
  show "\<exists>z w d. awaiter_of ((c(h := k)) z) = Some w \<and> a_guard w = y \<and> a_state w = Some d \<and>
      g_cb (guards cw y) = Some (Cancel_waiter d z)" if "y \<in> armed_on sc cw" for y sc
    unfolding cx using guards_okD(5) [OF gk that] .
qed

lemma enrol_keeps:
  assumes inv: "sys_inv r s" and g: "sys_guard r (Op_enrol h) s"
  shows "\<exists>t. sys_exec r (Op_enrol h) s = Some t \<and> sys_inv r t"
proof -
  note i = sys_invD [OF inv]
  let ?m = "w_channels (sy_world s)" and ?cw = "w_cancel (sy_world s)"
  obtain aw where a: "sy_ctl s h = Arming aw" using g by (auto split: ctl.splits)
  then have "awaiter_of (sy_ctl s h) = Some aw" by simp
  from awaiter_channel [OF i(5) this] obtain b where b: "a_state aw = Some b" .
  define x where "x \<longleftrightarrow> \<not> ch_resolved (?m b)"
  let ?k = "if x then Waiting aw else Reading aw"
  let ?c = "(sy_ctl s)(h := ?k)" and ?m' = "if x then ?m(b := (?m b)\<lparr>o_waiter := Some h\<rparr>) else ?m"
  have e: "sys_enrol h s = Some (s\<lparr>sy_world := (sy_world s)\<lparr>w_channels := ?m'\<rparr>, sy_ctl := ?c\<rparr>)"
    using a b by (auto simp: sys_enrol_def suspend_enrol_def x_def ch_resolved_def)
  have k: "shape ?k = shape (sy_ctl s h)" using a by simp
  have "waits_ok r (sy_channels s) (sy_receivers s) (sy_guards s) ?m' ?c"
    using enrol_waits [OF i(5) a b] waits_same [OF i(5), of "Reading aw" h] a by (cases x) (simp_all add: x_def)
  moreover have "guards_ok (sy_guards s) (sy_scopes s) ?m' ?cw ?c"
    using i(6) a by (rule enrol_guards) (simp_all add: ch_resolved_def)
  moreover have "queue_ok (rt_queue (w_rts (sy_world s) r)) ?c"
    using i(3) a by (intro queue_same) simp_all
  ultimately have "sys_inv r (s\<lparr>sy_world := (sy_world s)\<lparr>w_channels := ?m'\<rparr>, sy_ctl := ?c\<rparr>)"
    using frames_same [OF i(1) k] callers_same [OF i(2) k] i(4) by (simp add: sys_inv_def roots_ok_in_def)
  with e show ?thesis by simp
qed

text \<open>Resuming: the guard is disarmed, the result is read, the awaiter and its receiver are gone.\<close>

lemma disarm_result:
  shows "g_scope (guards (snd (disarm g w)) y) = g_scope (guards w y)"
    and "g_state (guards (snd (disarm g w)) g) \<noteq> Armed"
    and "y \<noteq> g \<Longrightarrow> g_state (guards (snd (disarm g w)) y) = g_state (guards w y)"
    and "y \<noteq> g \<Longrightarrow> g_cb (guards (snd (disarm g w)) y) = g_cb (guards w y)"
  by (auto simp: disarm_def Let_def split: option.splits)

lemma disarm_guards_ok:
  assumes g: "guards_ok G S m cw c" and w: "waits_ok r A R G m c" and h: "c h = Reading aw"
  shows "guards_ok G S m (snd (disarm (a_guard aw) cw)) c"
proof (rule guards_okI)
  note gd = guards_okD [OF g] and dr = disarm_result [where g = "a_guard aw" and w = cw]
  have aw: "awaiter_of (c h) = Some aw" using h by simp
  have mine: "a_guard aw \<in> G" using waits_okD(4) [OF w aw] by simp
  show "cancel_inv (snd (disarm (a_guard aw) cw))" using gd(1) by (rule disarm_inv)
  show "g_state (guards (snd (disarm (a_guard aw) cw)) y) = Idle" if "y \<notin> G" for y
    using gd(2) [OF that] dr(3) [of y] mine that by auto
  show "sc \<in> S" if "g_scope (guards (snd (disarm (a_guard aw) cw)) y) = Some sc" for y sc
    using that gd(3) by (simp add: disarm_result(1))
  show "guard_fits (guards (snd (disarm (a_guard aw) cw)) (a_guard w')) (c y) w' (m b)"
    if o: "awaiter_of (c y) = Some w'" "a_state w' = Some b" for y w' b
  proof (cases "y = h")
    case True
    with gd(4) [OF o] h aw o(1) show ?thesis by (simp add: guard_fits_def disarm_result(1))
  next
    case False
    then have "a_guard w' \<noteq> a_guard aw" using waits_okD(5) [OF w o(1) aw] by auto
    with gd(4) [OF o] show ?thesis by (simp add: guard_fits_def disarm_result(1,3))
  qed
  show "\<exists>z w' b. awaiter_of (c z) = Some w' \<and> a_guard w' = y \<and> a_state w' = Some b \<and>
      g_cb (guards (snd (disarm (a_guard aw) cw)) y) = Some (Cancel_waiter b z)"
    if y: "y \<in> armed_on sc (snd (disarm (a_guard aw) cw))" for y sc
  proof -
    have n: "y \<noteq> a_guard aw" using y dr(2) by (auto simp: armed_on_def)
    then have "y \<in> armed_on sc cw" using y by (simp add: armed_on_def disarm_result(1,3))
    from gd(5) [OF this] show ?thesis unfolding dr(4) [OF n] .
  qed
qed

lemma guards_leave:
  assumes g: "guards_ok G S m cw c" and h: "awaiter_of (c h) = Some aw" and k: "awaiter_of k = None"
    and d: "g_state (guards cw (a_guard aw)) \<noteq> Armed"
  shows "guards_ok G S m cw (c(h := k))"
proof (rule guards_okI [OF guards_okD(1-3) [OF g]])
  show "guard_fits (guards cw (a_guard w)) ((c(h := k)) y) w (m b)"
    if "awaiter_of ((c(h := k)) y) = Some w" "a_state w = Some b" for y w b
    using that k guards_okD(4) [OF g, of y w b] by (auto split: if_splits)
  show "\<exists>z w b. awaiter_of ((c(h := k)) z) = Some w \<and> a_guard w = y \<and> a_state w = Some b \<and>
      g_cb (guards cw y) = Some (Cancel_waiter b z)" if y: "y \<in> armed_on sc cw" for y sc
  proof -
    from guards_okD(5) [OF g y] obtain z w b where z: "awaiter_of (c z) = Some w" "a_guard w = y" "a_state w = Some b"
      "g_cb (guards cw y) = Some (Cancel_waiter b z)" by blast
    have "z \<noteq> h" using z(1,2) h d y by (auto simp: armed_on_def)
    with z show ?thesis by (intro exI [of _ z] exI [of _ w] exI [of _ b]) simp
  qed
qed

lemma read_keeps:
  assumes inv: "sys_inv r s" and g: "sys_guard r (Op_read h) s"
  shows "\<exists>t. sys_exec r (Op_read h) s = Some t \<and> sys_inv r t"
proof -
  note i = sys_invD [OF inv]
  let ?m = "w_channels (sy_world s)" and ?cw = "w_cancel (sy_world s)"
  obtain aw where a: "sy_ctl s h = Reading aw" using g by (auto split: ctl.splits)
  then have aw: "awaiter_of (sy_ctl s h) = Some aw" by simp
  from awaiter_channel [OF i(5) aw] obtain b where b: "a_state aw = Some b" .
  let ?cw1 = "snd (disarm (a_guard aw) ?cw)"
  let ?cw2 = "snd (disarm (a_guard aw) ?cw1)" and ?m' = "?m(b := mark_receiver_dropped (?m b))"
  let ?c = "(sy_ctl s)(h := Running)"
  have "resume_value x (?m b) \<noteq> None" for x
    using waits_okD(2) [OF i(5), of b] by (auto simp: resume_value_def chan_ok_def)
  then obtain v where "resume_value (already_cancelled (a_scope aw) ?cw1) (?m b) = Some v" by blast
  then have e: "sys_read h s = Some (s\<lparr>sy_world := (sy_world s)\<lparr>w_channels := ?m', w_cancel := ?cw2\<rparr>, sy_ctl := ?c\<rparr>)"
    using a b by (simp add: sys_read_def await_resume_def awaiter_destroy_def receiver_destroy_def)
  have dropped: "settles (?m b) (mark_receiver_dropped (?m b)) []"
    using waits_okD(2) [OF i(5)] by (rule receiver_dropped_settles)
  have "guards_ok (sy_guards s) (sy_scopes s) ?m' ?cw2 (sy_ctl s)"
    using settles_guards [where m = ?m, OF dropped disarm_guards_ok [OF disarm_guards_ok [OF i(6,5) a] i(5) a]] by simp
  then have "guards_ok (sy_guards s) (sy_scopes s) ?m' ?cw2 ?c"
    using aw disarm_result(2) by (intro guards_leave) auto
  moreover have "waits_ok r (sy_channels s) (sy_receivers s) (sy_guards s) ?m' ?c"
    using settles_waits [OF dropped i(5)] a by (simp add: waits_same)
  moreover have "queue_ok (rt_queue (w_rts (sy_world s) r)) ?c" using i(3) a by (simp add: queue_same)
  ultimately have "sys_inv r (s\<lparr>sy_world := (sy_world s)\<lparr>w_channels := ?m', w_cancel := ?cw2\<rparr>, sy_ctl := ?c\<rparr>)"
    using frames_same [OF i(1), of Running h] callers_same [OF i(2), of Running h] i(4) a
    by (simp add: sys_inv_def roots_ok_in_def)
  with e show ?thesis by simp
qed

section \<open>Cancelling\<close>

text \<open>The callbacks of a scope, run one after the other.\<close>

lemma callbacks_settle:
  assumes "waits_ok r A R G m (woken k c)" and "queue_ok (q @ map snd k) (woken k c)" and "\<forall>x \<in> set k. fst x = Some r"
    and "\<forall>cb \<in> set cbs. \<exists>a h aw. cb = Cancel_waiter a h \<and> awaiter_of (c h) = Some aw \<and> a_state aw = Some a"
  shows "\<exists>m' k'. fold run_oneshot_cb cbs (m, k) = (m', k') \<and> waits_ok r A R G m' (woken k' c) \<and>
    queue_ok (q @ map snd k') (woken k' c) \<and> (\<forall>x \<in> set k'. fst x = Some r) \<and>
    (\<forall>b. ch_resolved (m b) \<longrightarrow> ch_resolved (m' b)) \<and>
    (\<forall>a h. Cancel_waiter a h \<in> set cbs \<longrightarrow> ch_resolved (m' a))"
  using assms
proof (induction cbs arbitrary: m k)
  case (Cons cb cbs)
  obtain a h aw where cb: "cb = Cancel_waiter a h" "awaiter_of (c h) = Some aw" "a_state aw = Some a"
    using Cons.prems(4) by auto
  obtain taken s' where ct: "cancel_and_take_waiter (m a) = (taken, s')" by (cases "cancel_and_take_waiter (m a)")
  let ?k = "if taken then [(o_rt s', h)] else []"
  have "o_waiter (m a) \<in> {None, Some h}"
  proof (cases "o_waiter (m a)")
    case (Some x)
    then obtain w where w: "woken k c x = Waiting w" "a_state w = Some a" using waits_okD(3) [OF Cons.prems(1)] by blast
    then have "awaiter_of (woken k c x) = Some w" by simp
    from waits_okD(5) [OF Cons.prems(1) this, of h aw] w(2) cb show ?thesis using Some by simp
  qed simp
  from callback_settles [OF waits_okD(2) [OF Cons.prems(1)] ct this]
  have e: "settles (m a) s' ?k" "ch_resolved s'" by blast+
  have run: "run_oneshot_cb cb (m, k) = (m(a := s'), k @ ?k)" using cb(1) ct by simp
  have "waits_ok r A R G (m(a := s')) (woken (k @ ?k) c)"
    using settles_waits [OF e(1) Cons.prems(1)] by simp
  moreover have "queue_ok (q @ map snd (k @ ?k)) (woken (k @ ?k) c)"
    using settles_queue [OF e(1) Cons.prems(1,2)] by simp
  moreover have "\<forall>x \<in> set (k @ ?k). fst x = Some r"
    using Cons.prems(3) settles_rts [OF e(1) Cons.prems(1)] by auto
  moreover have "\<forall>cb \<in> set cbs. \<exists>a h aw. cb = Cancel_waiter a h \<and> awaiter_of (c h) = Some aw \<and> a_state aw = Some a"
    using Cons.prems(4) by simp
  ultimately obtain m' k' where ih: "fold run_oneshot_cb cbs (m(a := s'), k @ ?k) = (m', k')"
      "waits_ok r A R G m' (woken k' c)" "queue_ok (q @ map snd k') (woken k' c)" "\<forall>x \<in> set k'. fst x = Some r"
      "\<forall>b. ch_resolved ((m(a := s')) b) \<longrightarrow> ch_resolved (m' b)"
      "\<forall>a h. Cancel_waiter a h \<in> set cbs \<longrightarrow> ch_resolved (m' a)"
    using Cons.IH [of "m(a := s')" "k @ ?k"] by blast
  have "ch_resolved (m' a)" using ih(5) [rule_format, of a] e(2) by simp
  moreover have "ch_resolved (m b) \<longrightarrow> ch_resolved (m' b)" for b
    using ih(5) [rule_format, of b] e(2) by (cases "b = a") auto
  ultimately show ?case using ih run cb(1) by (intro exI [of _ m'] exI [of _ k']) auto
qed simp

lemma fire_guards_ok:
  assumes gk: "guards_ok G S m cw c" and w: "waits_ok r A R G m c" and xs: "set xs = armed_on sc cw"
    and m': "\<And>b. ch_resolved (m b) \<Longrightarrow> ch_resolved (m' b)"
      "\<And>a h. Cancel_waiter a h \<in> set (callbacks xs cw) \<Longrightarrow> ch_resolved (m' a)"
  shows "guards_ok G S m' (fire_all sc xs (upd_scope sc (\<lambda>r. r\<lparr>s_cancelled := True\<rparr>) cw)) (woken ks c)"
proof (rule guards_okI)
  let ?cw' = "fire_all sc xs (upd_scope sc (\<lambda>r. r\<lparr>s_cancelled := True\<rparr>) cw)"
  have g': "g_scope (guards ?cw' y) = g_scope (guards cw y)"
      "g_state (guards ?cw' y) = (if y \<in> set xs then Fired else g_state (guards cw y))"
      "y \<notin> set xs \<Longrightarrow> g_cb (guards ?cw' y) = g_cb (guards cw y)" for y
    by (simp_all add: fire_all_def)
  show "cancel_inv ?cw'" using guards_okD(1) [OF gk] xs by (rule fire_all_inv)
  show "g_state (guards ?cw' y) = Idle" if "y \<notin> G" for y
    using guards_okD(2) [OF gk that] xs by (auto simp: g'(2) armed_on_def)
  show "t \<in> S" if "g_scope (guards ?cw' y) = Some t" for y t
    using that guards_okD(3) [OF gk] by (simp add: g'(1))
  show "guard_fits (guards ?cw' (a_guard aw)) (woken ks c h) aw (m' a)"
    if o: "awaiter_of (woken ks c h) = Some aw" "a_state aw = Some a" for h aw a
  proof -
    have oh: "awaiter_of (c h) = Some aw" using o(1) by simp
    have "g_state (guards cw (a_guard aw)) = Armed \<and> ch_resolved (m' a)" if y: "a_guard aw \<in> set xs"
    proof -
      have y': "a_guard aw \<in> armed_on sc cw" using y xs by simp
      from guards_okD(5) [OF gk y'] obtain z w' b where z: "awaiter_of (c z) = Some w'"
        "a_guard w' = a_guard aw" "a_state w' = Some b" "g_cb (guards cw (a_guard aw)) = Some (Cancel_waiter b z)" by blast
      then have "z = h" using waits_okD(5) [OF w z(1) oh] by simp
      then have "b = a" using z(1,3) oh o(2) by simp
      then have "Cancel_waiter a z \<in> set (callbacks xs cw)" using z(4) y by (force simp: callbacks_def)
      then show ?thesis using m'(2) y' by (auto simp: armed_on_def)
    qed
    then show ?thesis
      using guards_okD(4) [OF gk oh o(2)] m'(1) woken_state [of ks c h aw] unfolding guard_fits_def g' woken_state by auto
  qed
  show "\<exists>h aw a. awaiter_of (woken ks c h) = Some aw \<and> a_guard aw = y \<and> a_state aw = Some a \<and>
      g_cb (guards ?cw' y) = Some (Cancel_waiter a h)" if y: "y \<in> armed_on t ?cw'" for y t
  proof -
    have n: "y \<notin> set xs" using y by (auto simp: armed_on_def g')
    then have "y \<in> armed_on t cw" using y by (simp add: armed_on_def g')
    from guards_okD(5) [OF gk this] show ?thesis unfolding g'(3) [OF n] woken_frames .
  qed
qed

lemma cancel_keeps:
  assumes inv: "sys_inv r s"
  shows "\<exists>t. sys_exec r (Op_cancel_scope sc) s = Some t \<and> sys_inv r t"
proof (cases "cancelled sc (w_cancel (sy_world s))")
  case True
  then show ?thesis using inv by (simp add: sys_cancel_def cancel_def sys_schedule_def)
next
  case False
  note i = sys_invD [OF inv]
  let ?m = "w_channels (sy_world s)" and ?cw = "w_cancel (sy_world s)"
  obtain xs where xs: "scope_chain sc ?cw xs" "set xs = armed_on sc ?cw" and
    c: "cancel_locked run_oneshot_cb sc ?cw (?m, []) =
       Some (fire_all sc xs (upd_scope sc (\<lambda>r. r\<lparr>s_cancelled := True\<rparr>) ?cw), fold run_oneshot_cb (callbacks xs ?cw) (?m, []))"
    by (rule cancel_locked_drains [OF guards_okD(1) [OF i(6)] False])
  let ?cw' = "fire_all sc xs (upd_scope sc (\<lambda>r. r\<lparr>s_cancelled := True\<rparr>) ?cw)"
  have cbs: "\<forall>cb \<in> set (callbacks xs ?cw). \<exists>a h aw. cb = Cancel_waiter a h \<and> awaiter_of (sy_ctl s h) = Some aw \<and> a_state aw = Some a"
    using guards_okD(5) [OF i(6)] xs(2) by (fastforce simp: callbacks_def)
  obtain m' k' where f: "fold run_oneshot_cb (callbacks xs ?cw) (?m, []) = (m', k')"
      "waits_ok r (sy_channels s) (sy_receivers s) (sy_guards s) m' (woken k' (sy_ctl s))"
      "queue_ok (rt_queue (w_rts (sy_world s) r) @ map snd k') (woken k' (sy_ctl s))" "\<forall>x \<in> set k'. fst x = Some r"
      "\<forall>b. ch_resolved (?m b) \<longrightarrow> ch_resolved (m' b)"
      "\<forall>a h. Cancel_waiter a h \<in> set (callbacks xs ?cw) \<longrightarrow> ch_resolved (m' a)"
    using callbacks_settle [of r "sy_channels s" "sy_receivers s" "sy_guards s" ?m "[]" "sy_ctl s"
        "rt_queue (w_rts (sy_world s) r)" "callbacks xs ?cw"] i(3,5) cbs by auto
  have "guards_ok (sy_guards s) (sy_scopes s) m' ?cw' (woken k' (sy_ctl s))"
    using i(6,5) xs(2) by (rule fire_guards_ok) (use f(5,6) in blast)+
  then have "sys_inv r (s\<lparr>sy_world := enqueue r (map snd k') ((sy_world s)\<lparr>w_cancel := ?cw', w_channels := m'\<rparr>),
      sy_ctl := woken k' (sy_ctl s)\<rparr>)"
    using f i by (simp add: sys_inv_def roots_ok_in_def)
  moreover have "sys_cancel sc s = Some (s\<lparr>sy_world := enqueue r (map snd k') ((sy_world s)\<lparr>w_cancel := ?cw', w_channels := m'\<rparr>),
      sy_ctl := woken k' (sy_ctl s)\<rparr>)"
    using c False f(1) sys_scheduled [OF f(4)] by (simp add: sys_cancel_def cancel_def)
  ultimately show ?thesis by simp
qed

end
