(* ===== verification/System_Safe.thy ===== *)
theory System_Safe
  imports System_Waits
begin

text \<open>
  Every step of \<open>System\<close> that the rules of ownership allow is defined and keeps the invariant, so every state
  that a program can reach has it.
\<close>

section \<open>Every reachable state\<close>

lemma sys_step_keeps:
  assumes "sys_inv r s" and "sys_guard r op s"
  shows "\<exists>t. sys_exec r op s = Some t \<and> sys_inv r t"
proof (cases op)
  case Op_take then show ?thesis using take_keeps assms by simp
next
  case (Op_create h) then show ?thesis using create_keeps assms by simp
next
  case (Op_drop_task h) then show ?thesis using drop_task_keeps assms by simp
next
  case (Op_spawn h sc a) then show ?thesis using spawn_keeps assms by simp
next
  case (Op_make a) then show ?thesis using make_keeps assms by simp
next
  case (Op_send a v) then show ?thesis using channel_events_keep(1) assms by simp
next
  case (Op_drop_sender a) then show ?thesis using channel_events_keep(2) assms by simp
next
  case (Op_drop_receiver a) then show ?thesis using channel_events_keep(3) assms by simp
next
  case (Op_call h c) then show ?thesis using call_keeps assms by simp
next
  case (Op_return h) then show ?thesis using return_keeps assms by simp
next
  case (Op_end h res) then show ?thesis using end_keeps assms by simp
next
  case (Op_await h a g) then show ?thesis using await_keeps assms by simp
next
  case (Op_test h) then show ?thesis using test_keeps assms by simp
next
  case (Op_arm_awaiter h) then show ?thesis using arm_keeps assms by simp
next
  case (Op_enrol h) then show ?thesis using enrol_keeps assms by simp
next
  case (Op_read h) then show ?thesis using read_keeps assms by simp
next
  case (Op_cancel_scope sc) then show ?thesis using cancel_keeps assms by simp
qed

lemma reach_inv: "sys_reach r s \<Longrightarrow> sys_inv r s"
proof (induction rule: sys_reach.induct)
  case reach_start
  show ?case by (rule new_system_inv)
next
  case (reach_step s op s')
  then show ?case using sys_step_keeps [of r s op] by auto
qed

end
