(* ===== verification/System_Calls.thy ===== *)
theory System_Calls
  imports System_Safe
begin

text \<open>
  Who calls whom in a system of \<open>System\<close>: the calls form a forest, whose roots are the coroutines
  that were spawned, and every coroutine of a tree runs and waits under the scope of its root.
\<close>

section \<open>The forest of calls\<close>

definition call_edges :: "(handle \<Rightarrow> ctl) \<Rightarrow> (handle \<times> handle) set" where
  "call_edges c = {(p, h). c p = Calling h \<or> c p = Returning h}"

text \<open>\<open>o\<close> is the scope of each coroutine, \<^verbatim>\<open>owning_scope\<close> of its promise.\<close>

definition calls_ok :: "(handle \<Rightarrow> ctl) \<Rightarrow> (handle \<Rightarrow> scope_ptr) \<Rightarrow> bool" where
  "calls_ok c ow \<longleftrightarrow> finite {h. c h \<noteq> Absent} \<and> acyclic (call_edges c) \<and>
     (\<forall>p h. (p, h) \<in> call_edges c \<longrightarrow> ow h = ow p) \<and>
     (\<forall>h aw. awaiter_of (c h) = Some aw \<longrightarrow> a_scope aw = ow h) \<and>
     (\<forall>h. in_body (c h) \<longrightarrow> ow h \<noteq> None)"

definition scopes_of :: "('e, 'v) system \<Rightarrow> handle \<Rightarrow> scope_ptr" where
  "scopes_of s h = pr_owning_scope (promise_of (sy_world s) h)"

lemma calls_okD:
  assumes "calls_ok c ow"
  shows "finite {h. c h \<noteq> Absent}" and "acyclic (call_edges c)"
    and "(p, h) \<in> call_edges c \<Longrightarrow> ow h = ow p"
    and "awaiter_of (c h) = Some aw \<Longrightarrow> a_scope aw = ow h"
    and "in_body (c h) \<Longrightarrow> ow h \<noteq> None"
  using assms unfolding calls_ok_def by blast+

lemma calls_okI:
  assumes "finite {h. c h \<noteq> Absent}" and "acyclic (call_edges c)"
    and "\<And>p h. (p, h) \<in> call_edges c \<Longrightarrow> ow h = ow p"
    and "\<And>h aw. awaiter_of (c h) = Some aw \<Longrightarrow> a_scope aw = ow h"
    and "\<And>h. in_body (c h) \<Longrightarrow> ow h \<noteq> None"
  shows "calls_ok c ow"
  unfolding calls_ok_def using assms by simp

lemma wakes_ctl_calls [simp]:
  "wakes_ctl k = Calling h \<longleftrightarrow> k = Calling h" "wakes_ctl k = Returning h \<longleftrightarrow> k = Returning h"
  "wakes_ctl k = Absent \<longleftrightarrow> k = Absent" "in_body (wakes_ctl k) = in_body k"
  by (auto simp: wakes_ctl_def in_body_def split: ctl.splits)

lemma in_body_awaiter [simp]: "awaiter_of k = Some aw \<Longrightarrow> in_body k" "in_body Queued"
  by (auto simp: in_body_def)

lemma woken_calls [simp]:
  "woken ks c p = Calling h \<longleftrightarrow> c p = Calling h" "woken ks c p = Returning h \<longleftrightarrow> c p = Returning h"
  "woken ks c p = Absent \<longleftrightarrow> c p = Absent" "in_body (woken ks c p) = in_body (c p)"
  by (induction ks arbitrary: c) auto

lemma calls_woken [simp]: "calls_ok (woken ks c) ow = calls_ok c ow"
  by (simp add: calls_ok_def call_edges_def)

text \<open>A coroutine goes on, without calling another.\<close>

lemma calls_move:
  assumes "calls_ok c ow" and "\<And>x. k = Calling x \<or> k = Returning x \<Longrightarrow> (h, x) \<in> call_edges c"
    and "\<And>aw. awaiter_of k = Some aw \<Longrightarrow> a_scope aw = ow h" and "in_body k \<Longrightarrow> in_body (c h)"
  shows "calls_ok (c(h := k)) ow"
proof (rule calls_okI)
  note d = calls_okD [OF assms(1)]
  have sub: "call_edges (c(h := k)) \<subseteq> call_edges c"
    using assms(2) by (auto simp: call_edges_def split: if_splits)
  show "acyclic (call_edges (c(h := k)))" using d(2) sub by (rule acyclic_subset)
  show "finite {x. (c(h := k)) x \<noteq> Absent}"
    by (rule finite_subset [of _ "insert h {x. c x \<noteq> Absent}"]) (use d(1) in auto)
  show "ow x = ow p" if "(p, x) \<in> call_edges (c(h := k))" for p x using that sub d(3) by blast
  show "a_scope aw = ow x" if "awaiter_of ((c(h := k)) x) = Some aw" for x aw
    using that assms(3) d(4) [of x] by (auto split: if_splits)
  show "ow x \<noteq> None" if "in_body ((c(h := k)) x)" for x
    using that assms(4) d(5) [of x] by (auto split: if_splits)
qed

text \<open>A coroutine that no other one calls gets a new scope, or none when it does not run.\<close>

lemma calls_fresh:
  assumes "calls_ok c ow" and "\<And>p. (p, h) \<notin> call_edges c" and "\<forall>x. k \<noteq> Calling x \<and> k \<noteq> Returning x"
    and "awaiter_of k = None" and "in_body k \<Longrightarrow> sc \<noteq> None"
  shows "calls_ok (c(h := k)) (ow(h := sc))"
proof (rule calls_okI)
  note d = calls_okD [OF assms(1)]
  have sub: "call_edges (c(h := k)) \<subseteq> {(p, x) \<in> call_edges c. p \<noteq> h \<and> x \<noteq> h}"
    using assms(2,3) by (auto simp: call_edges_def split: if_splits)
  then show "acyclic (call_edges (c(h := k)))" by (blast intro: acyclic_subset [OF d(2)])
  show "finite {x. (c(h := k)) x \<noteq> Absent}"
    by (rule finite_subset [of _ "insert h {x. c x \<noteq> Absent}"]) (use d(1) in auto)
  show "(ow(h := sc)) x = (ow(h := sc)) p" if "(p, x) \<in> call_edges (c(h := k))" for p x
    using that sub d(3) [of p x] by auto
  show "a_scope aw = (ow(h := sc)) x" if "awaiter_of ((c(h := k)) x) = Some aw" for x aw
    using that assms(4) d(4) [of x] by (auto split: if_splits)
  show "(ow(h := sc)) x \<noteq> None" if "in_body ((c(h := k)) x)" for x
    using that assms(5) d(5) [of x] by (auto split: if_splits)
qed

text \<open>A call: the callee has not been called before and calls nobody.\<close>

lemma calls_call:
  assumes "calls_ok c ow" and "c h = Running" and "c x = Created" and "\<And>p. (p, x) \<notin> call_edges c"
  shows "calls_ok (c(h := Calling x, x := Running)) (ow(x := ow h))"
proof (rule calls_okI)
  note d = calls_okD [OF assms(1)]
  let ?c = "c(h := Calling x, x := Running)"
  have hx: "h \<noteq> x" using assms(2,3) by auto
  have e: "call_edges ?c = insert (h, x) (call_edges c)"
    using assms(2,3) hx by (auto simp: call_edges_def split: if_splits)
  have "(x, h) \<notin> (call_edges c)\<^sup>*"
  proof
    assume "(x, h) \<in> (call_edges c)\<^sup>*"
    then show False
    proof (cases rule: converse_rtranclE)
      case (step y)
      then show False using assms(3) by (simp add: call_edges_def)
    qed (use hx in simp)
  qed
  then show "acyclic (call_edges ?c)" unfolding e using d(2) by (simp add: acyclic_insert)
  show "finite {y. ?c y \<noteq> Absent}"
    by (rule finite_subset [of _ "insert h (insert x {x. c x \<noteq> Absent})"]) (use d(1) in auto)
  show "(ow(x := ow h)) y = (ow(x := ow h)) p" if "(p, y) \<in> call_edges ?c" for p y
    using that hx d(3) [of p y] assms(3,4) unfolding e by (auto simp: call_edges_def)
  show "a_scope aw = (ow(x := ow h)) y" if "awaiter_of (?c y) = Some aw" for y aw
    using that d(4) [of y] by (auto split: if_splits)
  show "(ow(x := ow h)) y \<noteq> None" if "in_body (?c y)" for y
    using that assms(2) hx d(5) [of y] d(5) [of h] by (auto split: if_splits)
qed

section \<open>Every step keeps it\<close>

lemma schedule_wakes_frames: "schedule_wakes ks w = Some w' \<Longrightarrow> w_frames w' = w_frames w"
  by (induction ks arbitrary: w) (auto simp: runtime_schedule_def split: option.splits)

lemma scheduled_state:
  assumes "sys_schedule ks w c s = Some t"
  shows "sy_ctl t = woken ks c" and "scopes_of t = (\<lambda>h. pr_owning_scope (promise_of w h))"
  using assms schedule_wakes_frames by (fastforce simp: sys_schedule_def scopes_of_def)+

lemma scopes_eta: "(\<lambda>h. pr_owning_scope (promise_of (sy_world s) h)) = scopes_of s"
  by (simp add: fun_eq_iff scopes_of_def)

lemma scope_core: "pr_owning_scope (promise_of w h) = pr_owning_scope (fr_promise (core w h))"
  by (simp add: core_def)

lemma destroy_frame_scope:
  "destroy_frame h w = Some (w', ks) \<Longrightarrow> pr_owning_scope (promise_of w' x) = pr_owning_scope (promise_of w x)"
  by (auto simp: destroy_frame_def split: if_splits prod.splits)

lemma final_suspend_scope:
  assumes "final_suspend h w = Some (w', n, ks)"
  shows "pr_owning_scope (promise_of w' x) = pr_owning_scope (promise_of w x)"
proof -
  have "pr_owning_scope (promise_of (unregister_root r n v) x) = pr_owning_scope (promise_of v x)"
    for r n and v :: "('a, 'b, 'c) world"
    unfolding scope_core core_unregister ..
  then show ?thesis
    using assms destroy_frame_scope
    by (fastforce simp: final_suspend_def final_suspend_with_def send_outcome_def Let_def
        split: if_splits prod.splits option.splits)
qed

text \<open>Nobody calls a coroutine that has not started.\<close>

lemma not_called:
  assumes "sys_inv r s" and "sy_ctl s h = Absent \<or> sy_ctl s h = Created"
  shows "(p, h) \<notin> call_edges (sy_ctl s)"
  using callers_okD(1,2) [OF sys_invD(2) [OF assms(1)], of p h] assms(2) by (auto simp: call_edges_def)

lemma step_calls_wakes:
  assumes "calls_ok (sy_ctl s) (scopes_of s)" and "sys_schedule ks w (sy_ctl s) s' = Some t"
    and "\<And>h. pr_owning_scope (promise_of w h) = scopes_of s h"
  shows "calls_ok (sy_ctl t) (scopes_of t)"
  using assms by (simp add: scheduled_state [OF assms(2)])

lemma step_calls_end:
  assumes c: "calls_ok (sy_ctl s) (scopes_of s)" and g: "sy_ctl s h = Running" and e: "sys_end h res s = Some t"
  shows "calls_ok (sy_ctl t) (scopes_of t)"
proof -
  obtain w nx ks where f: "final_suspend h (upd_promise h (end_body res) (sy_world s)) = Some (w, nx, ks)"
    using e by (auto simp: sys_end_def split: option.splits)
  have ow: "(\<lambda>x. pr_owning_scope (promise_of w x)) = scopes_of s"
    using final_suspend_scope [OF f] by (simp add: scopes_of_def fun_eq_iff)
  let ?k = "if fr_alive (w_frames w h) then Finished else Absent"
  let ?c = "(sy_ctl s)(h := ?k)"
  have m: "calls_ok ?c (scopes_of s)" using c by (rule calls_move) (auto split: if_splits)
  show ?thesis
  proof (cases nx)
    case None
    then have "sys_schedule ks w ?c s = Some t" using e f by (simp add: sys_end_def)
    from scheduled_state [OF this] show ?thesis using m ow by simp
  next
    case (Some p)
    then have cp: "?c p = Calling h" and t: "sys_schedule ks w (?c(p := Returning h)) s = Some t"
      using e f by (auto simp: sys_end_def Let_def split: if_splits)
    have "calls_ok (?c(p := Returning h)) (scopes_of s)"
      using m by (rule calls_move) (use cp in \<open>auto simp: call_edges_def\<close>)
    with scheduled_state [OF t] ow show ?thesis by simp
  qed
qed

lemma step_calls_task:
  assumes c: "calls_ok (sy_ctl s) (scopes_of s)" and inv: "sys_inv r s"
  shows "sys_guard r (Op_create h) s \<Longrightarrow> sys_exec r (Op_create h) s = Some t \<Longrightarrow> calls_ok (sy_ctl t) (scopes_of t)"
    and "sys_guard r (Op_spawn h sc a) s \<Longrightarrow> sys_spawn r h sc a s = Some t \<Longrightarrow> calls_ok (sy_ctl t) (scopes_of t)"
    and "sys_guard r (Op_drop_task h) s \<Longrightarrow> sys_exec r (Op_drop_task h) s = Some t \<Longrightarrow> calls_ok (sy_ctl t) (scopes_of t)"
    and "sys_guard r (Op_call h x) s \<Longrightarrow> sys_call h x s = Some t \<Longrightarrow> calls_ok (sy_ctl t) (scopes_of t)"
    and "sys_return h s = Some t \<Longrightarrow> calls_ok (sy_ctl t) (scopes_of t)"
proof -
  assume g: "sys_guard r (Op_create h) s" and e: "sys_exec r (Op_create h) s = Some t"
  have "scopes_of t = (scopes_of s)(h := None)"
    using e by (auto simp: scopes_of_def new_frame_def new_promise_def)
  moreover have "calls_ok ((sy_ctl s)(h := Created)) ((scopes_of s)(h := None))"
    using c g not_called [OF inv] by (intro calls_fresh) auto
  ultimately show "calls_ok (sy_ctl t) (scopes_of t)" using e by auto
next
  assume g: "sys_guard r (Op_spawn h sc a) s" and e: "sys_spawn r h sc a s = Some t"
  have f: "\<not> fr_done (w_frames (sy_world s) h)" "pr_sender (promise_of (sy_world s) h) = None"
    using frame_of [OF inv, of h] g by (auto simp: frame_fits_def split: if_splits)
  from e [unfolded sys_spawn_def spawn_equation [OF f]]
  have t: "sy_ctl t = (sy_ctl s)(h := Queued)"
      "sy_world t = enqueue r [h] (register_root r h (spawned_world r h sc a (sy_world s)))"
    by (auto simp: sys_schedule_def schedule_one)
  have "scopes_of t = (scopes_of s)(h := Some sc)"
    unfolding fun_eq_iff scopes_of_def scope_core t(2) by (simp add: core_spawned_world)
  moreover have "calls_ok ((sy_ctl s)(h := Queued)) ((scopes_of s)(h := Some sc))"
    using c g not_called [OF inv] by (intro calls_fresh) auto
  ultimately show "calls_ok (sy_ctl t) (scopes_of t)" by (simp only: t(1))
next
  assume g: "sys_guard r (Op_drop_task h) s" and e: "sys_exec r (Op_drop_task h) s = Some t"
  then obtain w ks where d: "destroy_frame h (sy_world s) = Some (w, ks)"
      and t: "sys_schedule ks w ((sy_ctl s)(h := Absent)) s = Some t"
    by (auto simp: task_destroy_def split: option.splits)
  have "calls_ok ((sy_ctl s)(h := Absent)) (scopes_of s)" using c by (rule calls_move) auto
  with scheduled_state [OF t] destroy_frame_scope [OF d] show "calls_ok (sy_ctl t) (scopes_of t)"
    by (simp add: scopes_eta)
next
  assume g: "sys_guard r (Op_call h x) s" and e: "sys_call h x s = Some t"
  have "\<not> fr_done (w_frames (sy_world s) x)"
    using frame_of [OF inv, of x] g by (auto simp: frame_fits_def)
  with e g have t: "sy_ctl t = (sy_ctl s)(h := Calling x, x := Running)"
      "scopes_of t = (scopes_of s)(x := scopes_of s h)"
    by (auto simp: sys_call_def await_transform_task_def task_set_owning_scope_def task_await_ready_def
        task_await_suspend_def scopes_of_def fun_eq_iff)
  show "calls_ok (sy_ctl t) (scopes_of t)"
    unfolding t using c g not_called [OF inv] by (intro calls_call) auto
next
  assume e: "sys_return h s = Some t"
  then obtain x w ks where d: "sy_ctl s h = Returning x" "destroy_frame x (sy_world s) = Some (w, ks)"
      and t: "sys_schedule ks w ((sy_ctl s)(h := Running, x := Absent)) s = Some t"
    by (auto simp: sys_return_def task_awaiter_destroy_def task_destroy_def split: ctl.splits option.splits)
  have "calls_ok ((sy_ctl s)(h := Running)) (scopes_of s)" using c by (rule calls_move) (simp_all add: d(1))
  then have "calls_ok ((sy_ctl s)(h := Running, x := Absent)) (scopes_of s)" by (rule calls_move) auto
  with scheduled_state [OF t] destroy_frame_scope [OF d(2)] show "calls_ok (sy_ctl t) (scopes_of t)"
    by (simp add: scopes_eta)
qed

lemma step_calls_receiver:
  assumes c: "calls_ok (sy_ctl s) (scopes_of s)"
  shows "sys_guard r (Op_await h a g) s \<Longrightarrow> sys_await r h a g s = Some t \<Longrightarrow> calls_ok (sy_ctl t) (scopes_of t)"
    and "sys_test h s = Some t \<Longrightarrow> calls_ok (sy_ctl t) (scopes_of t)"
    and "sys_arm h s = Some t \<Longrightarrow> calls_ok (sy_ctl t) (scopes_of t)"
    and "sys_enrol h s = Some t \<Longrightarrow> calls_ok (sy_ctl t) (scopes_of t)"
    and "sys_read h s = Some t \<Longrightarrow> calls_ok (sy_ctl t) (scopes_of t)"
proof -
  assume g: "sys_guard r (Op_await h a g) s" and e: "sys_await r h a g s = Some t"
  then have t: "scopes_of t = scopes_of s"
      "sy_ctl t = (sy_ctl s)(h := Testing \<lparr>a_state = Some a, a_scope = scopes_of s h, a_guard = g\<rparr>)"
    by (auto simp: sys_await_def receiver_co_await_def await_transform_leaf_def receiver_set_cancel_scope_def
        scopes_of_def [abs_def] Let_def)
  show "calls_ok (sy_ctl t) (scopes_of t)"
    unfolding t using c by (rule calls_move) (use g in auto)
next
  assume e: "sys_test h s = Some t"
  then obtain aw b where h: "sy_ctl s h = Testing aw" and t: "scopes_of t = scopes_of s"
      "sy_ctl t = (sy_ctl s)(h := if b then Reading aw else Binding aw)"
    by (auto simp: sys_test_def scopes_of_def [abs_def] split: ctl.splits)
  show "calls_ok (sy_ctl t) (scopes_of t)"
    unfolding t using c by (rule calls_move) (use h calls_okD(4) [OF c, of h] in \<open>auto split: if_splits\<close>)
next
  assume e: "sys_arm h s = Some t"
  then obtain aw x where h: "sy_ctl s h = Binding aw" and t: "scopes_of t = scopes_of s"
      "sy_ctl t = (sy_ctl s)(h := case x of Arm_armed \<Rightarrow> Arming aw | Arm_already_cancelled \<Rightarrow> Reading aw)"
    by (auto simp: sys_arm_def scopes_of_def [abs_def] split: ctl.splits)
  show "calls_ok (sy_ctl t) (scopes_of t)"
    unfolding t using c by (rule calls_move) (use h calls_okD(4) [OF c, of h] in \<open>auto split: arm_result.splits\<close>)
next
  assume e: "sys_enrol h s = Some t"
  then obtain aw b where h: "sy_ctl s h = Arming aw" and t: "scopes_of t = scopes_of s"
      "sy_ctl t = (sy_ctl s)(h := if b then Waiting aw else Reading aw)"
    by (auto simp: sys_enrol_def scopes_of_def [abs_def] split: ctl.splits option.splits prod.splits)
  show "calls_ok (sy_ctl t) (scopes_of t)"
    unfolding t using c by (rule calls_move) (use h calls_okD(4) [OF c, of h] in \<open>auto split: if_splits\<close>)
next
  assume e: "sys_read h s = Some t"
  then obtain aw where h: "sy_ctl s h = Reading aw" and t: "scopes_of t = scopes_of s" "sy_ctl t = (sy_ctl s)(h := Running)"
    by (auto simp: sys_read_def scopes_of_def [abs_def] split: ctl.splits option.splits prod.splits)
  show "calls_ok (sy_ctl t) (scopes_of t)"
    unfolding t using c by (rule calls_move) (simp_all add: h)
qed

lemma step_calls_take:
  assumes c: "calls_ok (sy_ctl s) (scopes_of s)" and e: "sys_take r s = Some t"
  shows "calls_ok (sy_ctl t) (scopes_of t)"
proof (cases "get_next_task_from_queue (w_rts (sy_world s) r)")
  case (Pair x u)
  show ?thesis
  proof (cases x)
    case (Got h)
    have sc: "scopes_of (s\<lparr>sy_world := upd_rt r (\<lambda>_. u) (sy_world s), sy_ctl := k\<rparr>) = scopes_of s" for k
      by (simp add: scopes_of_def [abs_def])
    from e Pair Got consider
        (start) "sy_ctl s h = Queued" "t = s\<lparr>sy_world := upd_rt r (\<lambda>_. u) (sy_world s), sy_ctl := (sy_ctl s)(h := Running)\<rparr>"
      | (wake) aw where "sy_ctl s h = Woken aw"
          "t = s\<lparr>sy_world := upd_rt r (\<lambda>_. u) (sy_world s), sy_ctl := (sy_ctl s)(h := Reading aw)\<rparr>"
      by (auto simp: sys_take_def Let_def split: if_splits ctl.splits)
    then show ?thesis
    proof cases
      case start
      show ?thesis unfolding start(2) sc using calls_move [OF c, of Running h] start(1) by simp
    next
      case (wake aw)
      show ?thesis unfolding wake(2) sc
        using calls_move [OF c, of "Reading aw" h] wake(1) calls_okD(4) [OF c, of h] by simp
    qed
  qed (use c e Pair in \<open>simp_all add: sys_take_def\<close>)
qed

lemma step_calls:
  assumes inv: "sys_inv r s" and c: "calls_ok (sy_ctl s) (scopes_of s)"
    and g: "sys_guard r op s" and e: "sys_exec r op s = Some t"
  shows "calls_ok (sy_ctl t) (scopes_of t)"
proof (cases op)
  case Op_take then show ?thesis using step_calls_take [OF c] e by simp
next
  case (Op_make a) then show ?thesis using c e by (auto simp: make_oneshot_def scopes_of_def [abs_def] split: prod.splits)
next
  case (Op_drop_receiver a) then show ?thesis using c e by (auto simp: scopes_of_def [abs_def])
next
  case (Op_send a v)
  then obtain res m ks where "sys_schedule ks ((sy_world s)\<lparr>w_channels := m\<rparr>) (sy_ctl s) s = Some t"
    using e by (auto split: prod.splits)
  with c show ?thesis by (rule step_calls_wakes) (simp add: scopes_of_def)
next
  case (Op_drop_sender a)
  then obtain m ks where "sys_schedule ks ((sy_world s)\<lparr>w_channels := m\<rparr>) (sy_ctl s) (s\<lparr>sy_senders := sy_senders s - {a}\<rparr>) = Some t"
    using e by (auto simp del: senders_aside split: prod.splits)
  with c show ?thesis by (rule step_calls_wakes) (simp add: scopes_of_def)
next
  case (Op_cancel_scope sc)
  then obtain cw m ks where "sys_schedule ks ((sy_world s)\<lparr>w_cancel := cw, w_channels := m\<rparr>) (sy_ctl s) s = Some t"
    using e by (auto simp: sys_cancel_def split: option.splits)
  with c show ?thesis by (rule step_calls_wakes) (simp add: scopes_of_def)
next
  case (Op_end h res) then show ?thesis using step_calls_end [OF c, of h res] g e by simp
next
  case (Op_create h) then show ?thesis using step_calls_task(1) [OF c inv, of h t] g e by blast
next
  case (Op_spawn h sc a) then show ?thesis using step_calls_task(2) [OF c inv, of h sc a t] g e by simp
next
  case (Op_drop_task h) then show ?thesis using step_calls_task(3) [OF c inv, of h t] g e by blast
next
  case (Op_call h x) then show ?thesis using step_calls_task(4) [OF c inv, of h x t] g e by simp
next
  case (Op_return h) then show ?thesis using step_calls_task(5) [OF c inv, of h t] e by simp
next
  case (Op_await h a k) then show ?thesis using step_calls_receiver(1) [OF c, of r h a k t] g e by simp
next
  case (Op_test h) then show ?thesis using step_calls_receiver(2) [OF c, of h t] e by simp
next
  case (Op_arm_awaiter h) then show ?thesis using step_calls_receiver(3) [OF c, of h t] e by simp
next
  case (Op_enrol h) then show ?thesis using step_calls_receiver(4) [OF c, of h t] e by simp
next
  case (Op_read h) then show ?thesis using step_calls_receiver(5) [OF c, of h t] e by simp
qed

lemma reach_calls: "sys_reach r s \<Longrightarrow> calls_ok (sy_ctl s) (scopes_of s)"
proof (induction rule: sys_reach.induct)
  case reach_start
  show ?case by (simp add: calls_ok_def call_edges_def new_system_def in_body_def acyclic_def)
next
  case (reach_step s op s')
  then show ?case using step_calls [of r s op s'] reach_inv by blast
qed

end
