(* ===== verification/System_Laws.thy ===== *)
theory System_Laws
  imports System_Calls
begin

text \<open>
  What holds in every state that a program can reach, whatever its coroutines do and however the
  steps of its threads interleave.
\<close>

section \<open>Consequences of the invariant\<close>

text \<open>Runs of the step function, for concrete systems.\<close>

primrec sys_run :: "nat \<Rightarrow> ('e, 'v) sys_op list \<Rightarrow> ('e, 'v) system \<Rightarrow> ('e, 'v) system option" where
  "sys_run r [] s = Some s"
| "sys_run r (op # ops) s =
     (if sys_guard r op s
      then (case sys_exec r op s of None \<Rightarrow> None | Some t \<Rightarrow> sys_run r ops t)
      else None)"

lemma sys_run_reach: "sys_reach r s \<Longrightarrow> sys_run r ops s = Some t \<Longrightarrow> sys_reach r t"
proof (induction ops arbitrary: s)
  case (Cons op ops)
  then show ?case by (auto split: if_splits option.splits intro: reach_step)
qed simp

text \<open>A coroutine that waits holds the handle in its channel, and neither event has happened.\<close>

lemma waiting_unresolved:
  assumes inv: "sys_inv r s" and w: "sy_ctl s h = Waiting aw" "a_state aw = Some a"
  shows "\<not> ch_resolved (w_channels (sy_world s) a)"
    and "a_scope aw = Some sc \<Longrightarrow> \<not> s_cancelled (scopes (w_cancel (sy_world s)) sc)"
proof -
  note i = sys_invD [OF inv]
  have "o_waiter (w_channels (sy_world s) a) = Some h" using waits_okD(3) [OF i(5)] w by blast
  then show u: "\<not> ch_resolved (w_channels (sy_world s) a)"
    using waits_okD(2) [OF i(5), of a] by (simp add: chan_ok_def)
  show "\<not> s_cancelled (scopes (w_cancel (sy_world s)) sc)" if sc: "a_scope aw = Some sc"
  proof -
    have "awaiter_of (sy_ctl s h) = Some aw" using w(1) by simp
    from guards_okD(4) [OF i(6) this w(2)] u w(1) sc
    have "a_guard aw \<in> armed_on sc (w_cancel (sy_world s))" by (simp add: guard_fits_def armed_on_def)
    then show ?thesis using guards_okD(1) [OF i(6)] by (auto simp: cancel_inv_def scope_ok_def)
  qed
qed

text \<open>The count of live roots; when it is zero nothing is between its start and its end.\<close>

lemma live_count:
  assumes "sys_inv r s"
  shows "finite (live_roots (w_frames (sy_world s)))"
    and "rt_live (w_rts (sy_world s) r) = card (live_roots (w_frames (sy_world s)))"
proof -
  obtain xs where xs: "root_chain r (sy_world s) xs" "set xs = live_roots (core (sy_world s))"
    using sys_invD(4) [OF assms] by (auto simp: roots_ok_in_def)
  have "live_roots (core (sy_world s)) = live_roots (w_frames (sy_world s))" by (simp add: live_roots_def)
  with xs have e: "set xs = live_roots (w_frames (sy_world s))" by simp
  show "finite (live_roots (w_frames (sy_world s)))" by (simp flip: e)
  show "rt_live (w_rts (sy_world s) r) = card (live_roots (w_frames (sy_world s)))"
    using xs(1) root_chain_distinct [OF xs(1)] by (simp add: root_chain_def distinct_card flip: e)
qed

lemma shape_eq:
  "shape k = Absent \<longleftrightarrow> k = Absent" "shape k = Created \<longleftrightarrow> k = Created" "shape k = Finished \<longleftrightarrow> k = Finished"
  "shape k = Calling x \<longleftrightarrow> k = Calling x" "shape k = Returning x \<longleftrightarrow> k = Returning x"
  "in_body (shape k) \<longleftrightarrow> in_body k"
  by (auto simp: in_body_def shape_def split: ctl.splits)

lemma finite_calls:
  assumes "sys_inv r s" and "calls_ok (sy_ctl s) ow"
  shows "finite (call_edges (sy_ctl s))"
proof (rule finite_subset)
  let ?A = "{h. sy_ctl s h \<noteq> Absent}"
  have "sy_ctl s h \<noteq> Absent" if "sy_ctl s p = Calling h \<or> sy_ctl s p = Returning h" for p h
    using that callers_okD(1,2) [OF sys_invD(2) [OF assms(1)], of p h] by auto
  then show "call_edges (sy_ctl s) \<subseteq> ?A \<times> ?A" by (auto simp: call_edges_def)
  show "finite (?A \<times> ?A)" using calls_okD(1) [OF assms(2)] by simp
qed

lemma started_has_root:
  assumes inv: "sys_inv r s" and c: "calls_ok (sy_ctl s) ow"
    and h: "sy_ctl s h \<noteq> Absent" "sy_ctl s h \<noteq> Created"
  shows "\<exists>p \<in> live_roots (w_frames (sy_world s)). (p, h) \<in> (call_edges (sy_ctl s))\<^sup>*"
proof -
  note i = sys_invD [OF inv]
  have "wf (call_edges (sy_ctl s))"
    using finite_calls [OF inv c] calls_okD(2) [OF c] by (rule finite_acyclic_wf)
  then show ?thesis
    using h
  proof (induction h rule: wf_induct_rule)
    case (less h)
    show ?case
    proof (cases "pr_detached (promise_of (sy_world s) h)")
      case True
      then show ?thesis using frame_of [OF inv, of h] less.prems by (auto simp: live_roots_def frame_fits_def shape_eq)
    next
      case False
      have b: "in_body (sy_ctl s h) \<or> sy_ctl s h = Finished"
        using less.prems by (auto simp: in_body_def)
      then obtain p where "pr_continuation (promise_of (sy_world s) h) = Some p"
        using callers_okD(3) [OF i(2), of h] False by (auto simp: shape_eq)
      then have p: "sy_ctl s p = Calling h \<or> sy_ctl s p = Returning h"
        using callers_okD(1,2) [OF i(2), of p h] b False by (auto simp: shape_eq)
      then have e: "(p, h) \<in> call_edges (sy_ctl s)" by (auto simp: call_edges_def)
      have "sy_ctl s p \<noteq> Absent" "sy_ctl s p \<noteq> Created" using p by auto
      then show ?thesis using less.IH [OF e] e by (blast intro: rtrancl_into_rtrancl)
    qed
  qed
qed

text \<open>Nothing is left when no coroutine has started.\<close>

lemma idle_system:
  assumes inv: "sys_inv r s" and k: "\<forall>h. sy_ctl s h = Absent \<or> sy_ctl s h = Created"
  shows "rt_queue (w_rts (sy_world s) r) = []" and "o_waiter (w_channels (sy_world s) a) = None"
    and "armed_on sc (w_cancel (sy_world s)) = {}"
proof -
  note i = sys_invD [OF inv]
  have none: "awaiter_of (sy_ctl s h) = None" "\<not> in_queue (sy_ctl s h)" "sy_ctl s h \<noteq> Waiting aw" for h aw
    using k [rule_format, of h] by auto
  show "rt_queue (w_rts (sy_world s) r) = []" using i(3) none(2) by (simp add: queue_ok_def)
  show "o_waiter (w_channels (sy_world s) a) = None"
    using waits_okD(3) [OF i(5), of a] none(3) by (cases "o_waiter (w_channels (sy_world s) a)") auto
  show "armed_on sc (w_cancel (sy_world s)) = {}"
  proof (rule ccontr)
    assume "armed_on sc (w_cancel (sy_world s)) \<noteq> {}"
    then obtain g where "g \<in> armed_on sc (w_cancel (sy_world s))" by blast
    from guards_okD(5) [OF i(6) this] none(1) show False by simp
  qed
qed

text \<open>From a coroutine that has not ended its calls lead to one that waits for no other.\<close>

lemma calls_lead_to_leaf:
  assumes inv: "sys_inv r s" and c: "calls_ok (sy_ctl s) ow" and h: "in_body (sy_ctl s h)"
  shows "\<exists>x. (h, x) \<in> (call_edges (sy_ctl s))\<^sup>* \<and> in_body (sy_ctl s x) \<and> (\<forall>y. sy_ctl s x \<noteq> Calling y)"
proof -
  have "wf ((call_edges (sy_ctl s))\<inverse>)"
    using finite_calls [OF inv c] calls_okD(2) [OF c] by (rule finite_acyclic_wf_converse)
  then show ?thesis
    using h
  proof (induction h rule: wf_induct_rule)
    case (less h)
    show ?case
    proof (cases "\<exists>y. sy_ctl s h = Calling y")
      case True
      then obtain y where y: "sy_ctl s h = Calling y" by blast
      then have "in_body (sy_ctl s y)"
        using callers_okD(1) [OF sys_invD(2) [OF inv], of h y] by (simp add: shape_eq)
      moreover have e: "(h, y) \<in> call_edges (sy_ctl s)" using y by (simp add: call_edges_def)
      ultimately show ?thesis using less.IH [of y] by (blast intro: converse_rtrancl_into_rtrancl)
    qed (use less.prems in blast)
  qed
qed

lemma same_scope_along_calls:
  assumes "calls_ok c ow" and "(h, x) \<in> (call_edges c)\<^sup>*"
  shows "ow x = ow h"
  using assms(2) by (induction rule: rtrancl_induct) (use calls_okD(3) [OF assms(1)] in simp_all)

text \<open>A coroutine that waits for no other, and is not in a channel, can go on.\<close>

definition goes_on :: "nat \<Rightarrow> ('e, 'v) system \<Rightarrow> handle \<Rightarrow> bool" where
  "goes_on r s x \<longleftrightarrow> x \<in> set (rt_queue (w_rts (sy_world s) r)) \<or> sy_ctl s x = Running \<or>
     sys_guard r (Op_test x) s \<or> sys_guard r (Op_arm_awaiter x) s \<or> sys_guard r (Op_enrol x) s \<or>
     sys_guard r (Op_read x) s \<or> sys_guard r (Op_return x) s"

lemma leaf_goes_on:
  assumes inv: "sys_inv r s" and "in_body (sy_ctl s x)" and "\<forall>y. sy_ctl s x \<noteq> Calling y"
    and "\<forall>aw. sy_ctl s x \<noteq> Waiting aw"
  shows "goes_on r s x"
  using assms(2-4) sys_invD(3) [OF inv] by (cases "sy_ctl s x") (auto simp: goes_on_def queue_ok_def)

section \<open>A program\<close>

text \<open>
  A coroutine is spawned and calls another one, which waits on a channel; then the scope of the
  root is cancelled.
\<close>

definition demo_wait :: "(nat, nat) sys_op list" where
  "demo_wait = [Op_create 2, Op_spawn 2 10 20, Op_create 3, Op_take, Op_call 2 3, Op_make 21,
     Op_await 3 21 30, Op_test 3, Op_arm_awaiter 3, Op_enrol 3]"

definition demo_awaiter :: receiver_awaiter where
  "demo_awaiter = \<lparr>a_state = Some 21, a_scope = Some 10, a_guard = 30\<rparr>"

lemmas sys_step_defs = sys_take_def sys_spawn_def sys_call_def sys_await_def sys_test_def sys_arm_def
  sys_enrol_def sys_read_def sys_cancel_def sys_schedule_def

lemmas sys_data_defs = new_system_def new_frame_def new_promise_def new_runtime_def new_guard_def new_scope_def
  new_oneshot_def upd_promise_def upd_frame_def upd_rt_def upd_guard_def upd_scope_def

lemmas sys_part_defs = spawn_def task_valid_def make_oneshot_def sender_assign_def sender_destroy_def
  task_detach_def task_release_def register_root_def schedule_def put_task_in_queue_def
  get_next_task_from_queue_def await_transform_task_def task_set_owning_scope_def task_await_ready_def
  task_await_suspend_def await_transform_leaf_def receiver_set_cancel_scope_def receiver_co_await_def
  bind_def await_ready_def already_cancelled_def cancelled_def suspend_arm_def arm_def link_locked_def
  suspend_enrol_def Let_def

lemma demo_waits:
  "\<exists>s. sys_run 0 demo_wait new_system = Some s \<and> sy_ctl s 2 = Calling 3 \<and> sy_ctl s 3 = Waiting demo_awaiter \<and>
     scopes_of s 2 = Some 10 \<and> sy_scopes s = {10}"
  by (simp add: demo_wait_def demo_awaiter_def scopes_of_def sys_step_defs sys_data_defs sys_part_defs)

lemma demo_reach:
  obtains s where "sys_reach 0 s" "sys_run 0 demo_wait new_system = Some s" "sy_ctl s 2 = Calling 3"
    "sy_ctl s 3 = Waiting demo_awaiter" "scopes_of s 2 = Some 10" "sy_scopes s = {10}"
  using demo_waits sys_run_reach [OF reach_start, of 0 demo_wait] by blast

lemma demo_cancels:
  "\<exists>s. sys_run 0 (demo_wait @ [Op_cancel_scope 10]) new_system = Some s \<and> sy_ctl s 2 = Calling 3 \<and>
     scopes_of s 2 = Some 10 \<and> s_cancelled (scopes (w_cancel (sy_world s)) 10)"
  by (simp add: demo_wait_def demo_awaiter_def scopes_of_def sys_step_defs sys_data_defs sys_part_defs
     cancel_def cancel_locked_def cancel_loop.simps unlink_locked_def cancel_and_take_waiter_def
     runtime_schedule_def wakes_ctl_def)

section \<open>Properties\<close>

text \<open>
  C1. A program of tasks and channels that keeps the rules of ownership of \<open>sys_guard\<close> has no undefined
  behaviour, however its threads interleave: in every reachable state every step that the rules allow
  has a result. No handle is resumed that is not suspended, no frame is
  used after it was destroyed or destroyed twice, no channel without a runtime wakes anybody, no
  guard is armed twice, the result of an awaited task or channel is there when it is read.
  The rules are the program's part: every task has one owner, who calls, spawns or drops it once, before it has
  started, and a receiver is awaited once, by whoever holds it. To await a null, moved-from or awaited receiver or
  an empty task breaks them, compiles all the same, and is undefined
  (\<open>null_receiver_is_dereferenced\<close>, \<open>empty_task_is_dereferenced\<close>).
\<close>

theorem allowed_steps_are_defined:
  assumes "sys_reach r s" and "sys_guard r op s"
  shows "\<exists>t. sys_exec r op s = Some t \<and> sys_reach r t"
proof -
  obtain t where "sys_exec r op s = Some t" using sys_step_keeps [OF reach_inv [OF assms(1)] assms(2)] by blast
  with assms show ?thesis by (blast intro: reach_step)
qed

theorem allowed_steps_are_defined_witness:
  "\<exists>s t. sys_run 0 demo_wait new_system = Some s \<and> sys_exec 0 (Op_cancel_scope 10) s = Some t \<and> sys_reach 0 t"
proof -
  obtain s where s: "sys_reach 0 s" "sys_run 0 demo_wait new_system = Some s" "sy_scopes s = {10}"
    by (rule demo_reach)
  then have "sys_guard 0 (Op_cancel_scope 10) s" by simp
  from allowed_steps_are_defined [OF s(1) this] s(2) show ?thesis by blast
qed

text \<open>
  C2. No wake-up is lost and none is doubled, with any number of coroutines, channels, scopes and
  threads: the run queue holds each scheduled coroutine once, and every frame in it exists and is
  suspended; a channel holds the handle of the coroutine that waits on it and no other; and as long
  as a coroutine waits its channel is not resolved and its scope is not cancelled, so whichever
  comes first finds it there.
\<close>

theorem waiting_coroutines_are_not_lost:
  assumes "sys_reach r s"
  shows "distinct (rt_queue (w_rts (sy_world s) r)) \<and>
    (\<forall>h. h \<in> set (rt_queue (w_rts (sy_world s) r)) \<longleftrightarrow> in_queue (sy_ctl s h)) \<and>
    (\<forall>h. in_queue (sy_ctl s h) \<longrightarrow> fr_alive (w_frames (sy_world s) h) \<and> \<not> fr_done (w_frames (sy_world s) h)) \<and>
    (\<forall>a h. o_waiter (w_channels (sy_world s) a) = Some h \<longleftrightarrow> (\<exists>aw. sy_ctl s h = Waiting aw \<and> a_state aw = Some a)) \<and>
    (\<forall>h aw. sy_ctl s h = Waiting aw \<longrightarrow> (\<exists>a. a_state aw = Some a \<and> \<not> ch_resolved (w_channels (sy_world s) a)) \<and>
       (\<forall>sc. a_scope aw = Some sc \<longrightarrow> \<not> s_cancelled (scopes (w_cancel (sy_world s)) sc)))"
proof -
  have inv: "sys_inv r s" using assms by (rule reach_inv)
  note i = sys_invD [OF inv]
  have "fr_alive (w_frames (sy_world s) h) \<and> \<not> fr_done (w_frames (sy_world s) h)" if "in_queue (sy_ctl s h)" for h
    using frame_of [OF inv, of h] that by (cases "sy_ctl s h") (simp_all add: frame_fits_def)
  moreover have "(\<exists>a. a_state aw = Some a \<and> \<not> ch_resolved (w_channels (sy_world s) a)) \<and>
      (\<forall>sc. a_scope aw = Some sc \<longrightarrow> \<not> s_cancelled (scopes (w_cancel (sy_world s)) sc))"
    if w: "sy_ctl s h = Waiting aw" for h aw
  proof -
    have "awaiter_of (sy_ctl s h) = Some aw" using w by simp
    from awaiter_channel [OF i(5) this] obtain a where "a_state aw = Some a" .
    with waiting_unresolved [OF inv w] show ?thesis by blast
  qed
  moreover have "o_waiter (w_channels (sy_world s) a) = Some h \<longleftrightarrow> (\<exists>aw. sy_ctl s h = Waiting aw \<and> a_state aw = Some a)"
    for a h using waits_okD(3) [OF i(5)] .
  ultimately show ?thesis using i(3) by (simp add: queue_ok_def)
qed

theorem waiting_coroutines_are_not_lost_witness:
  "\<exists>s. sys_run 0 demo_wait new_system = Some s \<and> sy_ctl s 3 = Waiting demo_awaiter \<and>
     o_waiter (w_channels (sy_world s) 21) = Some 3 \<and> \<not> ch_resolved (w_channels (sy_world s) 21) \<and>
     \<not> s_cancelled (scopes (w_cancel (sy_world s)) 10)"
proof -
  obtain s where s: "sys_reach 0 s" "sys_run 0 demo_wait new_system = Some s" "sy_ctl s 3 = Waiting demo_awaiter"
    by (rule demo_reach)
  then have w: "\<exists>aw. sy_ctl s 3 = Waiting aw \<and> a_state aw = Some 21" "a_state demo_awaiter = Some 21"
      "a_scope demo_awaiter = Some 10"
    by (simp_all add: demo_awaiter_def)
  from waiting_coroutines_are_not_lost [OF s(1)] have "o_waiter (w_channels (sy_world s) 21) = Some 3"
      "(\<exists>a. a_state demo_awaiter = Some a \<and> \<not> ch_resolved (w_channels (sy_world s) a)) \<and>
       (\<forall>sc. a_scope demo_awaiter = Some sc \<longrightarrow> \<not> s_cancelled (scopes (w_cancel (sy_world s)) sc))"
    using s(3) w(1) by blast+
  with s w show ?thesis by simp
qed

text \<open>
  C3. \<^verbatim>\<open>live_roots_\<close> counts the spawned coroutines whose frames exist, and when it is zero, which
  is when the destructor of the runtime stops waiting, no coroutine at all is between its start and
  its end: the run queue is empty, no channel holds a handle and no guard is armed, so stopping the
  workers then leaves nobody behind.
\<close>

theorem drained_runtime_has_ended:
  assumes "sys_reach r s"
  shows "rt_live (w_rts (sy_world s) r) = card {h. fr_alive (w_frames (sy_world s) h) \<and> pr_detached (promise_of (sy_world s) h)} \<and>
    (rt_live (w_rts (sy_world s) r) = 0 \<longleftrightarrow> (\<forall>h. sy_ctl s h = Absent \<or> sy_ctl s h = Created)) \<and>
    (rt_live (w_rts (sy_world s) r) = 0 \<longrightarrow> rt_queue (w_rts (sy_world s) r) = [] \<and>
       (\<forall>a. o_waiter (w_channels (sy_world s) a) = None) \<and> (\<forall>sc. armed_on sc (w_cancel (sy_world s)) = {}))"
proof -
  have inv: "sys_inv r s" and c: "calls_ok (sy_ctl s) (scopes_of s)"
    using assms by (rule reach_inv, rule reach_calls)
  have n: "rt_live (w_rts (sy_world s) r) = 0 \<longleftrightarrow> live_roots (w_frames (sy_world s)) = {}"
    using live_count [OF inv] by simp
  have idle: "rt_live (w_rts (sy_world s) r) = 0 \<longleftrightarrow> (\<forall>h. sy_ctl s h = Absent \<or> sy_ctl s h = Created)"
    unfolding n
  proof
    assume "live_roots (w_frames (sy_world s)) = {}"
    then show "\<forall>h. sy_ctl s h = Absent \<or> sy_ctl s h = Created" using started_has_root [OF inv c] by blast
  next
    assume a: "\<forall>h. sy_ctl s h = Absent \<or> sy_ctl s h = Created"
    have "h \<notin> live_roots (w_frames (sy_world s))" for h
      using a [rule_format, of h] frame_of [OF inv, of h] by (auto simp: live_roots_def frame_fits_def)
    then show "live_roots (w_frames (sy_world s)) = {}" by blast
  qed
  show ?thesis
    using idle idle_system [OF inv] live_count(2) [OF inv] by (simp add: live_roots_def)
qed

theorem drained_runtime_has_ended_witness:
  "\<exists>s. sys_run 0 demo_wait new_system = Some s \<and> rt_live (w_rts (sy_world s) 0) \<noteq> 0"
proof -
  obtain s where s: "sys_reach 0 s" "sys_run 0 demo_wait new_system = Some s" "sy_ctl s 2 = Calling 3"
    by (rule demo_reach)
  then have "\<not> (sy_ctl s 2 = Absent \<or> sy_ctl s 2 = Created)" by simp
  then have "\<not> (\<forall>h. sy_ctl s h = Absent \<or> sy_ctl s h = Created)" by blast
  with drained_runtime_has_ended [OF s(1)] s(2) show ?thesis by simp
qed

text \<open>
  C4. In a program of tasks and channels a cancelled coroutine does not hang: if the scope of a coroutine that has
  started and not ended is cancelled, then it, or the coroutine it waits for through any number of calls, is in the
  run queue, runs, or is at a point of an awaiter where it goes on by itself. So neither the await of a task nor that of a
  receiver keeps a cancelled root from ending. The other waits of the library are not in the system, and the statement
  does not hold of all of them: a cancellation can miss an operation of Asio that is armed and not initiated
  (\<open>cancel_before_initiation_is_lost\<close>), leaves a blocking function that a thread has taken alone, and can
  strand the waiters of a semaphore (\<open>cancel_strands_next_waiter\<close>).
\<close>

theorem cancelled_coroutine_goes_on:
  assumes "sys_reach r s" and "in_body (sy_ctl s h)" and "pr_owning_scope (promise_of (sy_world s) h) = Some sc"
    and "s_cancelled (scopes (w_cancel (sy_world s)) sc)"
  shows "\<exists>x. (h, x) \<in> (call_edges (sy_ctl s))\<^sup>* \<and> goes_on r s x"
proof -
  have inv: "sys_inv r s" and c: "calls_ok (sy_ctl s) (scopes_of s)"
    using assms(1) by (rule reach_inv, rule reach_calls)
  obtain x where x: "(h, x) \<in> (call_edges (sy_ctl s))\<^sup>*" "in_body (sy_ctl s x)" "\<forall>y. sy_ctl s x \<noteq> Calling y"
    using calls_lead_to_leaf [OF inv c assms(2)] by blast
  have "sy_ctl s x \<noteq> Waiting aw" for aw
  proof
    assume w: "sy_ctl s x = Waiting aw"
    then have a: "awaiter_of (sy_ctl s x) = Some aw" by simp
    have "a_scope aw = Some sc"
      using calls_okD(4) [OF c a] same_scope_along_calls [OF c x(1)] assms(3) by (simp add: scopes_of_def)
    moreover obtain b where "a_state aw = Some b" using awaiter_channel [OF sys_invD(5) [OF inv] a] by blast
    ultimately show False using waiting_unresolved(2) [OF inv w] assms(4) by blast
  qed
  then show ?thesis using leaf_goes_on [OF inv x(2,3)] x(1) by blast
qed

theorem cancelled_coroutine_goes_on_witness:
  "\<exists>s x. sys_run 0 (demo_wait @ [Op_cancel_scope 10]) new_system = Some s \<and>
     (2, x) \<in> (call_edges (sy_ctl s))\<^sup>* \<and> goes_on 0 s x"
proof -
  obtain s where s: "sys_run 0 (demo_wait @ [Op_cancel_scope 10]) new_system = Some s" "sy_ctl s 2 = Calling 3"
      "scopes_of s 2 = Some 10" "s_cancelled (scopes (w_cancel (sy_world s)) 10)"
    using demo_cancels by blast
  have "in_body (sy_ctl s 2)" using s(2) by simp
  from cancelled_coroutine_goes_on [OF sys_run_reach [OF reach_start s(1)] this _ s(4)] s(1,3)
  show ?thesis by (auto simp: scopes_of_def)
qed

end
