(* ===== verification/System_Cancel.thy ===== *)
theory System_Cancel
  imports System_Laws
begin

text \<open>
  The exact effect of cancelling a scope on a system of \<open>System\<close>: who is woken, with what result, and
  that nothing else changes.
\<close>

section \<open>The callbacks of a scope\<close>

text \<open>The channels of different awaiters are different, so the order of the callbacks does not matter.\<close>

fun cb_channel :: "oneshot_cb \<Rightarrow> nat" where
  "cb_channel (Cancel_waiter a h) = a"

fun cb_handle :: "oneshot_cb \<Rightarrow> handle" where
  "cb_handle (Cancel_waiter a h) = h"

definition cb_wakes :: "'v channels \<Rightarrow> oneshot_cb \<Rightarrow> bool" where
  "cb_wakes m cb \<longleftrightarrow> fst (cancel_and_take_waiter (m (cb_channel cb)))"

lemma run_callbacks:
  assumes "distinct (map cb_channel cbs)"
  shows "fold run_oneshot_cb cbs (m, k) =
      (\<lambda>a. if a \<in> cb_channel ` set cbs then snd (cancel_and_take_waiter (m a)) else m a,
       k @ map (\<lambda>cb. (o_rt (m (cb_channel cb)), cb_handle cb)) (filter (cb_wakes m) cbs))"
  using assms
proof (induction cbs arbitrary: m k)
  case (Cons cb cbs)
  obtain a h where cb: "cb = Cancel_waiter a h" by (cases cb)
  obtain b s where ct: "cancel_and_take_waiter (m a) = (b, s)" by (cases "cancel_and_take_waiter (m a)")
  have rt: "o_rt s = o_rt (m a)" using ct by (auto simp: cancel_and_take_waiter_def split: if_splits)
  have run: "run_oneshot_cb cb (m, k) = (m(a := s), if b then k @ [(o_rt s, h)] else k)" using cb ct by simp
  have a: "a \<notin> cb_channel ` set cbs" "distinct (map cb_channel cbs)" using Cons.prems(1) cb by auto
  have same: "cb_wakes (m(a := s)) c = cb_wakes m c" "o_rt ((m(a := s)) (cb_channel c)) = o_rt (m (cb_channel c))"
    if "c \<in> set cbs" for c
    using that a(1) by (auto simp: cb_wakes_def)
  have "filter (cb_wakes (m(a := s))) cbs = filter (cb_wakes m) cbs" using same(1) by (intro filter_cong) auto
  then have k: "map (\<lambda>c. (o_rt ((m(a := s)) (cb_channel c)), cb_handle c)) (filter (cb_wakes (m(a := s))) cbs) =
      map (\<lambda>c. (o_rt (m (cb_channel c)), cb_handle c)) (filter (cb_wakes m) cbs)"
    using same(2) by (auto intro!: map_cong)
  have m: "(if x \<in> cb_channel ` set cbs then snd (cancel_and_take_waiter ((m(a := s)) x)) else (m(a := s)) x) =
      (if x \<in> cb_channel ` set (cb # cbs) then snd (cancel_and_take_waiter (m x)) else m x)" for x
    using a(1) ct by (auto simp: cb)
  have "fold run_oneshot_cb (cb # cbs) (m, k) = fold run_oneshot_cb cbs (m(a := s), if b then k @ [(o_rt s, h)] else k)"
    by (simp add: run)
  also note Cons.IH [OF a(2), of "m(a := s)" "if b then k @ [(o_rt s, h)] else k"]
  finally show ?case unfolding k m by (simp add: cb rt ct cb_wakes_def [of m cb] cb_wakes_def [of m "Cancel_waiter a h"])
qed simp

lemma wakes_ctl_again [simp]: "wakes_ctl (wakes_ctl k) = wakes_ctl k"
  by (simp add: wakes_ctl_def split: ctl.splits)

lemma woken_at: "woken ks c h = (if h \<in> snd ` set ks then wakes_ctl (c h) else c h)"
  by (induction ks arbitrary: c) auto

section \<open>Who has a callback\<close>

lemma armed_callback:
  assumes inv: "sys_inv r s" and xs: "set xs = armed_on sc (w_cancel (sy_world s))"
  shows "Cancel_waiter a h \<in> set (callbacks xs (w_cancel (sy_world s))) \<longleftrightarrow>
    (\<exists>aw. awaiter_of (sy_ctl s h) = Some aw \<and> a_state aw = Some a \<and> a_guard aw \<in> armed_on sc (w_cancel (sy_world s)))"
proof -
  note i = sys_invD [OF inv]
  let ?cw = "w_cancel (sy_world s)"
  have cb: "\<exists>z w b. awaiter_of (sy_ctl s z) = Some w \<and> a_guard w = g \<and> a_state w = Some b \<and>
      the (g_cb (guards ?cw g)) = Cancel_waiter b z" if "g \<in> armed_on sc ?cw" for g
    using guards_okD(5) [OF i(6) that] by auto
  show ?thesis
  proof
    assume "Cancel_waiter a h \<in> set (callbacks xs ?cw)"
    then obtain g where g: "g \<in> armed_on sc ?cw" "the (g_cb (guards ?cw g)) = Cancel_waiter a h"
      using xs by (force simp: callbacks_def)
    from cb [OF g(1)] g show "\<exists>aw. awaiter_of (sy_ctl s h) = Some aw \<and> a_state aw = Some a \<and> a_guard aw \<in> armed_on sc ?cw"
      by auto
  next
    assume "\<exists>aw. awaiter_of (sy_ctl s h) = Some aw \<and> a_state aw = Some a \<and> a_guard aw \<in> armed_on sc ?cw"
    then obtain aw where aw: "awaiter_of (sy_ctl s h) = Some aw" "a_state aw = Some a" "a_guard aw \<in> armed_on sc ?cw" by blast
    from cb [OF aw(3)] obtain z w b where z: "awaiter_of (sy_ctl s z) = Some w" "a_guard w = a_guard aw" "a_state w = Some b"
      "the (g_cb (guards ?cw (a_guard aw))) = Cancel_waiter b z" by blast
    have "z = h" using waits_okD(5) [OF i(5) z(1) aw(1)] z(2) by simp
    with z aw have "the (g_cb (guards ?cw (a_guard aw))) = Cancel_waiter a h" by simp
    then show "Cancel_waiter a h \<in> set (callbacks xs ?cw)"
      using aw(3) xs by (force simp: callbacks_def)
  qed
qed

lemma callbacks_distinct:
  assumes inv: "sys_inv r s" and xs: "set xs = armed_on sc (w_cancel (sy_world s))" "distinct xs"
  shows "distinct (map cb_channel (callbacks xs (w_cancel (sy_world s))))"
proof -
  note i = sys_invD [OF inv]
  let ?cw = "w_cancel (sy_world s)"
  have "x = y" if xy: "x \<in> set xs" "y \<in> set xs" "cb_channel (the (g_cb (guards ?cw x))) = cb_channel (the (g_cb (guards ?cw y)))" for x y
  proof -
    obtain z w b where z: "awaiter_of (sy_ctl s z) = Some w" "a_guard w = x" "a_state w = Some b"
      "g_cb (guards ?cw x) = Some (Cancel_waiter b z)"
      using guards_okD(5) [OF i(6), of x sc] xy(1) xs(1) by blast
    obtain z' w' b' where z': "awaiter_of (sy_ctl s z') = Some w'" "a_guard w' = y" "a_state w' = Some b'"
      "g_cb (guards ?cw y) = Some (Cancel_waiter b' z')"
      using guards_okD(5) [OF i(6), of y sc] xy(2) xs(1) by blast
    have "z = z'" using waits_okD(5) [OF i(5) z(1) z'(1)] z(3,4) z'(3,4) xy(3) by simp
    with z z' show ?thesis by simp
  qed
  then have "inj_on (\<lambda>g. cb_channel (the (g_cb (guards ?cw g)))) (set xs)" by (auto intro: inj_onI)
  then show ?thesis using xs(2) by (simp add: callbacks_def distinct_map comp_def)
qed

text \<open>A coroutine waits under the scope exactly when its callback finds its handle in the channel.\<close>

lemma waiting_has_callback:
  assumes inv: "sys_inv r s" and w: "sy_ctl s h = Waiting aw" "a_state aw = Some a"
  shows "a_guard aw \<in> armed_on sc (w_cancel (sy_world s)) \<longleftrightarrow> a_scope aw = Some sc"
proof -
  note i = sys_invD [OF inv]
  have "awaiter_of (sy_ctl s h) = Some aw" using w(1) by simp
  from guards_okD(4) [OF i(6) this w(2)] waiting_unresolved(1) [OF inv w] w(1) show ?thesis
    by (auto simp: guard_fits_def armed_on_def)
qed

lemma wakes_waiting:
  assumes inv: "sys_inv r s" and aw: "awaiter_of (sy_ctl s h) = Some aw" "a_state aw = Some a"
  shows "cb_wakes (w_channels (sy_world s)) (Cancel_waiter a h) \<longleftrightarrow> sy_ctl s h = Waiting aw"
proof -
  note i = sys_invD [OF inv]
  have "fst (cancel_and_take_waiter (w_channels (sy_world s) a)) \<longleftrightarrow> o_waiter (w_channels (sy_world s) a) \<noteq> None"
    using waits_okD(2) [OF i(5), of a] by (auto simp: cancel_and_take_waiter_def chan_ok_def ch_resolved_def)
  also have "\<dots> \<longleftrightarrow> sy_ctl s h = Waiting aw"
  proof
    assume "o_waiter (w_channels (sy_world s) a) \<noteq> None"
    then obtain x w where x: "sy_ctl s x = Waiting w" "a_state w = Some a" using waits_okD(3) [OF i(5), of a] by blast
    then have "awaiter_of (sy_ctl s x) = Some w" by simp
    from waits_okD(5) [OF i(5) this aw(1)] x aw show "sy_ctl s h = Waiting aw" by auto
  qed (use waits_okD(3) [OF i(5), of a h] aw(2) in auto)
  finally show ?thesis by (simp add: cb_wakes_def)
qed

section \<open>The effect\<close>

text \<open>\<open>s\<close> and \<open>t\<close> are the system before and after, \<open>hs\<close> those who waited under the scope.\<close>

definition cancels_exactly :: "nat \<Rightarrow> nat \<Rightarrow> ('e, 'v) system \<Rightarrow> ('e, 'v) system \<Rightarrow> handle list \<Rightarrow> bool" where
  "cancels_exactly r sc s t hs \<longleftrightarrow>
     distinct hs \<and> set hs = {h. \<exists>aw. sy_ctl s h = Waiting aw \<and> a_scope aw = Some sc} \<and>
     rt_queue (w_rts (sy_world t) r) = rt_queue (w_rts (sy_world s) r) @ hs \<and>
     (\<forall>h. sy_ctl t h = (if h \<in> set hs then wakes_ctl (sy_ctl s h) else sy_ctl s h)) \<and>
     (\<forall>h aw a. sy_ctl s h = Waiting aw \<and> a_scope aw = Some sc \<and> a_state aw = Some a \<longrightarrow>
        (\<forall>b. resume_value b (w_channels (sy_world t) a) = Some (Inl err_cancelled))) \<and>
     (\<forall>a. (\<forall>h aw. awaiter_of (sy_ctl s h) = Some aw \<and> a_state aw = Some a \<longrightarrow> a_scope aw \<noteq> Some sc) \<longrightarrow>
        w_channels (sy_world t) a = w_channels (sy_world s) a) \<and>
     w_frames (sy_world t) = w_frames (sy_world s) \<and> s_cancelled (scopes (w_cancel (sy_world t)) sc) \<and>
     (\<forall>sc'. sc' \<noteq> sc \<longrightarrow> scopes (w_cancel (sy_world t)) sc' = scopes (w_cancel (sy_world s)) sc') \<and>
     (\<forall>g. g_scope (guards (w_cancel (sy_world s)) g) \<noteq> Some sc \<longrightarrow>
        guards (w_cancel (sy_world t)) g = guards (w_cancel (sy_world s)) g)"

lemma cancelled_before:
  assumes inv: "sys_inv r s" and c: "cancelled sc (w_cancel (sy_world s))"
  shows "sys_cancel sc s = Some s \<and> cancels_exactly r sc s s []"
proof -
  have n: "a_scope aw \<noteq> Some sc" if "sy_ctl s h = Waiting aw" for h aw
  proof -
    have "awaiter_of (sy_ctl s h) = Some aw" using that by simp
    from awaiter_channel [OF sys_invD(5) [OF inv] this] obtain a where "a_state aw = Some a" .
    from waiting_unresolved(2) [OF inv that this] c show ?thesis by (auto simp: cancelled_def)
  qed
  have "sys_cancel sc s = Some s"
    using c by (cases s; cases "sy_world s") (simp add: sys_cancel_def cancel_def sys_schedule_def)
  with n c show ?thesis by (auto simp: cancels_exactly_def cancelled_def)
qed

lemma scope_callbacks:
  assumes "sys_inv r s" and "set xs = armed_on sc (w_cancel (sy_world s))"
  shows "cb \<in> set (callbacks xs (w_cancel (sy_world s))) \<longleftrightarrow> (\<exists>aw. awaiter_of (sy_ctl s (cb_handle cb)) = Some aw \<and>
    a_state aw = Some (cb_channel cb) \<and> a_guard aw \<in> armed_on sc (w_cancel (sy_world s)))"
  using armed_callback [OF assms, of "cb_channel cb" "cb_handle cb"] by (cases cb) simp

lemma scope_wakes:
  assumes inv: "sys_inv r s" and xs: "set xs = armed_on sc (w_cancel (sy_world s))"
  shows "h \<in> cb_handle ` {cb \<in> set (callbacks xs (w_cancel (sy_world s))). cb_wakes (w_channels (sy_world s)) cb} \<longleftrightarrow>
    (\<exists>aw. sy_ctl s h = Waiting aw \<and> a_scope aw = Some sc)"
    (is "h \<in> cb_handle ` ?C \<longleftrightarrow> _")
proof
  let ?m = "w_channels (sy_world s)"
  assume "h \<in> cb_handle ` ?C"
  then obtain cb where x: "cb \<in> ?C" "cb_handle cb = h" by blast
  then obtain aw where aw: "awaiter_of (sy_ctl s h) = Some aw" "a_state aw = Some (cb_channel cb)"
      "a_guard aw \<in> armed_on sc (w_cancel (sy_world s))"
    using scope_callbacks [OF inv xs, of cb] by blast
  moreover have "cb = Cancel_waiter (cb_channel cb) h" using x(2) by (cases cb) simp
  ultimately have w: "sy_ctl s h = Waiting aw" using wakes_waiting [OF inv aw(1,2)] x(1) by simp
  with waiting_has_callback [OF inv w aw(2)] aw(3) show "\<exists>aw. sy_ctl s h = Waiting aw \<and> a_scope aw = Some sc" by blast
next
  assume "\<exists>aw. sy_ctl s h = Waiting aw \<and> a_scope aw = Some sc"
  then obtain aw where w: "sy_ctl s h = Waiting aw" "a_scope aw = Some sc" by blast
  then have aw: "awaiter_of (sy_ctl s h) = Some aw" by simp
  from awaiter_channel [OF sys_invD(5) [OF inv] this] obtain a where a: "a_state aw = Some a" .
  have "Cancel_waiter a h \<in> ?C"
    using scope_callbacks [OF inv xs, of "Cancel_waiter a h"] aw a waiting_has_callback [OF inv w(1) a] w(2)
      wakes_waiting [OF inv aw a] w(1) by auto
  then show "h \<in> cb_handle ` ?C" by force
qed

text \<open>Running the callbacks of a scope: the channels and the wake-ups after it.\<close>

lemma drain:
  assumes inv: "sys_inv r s" and xs: "scope_chain sc (w_cancel (sy_world s)) xs" "set xs = armed_on sc (w_cancel (sy_world s))"
    and cbs: "cbs = callbacks xs (w_cancel (sy_world s))" and m: "m = w_channels (sy_world s)"
  shows "fold run_oneshot_cb cbs (m, k) = (\<lambda>a. if a \<in> cb_channel ` set cbs then snd (cancel_and_take_waiter (m a)) else m a,
      k @ map (\<lambda>cb. (o_rt (m (cb_channel cb)), cb_handle cb)) (filter (cb_wakes m) cbs))"
    and "\<forall>k \<in> set (map (\<lambda>cb. (o_rt (m (cb_channel cb)), cb_handle cb)) (filter (cb_wakes m) cbs)). fst k = Some r"
proof -
  have "distinct xs" using xs(1) unfolding scope_chain_def by (rule dll_distinct)
  from run_callbacks [OF callbacks_distinct [OF inv xs(2) this]]
  show "fold run_oneshot_cb cbs (m, k) = (\<lambda>a. if a \<in> cb_channel ` set cbs then snd (cancel_and_take_waiter (m a)) else m a,
      k @ map (\<lambda>cb. (o_rt (m (cb_channel cb)), cb_handle cb)) (filter (cb_wakes m) cbs))"
    unfolding cbs .
  show "\<forall>k \<in> set (map (\<lambda>cb. (o_rt (m (cb_channel cb)), cb_handle cb)) (filter (cb_wakes m) cbs)). fst k = Some r"
    using scope_callbacks [OF inv xs(2)] waits_okD(4) [OF sys_invD(5) [OF inv]] unfolding cbs m
    by auto (metis option.inject)
qed

text \<open>The world after the drain: every channel with a callback is cancelled, the waiters are scheduled.\<close>

lemma cancel_equation:
  assumes inv: "sys_inv r s" and c: "\<not> cancelled sc (w_cancel (sy_world s))"
  obtains xs cbs hs m cw where "set xs = armed_on sc (w_cancel (sy_world s))"
    "cbs = callbacks xs (w_cancel (sy_world s))" "hs = map cb_handle (filter (cb_wakes (w_channels (sy_world s))) cbs)"
    "m = (\<lambda>a. if a \<in> cb_channel ` set cbs then snd (cancel_and_take_waiter (w_channels (sy_world s) a)) else w_channels (sy_world s) a)"
    "cw = fire_all sc xs (upd_scope sc (\<lambda>r. r\<lparr>s_cancelled := True\<rparr>) (w_cancel (sy_world s)))" "distinct hs"
    "sys_cancel sc s = Some (s\<lparr>sy_world := enqueue r hs ((sy_world s)\<lparr>w_cancel := cw, w_channels := m\<rparr>),
       sy_ctl := \<lambda>h. if h \<in> set hs then wakes_ctl (sy_ctl s h) else sy_ctl s h\<rparr>)"
proof -
  note i = sys_invD [OF inv]
  let ?m = "w_channels (sy_world s)" and ?cw = "w_cancel (sy_world s)"
  obtain xs where xs: "scope_chain sc ?cw xs" "set xs = armed_on sc ?cw" and
    cl: "cancel_locked run_oneshot_cb sc ?cw (?m, []) =
       Some (fire_all sc xs (upd_scope sc (\<lambda>r. r\<lparr>s_cancelled := True\<rparr>) ?cw), fold run_oneshot_cb (callbacks xs ?cw) (?m, []))"
    by (rule cancel_locked_drains [OF guards_okD(1) [OF i(6)] c])
  let ?cbs = "callbacks xs ?cw" and ?cw' = "fire_all sc xs (upd_scope sc (\<lambda>r. r\<lparr>s_cancelled := True\<rparr>) ?cw)"
  let ?m' = "\<lambda>a. if a \<in> cb_channel ` set ?cbs then snd (cancel_and_take_waiter (?m a)) else ?m a"
  let ?ks = "map (\<lambda>cb. (o_rt (?m (cb_channel cb)), cb_handle cb)) (filter (cb_wakes ?m) ?cbs)"
  let ?hs = "map cb_handle (filter (cb_wakes ?m) ?cbs)"
  have f: "fold run_oneshot_cb ?cbs (?m, []) = (?m', ?ks)" using drain(1) [OF inv xs refl refl, of "[]"] by simp
  have rts: "\<forall>k \<in> set ?ks. fst k = Some r" by (rule drain(2) [OF inv xs refl refl])
  have ks: "map snd ?ks = ?hs" by simp
  have ctl: "woken ?ks (sy_ctl s) = (\<lambda>h. if h \<in> set ?hs then wakes_ctl (sy_ctl s h) else sy_ctl s h)"
    by (simp add: fun_eq_iff woken_at image_image)
  let ?t = "s\<lparr>sy_world := enqueue r ?hs ((sy_world s)\<lparr>w_cancel := ?cw', w_channels := ?m'\<rparr>),
    sy_ctl := \<lambda>h. if h \<in> set ?hs then wakes_ctl (sy_ctl s h) else sy_ctl s h\<rparr>"
  have "sys_schedule ?ks ((sy_world s)\<lparr>w_cancel := ?cw', w_channels := ?m'\<rparr>) (sy_ctl s) s = Some ?t"
    by (simp only: sys_scheduled [OF rts] ctl ks)
  then have t: "sys_cancel sc s = Some ?t" using cl c f by (simp add: sys_cancel_def cancel_def)
  then have "sys_inv r ?t" using cancel_keeps [OF inv, of sc] by simp
  then have "distinct ?hs" using sys_invD(3) by (fastforce simp: queue_ok_def)
  from that [OF xs(2) refl refl refl refl this t] show thesis .
qed

lemma cancelled_now:
  assumes inv: "sys_inv r s" and c: "\<not> cancelled sc (w_cancel (sy_world s))"
  shows "\<exists>t hs. sys_cancel sc s = Some t \<and> cancels_exactly r sc s t hs"
proof -
  let ?m = "w_channels (sy_world s)" and ?cw = "w_cancel (sy_world s)"
  obtain xs cbs hs m cw where e: "set xs = armed_on sc ?cw" "cbs = callbacks xs ?cw" "hs = map cb_handle (filter (cb_wakes ?m) cbs)"
    "m = (\<lambda>a. if a \<in> cb_channel ` set cbs then snd (cancel_and_take_waiter (?m a)) else ?m a)"
    "cw = fire_all sc xs (upd_scope sc (\<lambda>r. r\<lparr>s_cancelled := True\<rparr>) ?cw)" "distinct hs"
    "sys_cancel sc s = Some (s\<lparr>sy_world := enqueue r hs ((sy_world s)\<lparr>w_cancel := cw, w_channels := m\<rparr>),
       sy_ctl := \<lambda>h. if h \<in> set hs then wakes_ctl (sy_ctl s h) else sy_ctl s h\<rparr>)" (is "_ = Some ?t")
    by (rule cancel_equation [OF inv c])
  note cb = scope_callbacks [OF inv e(1), folded e(2)]
  have cancels: "resume_value b (m a) = Some (Inl err_cancelled)"
    if w: "sy_ctl s h = Waiting aw" "a_scope aw = Some sc" "a_state aw = Some a" for h aw a b
  proof -
    have "Cancel_waiter a h \<in> set cbs"
      using cb [of "Cancel_waiter a h"] w waiting_has_callback [OF inv w(1,3)] by auto
    then have "a \<in> cb_channel ` set cbs" by force
    moreover have "\<not> ch_resolved (?m a)" using waiting_unresolved(1) [OF inv w(1,3)] .
    ultimately show ?thesis by (auto simp: e(4) resume_value_def cancel_and_take_waiter_def ch_resolved_def)
  qed
  have others: "m a = ?m a"
    if n: "\<forall>h aw. awaiter_of (sy_ctl s h) = Some aw \<and> a_state aw = Some a \<longrightarrow> a_scope aw \<noteq> Some sc" for a
  proof -
    have "a \<notin> cb_channel ` set cbs"
    proof
      assume "a \<in> cb_channel ` set cbs"
      then obtain h aw where aw: "awaiter_of (sy_ctl s h) = Some aw" "a_state aw = Some a" "a_guard aw \<in> armed_on sc ?cw"
        using cb by blast
      from guards_okD(4) [OF sys_invD(6) [OF inv] aw(1,2)] aw(3) n aw(1,2) show False
        by (auto simp: guard_fits_def armed_on_def)
    qed
    then show ?thesis by (simp add: e(4))
  qed
  have "set hs = {h. \<exists>aw. sy_ctl s h = Waiting aw \<and> a_scope aw = Some sc}"
    using scope_wakes [OF inv e(1), folded e(2)] by (auto simp: e(3))
  moreover have "guards cw g = guards ?cw g" if "g_scope (guards ?cw g) \<noteq> Some sc" for g
    using that e(1) by (simp add: e(5) fire_all_def armed_on_def)
  moreover have "s_cancelled (scopes cw sc)" "\<And>x. x \<noteq> sc \<Longrightarrow> scopes cw x = scopes ?cw x" by (simp_all add: e(5) fire_all_def)
  ultimately have "cancels_exactly r sc s ?t hs" 
    unfolding cancels_exactly_def using e(6) others by (simp, use cancels in blast)
  with e(7) show ?thesis by blast
qed

text \<open>
  C5. Cancelling a scope is exact, whatever the system is doing: it schedules each coroutine that
  waits under the scope, once, and each of them reads the error \<open>cancelled\<close>; every other
  coroutine stays where it is, every channel that nobody awaits under the scope, every frame,
  every other scope and its guards are as before. So aborting a task that joins another one ends
  the join and leaves the other task running.
\<close>

theorem cancel_is_exact:
  assumes "sys_reach r s"
  shows "\<exists>t hs. sys_exec r (Op_cancel_scope sc) s = Some t \<and> cancels_exactly r sc s t hs"
proof -
  have inv: "sys_inv r s" using assms by (rule reach_inv)
  show ?thesis
  proof (cases "cancelled sc (w_cancel (sy_world s))")
    case True
    show ?thesis using cancelled_before [OF inv True] by auto
  next
    case False
    show ?thesis using cancelled_now [OF inv False] by auto
  qed
qed

text \<open>The parent of the tests: it joins a child it has spawned, and is aborted; the child is left alone.\<close>

definition demo_join :: "(nat, nat) sys_op list" where
  "demo_join = [Op_create 2, Op_spawn 2 10 20, Op_create 3, Op_spawn 3 11 21, Op_take, Op_take, Op_make 22,
     Op_await 3 22 31, Op_test 3, Op_arm_awaiter 3, Op_enrol 3, Op_await 2 21 30, Op_test 2, Op_arm_awaiter 2, Op_enrol 2]"

lemma demo_joins:
  "\<exists>s. sys_run 0 demo_join new_system = Some s \<and>
     sy_ctl s 2 = Waiting \<lparr>a_state = Some 21, a_scope = Some 10, a_guard = 30\<rparr> \<and>
     sy_ctl s 3 = Waiting \<lparr>a_state = Some 22, a_scope = Some 11, a_guard = 31\<rparr>"
  by (simp add: demo_join_def to_size_def sys_step_defs sys_data_defs sys_part_defs)

theorem cancel_is_exact_witness:
  "\<exists>s t. sys_run 0 demo_join new_system = Some s \<and> sys_exec 0 (Op_cancel_scope 10) s = Some t \<and>
     sy_ctl t 2 = Woken \<lparr>a_state = Some 21, a_scope = Some 10, a_guard = 30\<rparr> \<and> sy_ctl t 3 = sy_ctl s 3 \<and>
     resume_value True (w_channels (sy_world t) 21) = Some (Inl err_cancelled)"
proof -
  let ?a = "\<lparr>a_state = Some 21, a_scope = Some 10, a_guard = 30\<rparr>"
  obtain s where s: "sys_run 0 demo_join new_system = Some s" "sy_ctl s 2 = Waiting ?a"
      "sy_ctl s 3 = Waiting \<lparr>a_state = Some 22, a_scope = Some 11, a_guard = 31\<rparr>"
    using demo_joins by blast
  obtain t hs where t: "sys_exec 0 (Op_cancel_scope 10) s = Some t" "cancels_exactly 0 10 s t hs"
    using cancel_is_exact [OF sys_run_reach [OF reach_start s(1)]] by blast
  note x = t(2) [unfolded cancels_exactly_def]
  have h: "2 \<in> set hs" "3 \<notin> set hs" using x s(2,3) by auto
  have "sy_ctl t h = (if h \<in> set hs then wakes_ctl (sy_ctl s h) else sy_ctl s h)" for h using x by blast
  then have "sy_ctl t 2 = Woken ?a" "sy_ctl t 3 = sy_ctl s 3" using h s(2) by (simp_all add: wakes_ctl_def)
  moreover have "sy_ctl s 2 = Waiting ?a \<and> a_scope ?a = Some 10 \<and> a_state ?a = Some 21" using s(2) by simp
  then have "resume_value True (w_channels (sy_world t) 21) = Some (Inl err_cancelled)" using x by blast
  ultimately show ?thesis using s(1) t(1) by blast
qed

end
