(* ===== verification/System_Ends.thy ===== *)
theory System_Ends
  imports System_Cancel
begin

text \<open>
  The two ends of the channels of a system of \<open>System\<close>: who holds the sender, and whether the receiver is
  still there. A root holds the sender of the channel that its join handle reads. The predicate is a second
  invariant beside \<^term>\<open>sys_inv\<close>, kept by every step that has a result.
\<close>

section \<open>The ends of a channel\<close>

text \<open>
  \<open>rs\<close> are the senders of the live roots, \<open>L\<close> the channels that have a receiver or an awaiter. The
  sender of a channel that is not resolved is held by the program or by one root, and nobody else
  sends on the channel of a root.
\<close>

definition root_sender :: "('e, 'v, 'cb) world \<Rightarrow> handle \<Rightarrow> nat option" where
  "root_sender w h = (if fr_alive (w_frames w h) \<and> pr_detached (promise_of w h) then pr_sender (promise_of w h) else None)"

definition live_receivers :: "('e, 'v) system \<Rightarrow> nat set" where
  "live_receivers s = sy_receivers s \<union> {a. \<exists>h aw. awaiter_of (sy_ctl s h) = Some aw \<and> a_state aw = Some a}"

definition ends_ok :: "nat set \<Rightarrow> nat set \<Rightarrow> nat set \<Rightarrow> (handle \<Rightarrow> nat option) \<Rightarrow> 'v channels \<Rightarrow> bool" where
  "ends_ok A B L rs m \<longleftrightarrow> B \<subseteq> A \<and> (\<forall>a \<in> A. a \<in> B \<or> (\<exists>h. rs h = Some a) \<or> ch_resolved (m a)) \<and>
     (\<forall>h a. rs h = Some a \<longrightarrow> a \<in> A \<and> a \<notin> B \<and> \<not> o_ready (m a) \<and> \<not> o_sender_dropped (m a)) \<and>
     (\<forall>h h' a. rs h = Some a \<and> rs h' = Some a \<longrightarrow> h = h') \<and> (\<forall>a \<in> L. \<not> o_receiver_dropped (m a))"

lemma ends_okD:
  assumes "ends_ok A B L rs m"
  shows "B \<subseteq> A" and "a \<in> A \<Longrightarrow> a \<in> B \<or> (\<exists>h. rs h = Some a) \<or> ch_resolved (m a)"
    and "rs h = Some a \<Longrightarrow> a \<in> A \<and> a \<notin> B \<and> \<not> o_ready (m a) \<and> \<not> o_sender_dropped (m a)"
    and "rs h = Some a \<Longrightarrow> rs h' = Some a \<Longrightarrow> h = h'" and "a \<in> L \<Longrightarrow> \<not> o_receiver_dropped (m a)"
  using assms unfolding ends_ok_def by blast+

lemma ends_okI:
  assumes "B \<subseteq> A" and "\<And>a. a \<in> A \<Longrightarrow> a \<in> B \<or> (\<exists>h. rs h = Some a) \<or> ch_resolved (m a)"
    and "\<And>h a. rs h = Some a \<Longrightarrow> a \<in> A \<and> a \<notin> B \<and> \<not> o_ready (m a) \<and> \<not> o_sender_dropped (m a)"
    and "\<And>h h' a. rs h = Some a \<Longrightarrow> rs h' = Some a \<Longrightarrow> h = h'" and "\<And>a. a \<in> L \<Longrightarrow> \<not> o_receiver_dropped (m a)"
  shows "ends_ok A B L rs m"
  unfolding ends_ok_def using assms by blast

lemma ends_quiet:
  assumes "ends_ok A B L rs m"
    and "\<And>a. ch_resolved (m a) \<Longrightarrow> ch_resolved (m' a)"
    and "\<And>a. a \<notin> B \<Longrightarrow> o_ready (m' a) = o_ready (m a) \<and> o_sender_dropped (m' a) = o_sender_dropped (m a)"
    and "\<And>a. a \<in> L' \<Longrightarrow> a \<in> L \<and> o_receiver_dropped (m' a) = o_receiver_dropped (m a)"
  shows "ends_ok A B L' rs m'"
proof (rule ends_okI)
  note d = ends_okD [OF assms(1)]
  show "B \<subseteq> A" by (rule d(1))
  show "a \<in> B \<or> (\<exists>h. rs h = Some a) \<or> ch_resolved (m' a)" if "a \<in> A" for a
    using d(2) [OF that] assms(2) by blast
  show "a \<in> A \<and> a \<notin> B \<and> \<not> o_ready (m' a) \<and> \<not> o_sender_dropped (m' a)" if "rs h = Some a" for h a
    using d(3) [OF that] assms(3) [of a] by simp
  show "h = h'" if "rs h = Some a" "rs h' = Some a" for h h' a using that by (rule d(4))
  show "\<not> o_receiver_dropped (m' a)" if "a \<in> L'" for a using assms(4) [OF that] d(5) by simp
qed

lemma ends_make:
  assumes "ends_ok A B L rs m" and "a \<notin> A"
  shows "ends_ok (insert a A) (insert a B) (insert a L) rs (m(a := new_oneshot))"
proof (rule ends_okI)
  note d = ends_okD [OF assms(1)]
  let ?m = "m(a := new_oneshot)"
  show "insert a B \<subseteq> insert a A" using d(1) by auto
  show "x \<in> insert a B \<or> (\<exists>h. rs h = Some x) \<or> ch_resolved (?m x)" if "x \<in> insert a A" for x
    using that d(2) [of x] by auto
  show "x \<in> insert a A \<and> x \<notin> insert a B \<and> \<not> o_ready (?m x) \<and> \<not> o_sender_dropped (?m x)" if "rs h = Some x" for h x
    using d(3) [OF that] assms(2) by auto
  show "h = h'" if "rs h = Some x" "rs h' = Some x" for h h' x using that by (rule d(4))
  show "\<not> o_receiver_dropped (?m x)" if "x \<in> insert a L" for x
    using that d(5) [of x] by (auto simp: new_oneshot_def)
qed

lemma ends_spawn:
  assumes "ends_ok A B L rs m" and "a \<notin> A" and "rs h = None"
  shows "ends_ok (insert a A) B (insert a L) (rs(h := Some a)) (m(a := new_oneshot))"
proof -
  note d = ends_okD [OF assms(1)]
  have n: "a \<notin> B" "rs x \<noteq> Some a" for x using d(1) d(3) [of x a] assms(2) by auto
  have "x \<in> B \<or> (\<exists>y. (rs(h := Some a)) y = Some x) \<or> ch_resolved ((m(a := new_oneshot)) x)" if "x \<in> insert a A" for x
    using that d(2) [of x] assms(2,3) by (metis fun_upd_other fun_upd_same insertE option.distinct(1))
  moreover have "x \<in> insert a A \<and> x \<notin> B \<and> \<not> o_ready ((m(a := new_oneshot)) x) \<and> \<not> o_sender_dropped ((m(a := new_oneshot)) x)"
    if "(rs(h := Some a)) y = Some x" for x y
    using that d(3) [of y x] n assms(2) by (auto simp: new_oneshot_def split: if_splits)
  moreover have "y = z" if "(rs(h := Some a)) y = Some x" "(rs(h := Some a)) z = Some x" for x y z
    using that n d(4) [of y x z] by (auto split: if_splits)
  moreover have "\<not> o_receiver_dropped ((m(a := new_oneshot)) x)" if "x \<in> insert a L" for x
    using that d(5) [of x] by (auto simp: new_oneshot_def)
  moreover have "B \<subseteq> insert a A" using d(1) by auto
  ultimately show ?thesis unfolding ends_ok_def by blast
qed

lemma ends_drop_sender:
  assumes "ends_ok A B L rs m" and "a \<in> B" and "ch_resolved s'" and "o_receiver_dropped s' = o_receiver_dropped (m a)"
  shows "ends_ok A (B - {a}) L rs (m(a := s'))"
proof (rule ends_okI)
  note d = ends_okD [OF assms(1)]
  show "B - {a} \<subseteq> A" using d(1) by auto
  show "x \<in> B - {a} \<or> (\<exists>h. rs h = Some x) \<or> ch_resolved ((m(a := s')) x)" if "x \<in> A" for x
    using d(2) [OF that] assms(3) by auto
  show "x \<in> A \<and> x \<notin> B - {a} \<and> \<not> o_ready ((m(a := s')) x) \<and> \<not> o_sender_dropped ((m(a := s')) x)" if "rs h = Some x" for h x
    using d(3) [OF that] assms(2) by auto
  show "h = h'" if "rs h = Some x" "rs h' = Some x" for h h' x using that by (rule d(4))
  show "\<not> o_receiver_dropped ((m(a := s')) x)" if "x \<in> L" for x using d(5) [OF that] assms(4) by auto
qed

lemma ends_root:
  assumes "ends_ok A B L rs m" and "rs h = Some a" and "ch_resolved s'" and "o_receiver_dropped s' = o_receiver_dropped (m a)"
  shows "ends_ok A B L (rs(h := None)) (m(a := s'))"
proof (rule ends_okI)
  note d = ends_okD [OF assms(1)]
  let ?rs = "rs(h := None)" and ?m = "m(a := s')"
  have old: "rs y = Some x" "y \<noteq> h" "x \<noteq> a" if "?rs y = Some x" for y x
    using that d(4) [OF assms(2), of y] by (auto split: if_splits)
  show "B \<subseteq> A" by (rule d(1))
  show "x \<in> B \<or> (\<exists>y. ?rs y = Some x) \<or> ch_resolved (?m x)" if "x \<in> A" for x
  proof (cases "x = a")
    case False
    then have "rs y = Some x \<Longrightarrow> ?rs y = Some x" for y using assms(2) by auto
    moreover have "?m x = m x" using False by simp
    ultimately show ?thesis using d(2) [OF that] by (simp only:) blast
  qed (use assms(3) in simp)
  show "x \<in> A \<and> x \<notin> B \<and> \<not> o_ready (?m x) \<and> \<not> o_sender_dropped (?m x)" if "?rs y = Some x" for x y
    using d(3) [OF old(1) [OF that]] old(3) [OF that] by simp
  show "y = z" if "?rs y = Some x" "?rs z = Some x" for x y z using old(1) that d(4) by blast
  show "\<not> o_receiver_dropped (?m x)" if "x \<in> L" for x using d(5) [OF that] assms(4) by auto
qed

section \<open>Every step keeps it\<close>

definition ends_inv :: "('e, 'v) system \<Rightarrow> bool" where
  "ends_inv s \<longleftrightarrow> ends_ok (sy_channels s) (sy_senders s) (live_receivers s) (root_sender (sy_world s)) (w_channels (sy_world s))"

definition awaited :: "(handle \<Rightarrow> ctl) \<Rightarrow> nat set" where
  "awaited c = {a. \<exists>h aw. awaiter_of (c h) = Some aw \<and> a_state aw = Some a}"

lemma live_receivers_awaited: "live_receivers s = sy_receivers s \<union> awaited (sy_ctl s)"
  by (simp add: live_receivers_def awaited_def)

lemma awaited_woken [simp]: "awaited (woken ks c) = awaited c"
  by (simp add: awaited_def)

lemma awaited_move: "awaiter_of k = None \<or> awaiter_of k = awaiter_of (c h) \<Longrightarrow> awaited (c(h := k)) \<subseteq> awaited c"
  by (auto simp: awaited_def split: if_splits)

lemma root_sender_core:
  "root_sender w h = (let f = core w h in if fr_alive f \<and> pr_detached (fr_promise f) then pr_sender (fr_promise f) else None)"
  by (simp add: root_sender_def core_def Let_def)

lemma root_sender_frames: "w_frames w = w_frames w' \<Longrightarrow> root_sender w = root_sender w'"
  by (simp add: root_sender_def fun_eq_iff)

lemma schedule_wakes_rest:
  "schedule_wakes ks w = Some w' \<Longrightarrow> w_frames w' = w_frames w \<and> w_channels w' = w_channels w"
  by (induction ks arbitrary: w) (auto simp: runtime_schedule_def split: option.splits)

lemma scheduled_ends:
  assumes "sys_schedule ks w c s = Some t"
  shows "ends_inv t \<longleftrightarrow> ends_ok (sy_channels s) (sy_senders s) (sy_receivers s \<union> awaited c) (root_sender w) (w_channels w)"
proof -
  obtain w' where w': "schedule_wakes ks w = Some w'" "t = s\<lparr>sy_world := w', sy_ctl := woken ks c\<rparr>"
    using assms by (auto simp: sys_schedule_def)
  have "w_frames w' = w_frames w" "w_channels w' = w_channels w" using schedule_wakes_rest [OF w'(1)] by simp_all
  moreover from this(1) have "root_sender w' = root_sender w" by (rule root_sender_frames)
  ultimately show ?thesis using w'(2) by (simp add: ends_inv_def live_receivers_awaited)
qed

text \<open>Most steps change no sender and no channel, and make no receiver.\<close>

lemma ends_still:
  assumes "ends_inv s" and "sy_channels t = sy_channels s" and "sy_senders t = sy_senders s"
    and "live_receivers t \<subseteq> live_receivers s" and "root_sender (sy_world t) = root_sender (sy_world s)"
    and "w_channels (sy_world t) = w_channels (sy_world s)"
  shows "ends_inv t"
proof -
  have "ends_ok (sy_channels s) (sy_senders s) (live_receivers t) (root_sender (sy_world s)) (w_channels (sy_world s))"
    by (rule ends_quiet [OF assms(1) [unfolded ends_inv_def]]) (use assms(4) in blast)+
  then show ?thesis by (simp only: ends_inv_def assms(2,3,5,6))
qed

text \<open>An event of one channel.\<close>

lemma ends_event:
  assumes "ends_ok A B L rs m" and "ch_resolved (m a) \<Longrightarrow> ch_resolved s'" and "a \<in> B \<or> o_ready s' = o_ready (m a) \<and> o_sender_dropped s' = o_sender_dropped (m a)"
    and "L' \<subseteq> L" and "a \<in> L' \<Longrightarrow> o_receiver_dropped s' = o_receiver_dropped (m a)"
  shows "ends_ok A B L' rs (m(a := s'))"
  by (rule ends_quiet [OF assms(1)]) (use assms(2-5) in auto)

lemma root_sender_kept [simp]:
  "(\<And>p. pr_detached (f p) = pr_detached p \<and> pr_sender (f p) = pr_sender p) \<Longrightarrow>
     root_sender (upd_promise x f w) = root_sender w"
  "root_sender (upd_frame x (\<lambda>f. f\<lparr>fr_done := b\<rparr>) w) = root_sender w"
  by (auto simp: root_sender_def fun_eq_iff)

lemma dead_frame_sender:
  assumes "\<not> pr_detached (promise_of w h)"
  shows "root_sender (upd_frame h (\<lambda>f. f\<lparr>fr_alive := b\<rparr>) w) = root_sender w"
  using assms by (auto simp: root_sender_def fun_eq_iff)

lemma not_root:
  assumes "sys_inv r s" and "sy_ctl s h = Absent \<or> sy_ctl s h = Created \<or> sy_ctl s h = Finished"
  shows "root_sender (sy_world s) h = None" and "sy_ctl s h \<noteq> Absent \<Longrightarrow> \<not> pr_detached (promise_of (sy_world s) h)"
    and "sy_ctl s h \<noteq> Absent \<Longrightarrow> pr_sender (promise_of (sy_world s) h) = None"
  using frame_of [OF assms(1), of h] assms(2) by (auto simp: root_sender_def frame_fits_def split: if_splits)

lemma destroy_ends:
  assumes inv: "sys_inv r s" and h: "sy_ctl s h = Created \<or> sy_ctl s h = Finished"
    and d: "destroy_frame h (sy_world s) = Some (w, ks)"
  shows "root_sender w = root_sender (sy_world s)" and "w_channels w = w_channels (sy_world s)"
proof -
  have n: "\<not> pr_detached (promise_of (sy_world s) h)" "pr_sender (promise_of (sy_world s) h) = None"
    using not_root(2,3) [OF inv, of h] h by auto
  with d have w: "w = (upd_frame h (\<lambda>f. f\<lparr>fr_alive := False\<rparr>) (sy_world s))\<lparr>w_channels := w_channels (sy_world s)\<rparr>"
    by (auto simp: destroy_frame_def sender_destroy_def split: if_splits)
  have "root_sender w = root_sender (upd_frame h (\<lambda>f. f\<lparr>fr_alive := False\<rparr>) (sy_world s))"
    unfolding w by (rule root_sender_frames) simp
  then show "root_sender w = root_sender (sy_world s)" using dead_frame_sender [OF n(1)] by simp
  show "w_channels w = w_channels (sy_world s)" unfolding w by simp
qed

lemma ends_take:
  assumes e: "ends_inv s" and t: "sys_take r s = Some t"
  shows "ends_inv t"
proof -
  obtain x u where q: "get_next_task_from_queue (w_rts (sy_world s) r) = (x, u)" by fastforce
  show ?thesis
  proof (cases x)
    case (Got h)
    define k where "k = (case sy_ctl s h of Woken aw \<Rightarrow> Reading aw | _ \<Rightarrow> Running)"
    have k: "awaiter_of k = awaiter_of (sy_ctl s h) \<and>
        t = s\<lparr>sy_world := upd_rt r (\<lambda>_. u) (sy_world s), sy_ctl := (sy_ctl s)(h := k)\<rparr>"
      using t q Got by (auto simp: sys_take_def Let_def k_def split: if_splits ctl.splits)
    have "root_sender (upd_rt r (\<lambda>_. u) (sy_world s)) = root_sender (sy_world s)" by (rule root_sender_frames) simp
    then show ?thesis
      using e awaited_move [of k "sy_ctl s" h] k by (intro ends_still [OF e]) (auto simp: live_receivers_awaited)
  qed (use t q e in \<open>simp_all add: sys_take_def\<close>)
qed

lemma ends_tasks:
  assumes inv: "sys_inv r s" and e: "ends_inv s"
  shows "sys_guard r (Op_create h) s \<Longrightarrow> sys_exec r (Op_create h) s = Some t \<Longrightarrow> ends_inv t"
    and "sys_guard r (Op_drop_task h) s \<Longrightarrow> sys_exec r (Op_drop_task h) s = Some t \<Longrightarrow> ends_inv t"
    and "sys_guard r (Op_call h x) s \<Longrightarrow> sys_call h x s = Some t \<Longrightarrow> ends_inv t"
    and "sys_return h s = Some t \<Longrightarrow> ends_inv t"
proof -
  assume g: "sys_guard r (Op_create h) s" and t: "sys_exec r (Op_create h) s = Some t"
  have "root_sender (sy_world s) h = None" using not_root(1) [OF inv] g by simp
  moreover have "root_sender (upd_frame h (\<lambda>_. new_frame) w) = (root_sender w)(h := None)" for w :: "('a, 'b, oneshot_cb) world"
    by (simp add: root_sender_def fun_eq_iff new_frame_def new_promise_def)
  ultimately have "root_sender (sy_world t) = root_sender (sy_world s)" using t by (auto simp: fun_upd_idem)
  moreover have "live_receivers t \<subseteq> live_receivers s"
    using t awaited_move [of Created "sy_ctl s" h] by (auto simp: live_receivers_awaited)
  ultimately show "ends_inv t" using t by (intro ends_still [OF e]) auto
next
  assume g: "sys_guard r (Op_drop_task h) s" and t: "sys_exec r (Op_drop_task h) s = Some t"
  then obtain w ks where d: "destroy_frame h (sy_world s) = Some (w, ks)"
      and u: "sys_schedule ks w ((sy_ctl s)(h := Absent)) s = Some t"
    by (auto simp: task_destroy_def split: option.splits)
  have c: "sy_ctl s h = Created \<or> sy_ctl s h = Finished" using g by simp
  show "ends_inv t"
    unfolding scheduled_ends [OF u] destroy_ends [OF inv c d]
    by (rule ends_quiet [OF e [unfolded ends_inv_def]])
      (use awaited_move [of Absent "sy_ctl s" h] in \<open>auto simp: live_receivers_awaited\<close>)
next
  assume g: "sys_guard r (Op_call h x) s" and t: "sys_call h x s = Some t"
  have "\<not> fr_done (w_frames (sy_world s) x)" using frame_of [OF inv, of x] g by (auto simp: frame_fits_def)
  with t g have u: "sy_ctl t = (sy_ctl s)(h := Calling x, x := Running)" "sy_channels t = sy_channels s" "sy_senders t = sy_senders s"
      "sy_receivers t = sy_receivers s" "w_channels (sy_world t) = w_channels (sy_world s)"
      "root_sender (sy_world t) = root_sender (sy_world s)"
    by (auto simp: sys_call_def await_transform_task_def task_set_owning_scope_def task_await_ready_def
        task_await_suspend_def)
  have "awaited (sy_ctl t) \<subseteq> awaited (sy_ctl s)"
    using awaited_move [of Running "(sy_ctl s)(h := Calling x)" x] awaited_move [of "Calling x" "sy_ctl s" h] u(1) by auto
  then show "ends_inv t" using u by (intro ends_still [OF e]) (auto simp: live_receivers_awaited)
next
  assume t: "sys_return h s = Some t"
  then obtain x w ks where d: "sy_ctl s h = Returning x" "destroy_frame x (sy_world s) = Some (w, ks)"
      and u: "sys_schedule ks w ((sy_ctl s)(h := Running, x := Absent)) s = Some t"
    by (auto simp: sys_return_def task_awaiter_destroy_def task_destroy_def split: ctl.splits option.splits)
  have "shape (sy_ctl s x) = Finished" using callers_okD(2) [OF sys_invD(2) [OF inv], of h x] d(1) by simp
  then have c: "sy_ctl s x = Created \<or> sy_ctl s x = Finished" by (simp add: shape_eq)
  have "awaited ((sy_ctl s)(h := Running, x := Absent)) \<subseteq> awaited (sy_ctl s)"
    using awaited_move [of Absent "(sy_ctl s)(h := Running)" x] awaited_move [of Running "sy_ctl s" h] by auto
  then show "ends_inv t"
    unfolding scheduled_ends [OF u] destroy_ends [OF inv c d(2)]
    by (intro ends_quiet [OF e [unfolded ends_inv_def]]) (auto simp: live_receivers_awaited)
qed

lemma ends_end_called:
  assumes inv: "sys_inv r s" and e: "ends_inv s" and a: "sy_ctl s h = Running"
    and d: "\<not> pr_detached (promise_of (sy_world s) h)" and t: "sys_end h res s = Some t"
  shows "ends_inv t"
proof -
  obtain p where p: "pr_continuation (promise_of (sy_world s) h) = Some p"
    using callers_okD(3) [OF sys_invD(2) [OF inv], of h] a d by auto
  then have "shape (sy_ctl s p) = Calling h"
    using callers_okD(1) [OF sys_invD(2) [OF inv], of p h] a d by simp
  then have cp: "sy_ctl s p = Calling h" by (simp add: shape_eq)
  let ?w = "upd_frame h (\<lambda>f. f\<lparr>fr_done := True\<rparr>) (upd_promise h (end_body res) (sy_world s))"
  have f: "fr_alive (w_frames (sy_world s) h)" using frame_of [OF inv, of h] a by (simp add: frame_fits_def)
  have fs: "final_suspend h (upd_promise h (end_body res) (sy_world s)) = Some (?w, Some p, [])"
    using d p by (simp add: final_suspend_def final_suspend_with_def Let_def)
  have u: "sy_world t = ?w" "sy_ctl t = (sy_ctl s)(h := Finished, p := Returning h)" "sy_channels t = sy_channels s"
      "sy_senders t = sy_senders s" "sy_receivers t = sy_receivers s"
    using t fs f by (auto simp: sys_end_def Let_def sys_schedule_def split: if_splits)
  have "pr_detached (end_body res q) = pr_detached q \<and> pr_sender (end_body res q) = pr_sender q" for q :: "('a, 'b) promise"
    by (cases res) (simp_all add: return_value_def unhandled_exception_def)
  then have "root_sender ?w = root_sender (sy_world s)" by simp
  moreover have "awaited (sy_ctl t) \<subseteq> awaited (sy_ctl s)"
    unfolding u(2) using awaited_move [of "Returning h" "(sy_ctl s)(h := Finished)" p] awaited_move [of Finished "sy_ctl s" h]
    by auto
  ultimately show ?thesis using u by (intro ends_still [OF e]) (auto simp: live_receivers_awaited)
qed

lemma set_value_ends:
  assumes "set_value v s = (rv, s', ks)"
  shows "ch_resolved s \<Longrightarrow> ch_resolved s'" and "o_receiver_dropped s' = o_receiver_dropped s"
  using assms by (auto simp: set_value_def ch_resolved_def Let_def split: if_splits)

lemma sender_dropped_ends:
  assumes "mark_sender_dropped s = (s', ks)"
  shows "ch_resolved s'" and "o_receiver_dropped s' = o_receiver_dropped s"
  using assms by (auto simp: mark_sender_dropped_def ch_resolved_def Let_def split: if_splits)

lemma ends_end_root:
  assumes inv: "sys_inv r s" and e: "ends_inv s" and a: "sy_ctl s h = Running"
    and d: "pr_detached (promise_of (sy_world s) h)" and t: "sys_end h res s = Some t"
  shows "ends_inv t"
proof -
  let ?m = "w_channels (sy_world s)"
  obtain b rv s1 k1 s2 k2 w x where u: "pr_sender (promise_of (sy_world s) h) = Some b"
    "set_value (outcome_of (end_body res (promise_of (sy_world s) h))) (?m b) = (rv, s1, k1)"
    "mark_sender_dropped s1 = (s2, k2)" "core w = (core (sy_world s))(h := x)" "\<not> fr_alive x" "roots_ok_in r w"
    "w_channels w = ?m(b := s2)" "w_cancel w = w_cancel (sy_world s)"
    "rt_queue (w_rts w r) = rt_queue (w_rts (sy_world s) r)"
    "sys_end h res s = Some (s\<lparr>sy_world := enqueue r (map snd (k1 @ k2)) w, sy_ctl := woken (k1 @ k2) ((sy_ctl s)(h := Absent))\<rparr>)"
    by (rule end_root_equation [OF inv a d, of res])
  have "fr_alive (w_frames (sy_world s) h)" using frame_of [OF inv, of h] a by (simp add: frame_fits_def)
  then have rs: "root_sender (sy_world s) h = Some b" using d u(1) by (simp add: root_sender_def)
  have rt: "root_sender (enqueue r (map snd (k1 @ k2)) w) = (root_sender (sy_world s))(h := None)"
    using u(5) by (simp add: fun_eq_iff root_sender_core u(4))
  have "ends_ok (sy_channels s) (sy_senders s) (live_receivers s) ((root_sender (sy_world s))(h := None)) (?m(b := s2))"
    using sender_dropped_ends [OF u(3)] set_value_ends(2) [OF u(2)]
    by (intro ends_root [OF e [unfolded ends_inv_def] rs]) simp_all
  then have "ends_ok (sy_channels s) (sy_senders s) (sy_receivers s \<union> awaited ((sy_ctl s)(h := Absent)))
      ((root_sender (sy_world s))(h := None)) (?m(b := s2))"
    by (rule ends_quiet) (use awaited_move [of Absent "sy_ctl s" h] in \<open>auto simp: live_receivers_awaited\<close>)
  then show ?thesis using t u(7,10) rt by (auto simp: ends_inv_def live_receivers_awaited)
qed

lemma ends_fresh:
  assumes inv: "sys_inv r s" and e: "ends_inv s"
  shows "sys_guard r (Op_spawn h sc a) s \<Longrightarrow> sys_spawn r h sc a s = Some t \<Longrightarrow> ends_inv t"
    and "sys_guard r (Op_make a) s \<Longrightarrow> sys_exec r (Op_make a) s = Some t \<Longrightarrow> ends_inv t"
proof -
  assume g: "sys_guard r (Op_spawn h sc a) s" and t: "sys_spawn r h sc a s = Some t"
  have c: "sy_ctl s h = Created" "a \<notin> sy_channels s" using g by simp_all
  note n = not_root [OF inv, of h]
  have f: "\<not> fr_done (w_frames (sy_world s) h)" "fr_alive (w_frames (sy_world s) h)"
    using frame_of [OF inv, of h] c(1) by (auto simp: frame_fits_def)
  let ?w = "enqueue r [h] (register_root r h (spawned_world r h sc a (sy_world s)))"
  have u: "sy_world t = ?w" "sy_ctl t = (sy_ctl s)(h := Queued)" "sy_channels t = insert a (sy_channels s)"
      "sy_senders t = sy_senders s" "sy_receivers t = insert a (sy_receivers s)"
    using t n c(1) by (auto simp: sys_spawn_def spawn_equation [OF f(1)] sys_schedule_def schedule_one)
  have rs: "root_sender ?w = (root_sender (sy_world s))(h := Some a)"
    using f(2) by (simp add: fun_eq_iff root_sender_core core_spawned_world)
  have "ends_ok (insert a (sy_channels s)) (sy_senders s) (insert a (live_receivers s))
      ((root_sender (sy_world s))(h := Some a)) ((w_channels (sy_world s))(a := new_oneshot))"
    using n(1) c(1) by (intro ends_spawn [OF e [unfolded ends_inv_def] c(2)]) simp
  then have "ends_ok (insert a (sy_channels s)) (sy_senders s) (live_receivers t)
      ((root_sender (sy_world s))(h := Some a)) ((w_channels (sy_world s))(a := new_oneshot))"
    by (rule ends_quiet)
      (use u awaited_move [of Queued "sy_ctl s" h] in \<open>auto simp: live_receivers_awaited\<close>)
  then show "ends_inv t" unfolding ends_inv_def u(1,3,4) rs by simp
next
  assume g: "sys_guard r (Op_make a) s" and t: "sys_exec r (Op_make a) s = Some t"
  let ?m = "(w_channels (sy_world s))(a := new_oneshot)"
  have u: "t = s\<lparr>sy_world := (sy_world s)\<lparr>w_channels := ?m\<rparr>, sy_channels := insert a (sy_channels s),
      sy_senders := insert a (sy_senders s), sy_receivers := insert a (sy_receivers s)\<rparr>"
    using t by (simp add: make_oneshot_def)
  have rs: "root_sender ((sy_world s)\<lparr>w_channels := ?m\<rparr>) = root_sender (sy_world s)"
    by (rule root_sender_frames) simp
  show "ends_inv t"
    using ends_make [OF e [unfolded ends_inv_def], of a] g unfolding u
    by (simp add: ends_inv_def live_receivers_awaited rs)
qed

lemma ends_channel:
  assumes inv: "sys_inv r s" and e: "ends_inv s"
  shows "sys_guard r (Op_send a v) s \<Longrightarrow> sys_exec r (Op_send a v) s = Some t \<Longrightarrow> ends_inv t"
    and "sys_guard r (Op_drop_sender a) s \<Longrightarrow> sys_exec r (Op_drop_sender a) s = Some t \<Longrightarrow> ends_inv t"
    and "sys_guard r (Op_drop_receiver a) s \<Longrightarrow> sys_exec r (Op_drop_receiver a) s = Some t \<Longrightarrow> ends_inv t"
proof -
  let ?m = "w_channels (sy_world s)"
  have rs: "root_sender ((sy_world s)\<lparr>w_channels := m\<rparr>) = root_sender (sy_world s)" for m
    by (rule root_sender_frames) simp
  {
    assume g: "sys_guard r (Op_send a v) s" and t: "sys_exec r (Op_send a v) s = Some t"
    obtain res s' ks where sv: "set_value v (?m a) = (res, s', ks)" by (cases "set_value v (?m a)")
    then have u: "sys_schedule ks ((sy_world s)\<lparr>w_channels := ?m(a := s')\<rparr>) (sy_ctl s) s = Some t"
      using t by (simp add: send_def)
    show "ends_inv t"
      unfolding scheduled_ends [OF u] rs using g set_value_ends [OF sv]
      by (auto intro!: ends_event [OF e [unfolded ends_inv_def]] simp: live_receivers_awaited)
  next
    assume g: "sys_guard r (Op_drop_sender a) s" and t: "sys_exec r (Op_drop_sender a) s = Some t"
    obtain s' ks where sd: "mark_sender_dropped (?m a) = (s', ks)" by (cases "mark_sender_dropped (?m a)")
    then have u: "sys_schedule ks ((sy_world s)\<lparr>w_channels := ?m(a := s')\<rparr>) (sy_ctl s) (s\<lparr>sy_senders := sy_senders s - {a}\<rparr>) = Some t"
      using t by (simp add: sender_destroy_def)
    show "ends_inv t"
      unfolding scheduled_ends [OF u] rs
      using ends_drop_sender [OF e [unfolded ends_inv_def], of a s'] g sender_dropped_ends [OF sd]
      by (simp add: live_receivers_awaited)
  next
    assume g: "sys_guard r (Op_drop_receiver a) s" and t: "sys_exec r (Op_drop_receiver a) s = Some t"
    let ?d = "mark_receiver_dropped (?m a)"
    have u: "t = s\<lparr>sy_world := (sy_world s)\<lparr>w_channels := ?m(a := ?d)\<rparr>, sy_receivers := sy_receivers s - {a}\<rparr>"
      using t by (simp add: receiver_destroy_def)
    have "a \<notin> awaited (sy_ctl s)"
      using g waits_okD(4) [OF sys_invD(5) [OF inv]] by (fastforce simp: awaited_def)
    then show "ends_inv t"
      unfolding u ends_inv_def live_receivers_awaited
      by (simp add: rs, intro ends_event [OF e [unfolded ends_inv_def]])
        (auto simp: mark_receiver_dropped_def ch_resolved_def live_receivers_awaited)
  }
qed

lemma ends_await:
  assumes inv: "sys_inv r s" and e: "ends_inv s" and g: "sys_guard r (Op_await h a g) s" and t: "sys_await r h a g s = Some t"
  shows "ends_inv t"
proof -
  let ?m = "w_channels (sy_world s)"
  obtain aw where u: "sy_ctl t = (sy_ctl s)(h := Testing aw)" "a_state aw = Some a" "sy_receivers t = sy_receivers s - {a}"
      "sy_channels t = sy_channels s" "sy_senders t = sy_senders s" "w_frames (sy_world t) = w_frames (sy_world s)"
      "w_channels (sy_world t) = ?m(a := (?m a)\<lparr>o_rt := Some r\<rparr>)"
    using t by (auto simp: sys_await_def receiver_co_await_def await_transform_leaf_def receiver_set_cancel_scope_def Let_def)
  have "awaited (sy_ctl t) \<subseteq> insert a (awaited (sy_ctl s))"
    unfolding u(1) using u(2) by (auto simp: awaited_def split: if_splits)
  then have l: "live_receivers t \<subseteq> live_receivers s" using g u(3) by (auto simp: live_receivers_awaited)
  have "ends_ok (sy_channels s) (sy_senders s) (live_receivers t) (root_sender (sy_world s)) (?m(a := (?m a)\<lparr>o_rt := Some r\<rparr>))"
    by (rule ends_event [OF e [unfolded ends_inv_def]]) (use l in \<open>auto simp: ch_resolved_def\<close>)
  then show ?thesis unfolding ends_inv_def u(4,5,7) root_sender_frames [OF u(6)] .
qed

lemma ends_awaiter:
  assumes e: "ends_inv s"
  shows "sys_test h s = Some t \<Longrightarrow> ends_inv t" and "sys_arm h s = Some t \<Longrightarrow> ends_inv t"
    and "sys_enrol h s = Some t \<Longrightarrow> ends_inv t"
proof -
  have same: "awaited ((sy_ctl s)(h := k)) \<subseteq> awaited (sy_ctl s)" if "awaiter_of k = awaiter_of (sy_ctl s h)" for k
    using awaited_move [of k "sy_ctl s" h] that by blast
  have still: "ends_inv t" if w: "w_frames (sy_world t) = w_frames (sy_world s)" "w_channels (sy_world t) = w_channels (sy_world s)"
    and c: "sy_ctl t = (sy_ctl s)(h := k)" "awaiter_of k = awaiter_of (sy_ctl s h)"
    and o: "sy_channels t = sy_channels s" "sy_senders t = sy_senders s" "sy_receivers t = sy_receivers s" for t k
    using same [OF c(2)] w c(1) o root_sender_frames [OF w(1)]
    by (intro ends_still [OF e]) (auto simp: live_receivers_awaited)
  show "ends_inv t" if t: "sys_test h s = Some t"
  proof -
    obtain aw b where b: "sy_ctl s h = Testing aw" "t = s\<lparr>sy_ctl := (sy_ctl s)(h := if b then Reading aw else Binding aw)\<rparr>"
      using t by (auto simp: sys_test_def split: ctl.splits)
    then show ?thesis by (intro still [where k = "if b then Reading aw else Binding aw"]) simp_all
  qed
  show "ends_inv t" if t: "sys_arm h s = Some t"
  proof -
    obtain aw x cw where x: "sy_ctl s h = Binding aw" "t = s\<lparr>sy_world := (sy_world s)\<lparr>w_cancel := cw\<rparr>,
        sy_ctl := (sy_ctl s)(h := case x of Arm_armed \<Rightarrow> Arming aw | Arm_already_cancelled \<Rightarrow> Reading aw)\<rparr>"
      using t by (auto simp: sys_arm_def split: ctl.splits)
    then show ?thesis
      by (intro still [where k = "case x of Arm_armed \<Rightarrow> Arming aw | Arm_already_cancelled \<Rightarrow> Reading aw"])
        (simp_all split: arm_result.splits)
  qed
  show "ends_inv t" if t: "sys_enrol h s = Some t"
  proof -
    obtain aw a where a: "sy_ctl s h = Arming aw" "a_state aw = Some a"
      using t by (auto simp: sys_enrol_def split: ctl.splits option.splits)
    obtain b ch where c: "suspend_enrol h (w_channels (sy_world s) a) = (b, ch)" by (cases "suspend_enrol h (w_channels (sy_world s) a)")
    let ?k = "if b then Waiting aw else Reading aw"
    have u: "t = s\<lparr>sy_world := (sy_world s)\<lparr>w_channels := (w_channels (sy_world s))(a := ch)\<rparr>, sy_ctl := (sy_ctl s)(h := ?k)\<rparr>"
      using t a c by (simp add: sys_enrol_def)
    have f: "w_frames (sy_world t) = w_frames (sy_world s)" using u by simp
    have "awaiter_of ?k = awaiter_of (sy_ctl s h)" using a(1) by simp
    from same [OF this] have l: "live_receivers t \<subseteq> live_receivers s" unfolding u by (auto simp: live_receivers_awaited)
    have "ends_ok (sy_channels s) (sy_senders s) (live_receivers t) (root_sender (sy_world s)) ((w_channels (sy_world s))(a := ch))"
      by (rule ends_event [OF e [unfolded ends_inv_def]])
        (use l c in \<open>auto simp: ch_resolved_def suspend_enrol_def split: if_splits\<close>)
    then show ?thesis using root_sender_frames [OF f] u by (simp add: ends_inv_def)
  qed
qed

lemma ends_read:
  assumes inv: "sys_inv r s" and e: "ends_inv s" and t: "sys_read h s = Some t"
  shows "ends_inv t"
proof -
  let ?m = "w_channels (sy_world s)"
  obtain aw where aw: "sy_ctl s h = Reading aw" using t by (auto simp: sys_read_def split: ctl.splits)
  then have w: "awaiter_of (sy_ctl s h) = Some aw" by simp
  from awaiter_channel [OF sys_invD(5) [OF inv] w] obtain a where a: "a_state aw = Some a" "a \<notin> sy_receivers s" by metis
  have u: "sy_ctl t = (sy_ctl s)(h := Running)" "sy_receivers t = sy_receivers s"
      "sy_channels t = sy_channels s" "sy_senders t = sy_senders s" "w_frames (sy_world t) = w_frames (sy_world s)"
      "w_channels (sy_world t) = ?m(a := mark_receiver_dropped (?m a))"
    using t aw a by (auto simp: sys_read_def awaiter_destroy_def receiver_destroy_def split: option.splits prod.splits)
  have "a \<notin> awaited (sy_ctl t)"
    unfolding u(1) using waits_okD(5) [OF sys_invD(5) [OF inv] w] a(1) by (fastforce simp: awaited_def split: if_splits)
  moreover have "awaited (sy_ctl t) \<subseteq> awaited (sy_ctl s)" unfolding u(1) by (rule awaited_move) simp
  ultimately have l: "live_receivers t \<subseteq> live_receivers s" "a \<notin> live_receivers t"
    using a(2) u(2) by (auto simp: live_receivers_awaited)
  have "ends_ok (sy_channels s) (sy_senders s) (live_receivers t) (root_sender (sy_world s)) (?m(a := mark_receiver_dropped (?m a)))"
    by (rule ends_event [OF e [unfolded ends_inv_def]])
      (use l in \<open>auto simp: ch_resolved_def mark_receiver_dropped_def\<close>)
  then show ?thesis unfolding ends_inv_def u(3,4,6) root_sender_frames [OF u(5)] .
qed

lemma callbacks_ends:
  assumes "run_oneshot_cb cb (m, k) = (m', k')"
  shows "ch_resolved (m a) \<Longrightarrow> ch_resolved (m' a)" and "o_ready (m' a) = o_ready (m a)"
    and "o_sender_dropped (m' a) = o_sender_dropped (m a)" and "o_receiver_dropped (m' a) = o_receiver_dropped (m a)"
  using assms by (cases cb; auto simp: cancel_and_take_waiter_def ch_resolved_def split: if_splits)+

lemma ends_callbacks:
  assumes "ends_ok A B L rs m" and "fold run_oneshot_cb cbs (m, k) = (m', k')"
  shows "ends_ok A B L rs m'"
  using assms
proof (induction cbs arbitrary: m k)
  case (Cons cb cbs)
  obtain m1 k1 where c: "run_oneshot_cb cb (m, k) = (m1, k1)" by (cases "run_oneshot_cb cb (m, k)")
  have "ends_ok A B L rs m1" by (rule ends_quiet [OF Cons.prems(1)]) (use callbacks_ends [OF c] in simp_all)
  then show ?case using Cons.IH Cons.prems(2) c by simp
qed simp

lemma ends_cancel:
  assumes inv: "sys_inv r s" and e: "ends_inv s" and t: "sys_cancel sc s = Some t"
  shows "ends_inv t"
proof (cases "cancelled sc (w_cancel (sy_world s))")
  case True
  then show ?thesis using cancelled_before [OF inv True] t e by simp
next
  case False
  let ?m = "w_channels (sy_world s)" and ?cw = "w_cancel (sy_world s)"
  obtain xs where xs: "cancel_locked run_oneshot_cb sc ?cw (?m, []) =
      Some (fire_all sc xs (upd_scope sc (\<lambda>r. r\<lparr>s_cancelled := True\<rparr>) ?cw), fold run_oneshot_cb (callbacks xs ?cw) (?m, []))"
    by (rule cancel_locked_drains [OF guards_okD(1) [OF sys_invD(6) [OF inv]] False])
  obtain m' ks where f: "fold run_oneshot_cb (callbacks xs ?cw) (?m, []) = (m', ks)"
    by (cases "fold run_oneshot_cb (callbacks xs ?cw) (?m, [])")
  obtain cw where u: "sys_schedule ks ((sy_world s)\<lparr>w_cancel := cw, w_channels := m'\<rparr>) (sy_ctl s) s = Some t"
    using t False xs f by (auto simp: sys_cancel_def cancel_def)
  have "root_sender ((sy_world s)\<lparr>w_cancel := cw, w_channels := m'\<rparr>) = root_sender (sy_world s)"
    by (rule root_sender_frames) simp
  then show ?thesis
    unfolding scheduled_ends [OF u] using ends_callbacks [OF e [unfolded ends_inv_def] f]
    by (simp add: live_receivers_awaited)
qed

lemma step_ends:
  assumes inv: "sys_inv r s" and e: "ends_inv s" and g: "sys_guard r op s" and t: "sys_exec r op s = Some t"
  shows "ends_inv t"
proof (cases op)
  case Op_take then show ?thesis using ends_take [OF e] t by simp
next
  case (Op_create h) then show ?thesis using ends_tasks(1) [OF inv e, of h t] g t by blast
next
  case (Op_drop_task h) then show ?thesis using ends_tasks(2) [OF inv e, of h t] g t by blast
next
  case (Op_call h x) then show ?thesis using ends_tasks(3) [OF inv e, of h x t] g t by simp
next
  case (Op_return h) then show ?thesis using ends_tasks(4) [OF inv e, of h t] t by simp
next
  case (Op_spawn h sc a) then show ?thesis using ends_fresh(1) [OF inv e, of h sc a t] g t by simp
next
  case (Op_make a) then show ?thesis using ends_fresh(2) [OF inv e, of a t] g t by blast
next
  case (Op_send a v) then show ?thesis using ends_channel(1) [OF inv e, of a v t] g t by blast
next
  case (Op_drop_sender a) then show ?thesis using ends_channel(2) [OF inv e, of a t] g t by blast
next
  case (Op_drop_receiver a) then show ?thesis using ends_channel(3) [OF inv e, of a t] g t by blast
next
  case (Op_end h res)
  with g t have a: "sy_ctl s h = Running" "sys_end h res s = Some t" by simp_all
  show ?thesis using ends_end_called [OF inv e a(1) _ a(2)] ends_end_root [OF inv e a(1) _ a(2)] by blast
next
  case (Op_await h a k) then show ?thesis using ends_await [OF inv e, of h a k t] g t by simp
next
  case (Op_test h) then show ?thesis using ends_awaiter(1) [OF e, of h t] t by simp
next
  case (Op_arm_awaiter h) then show ?thesis using ends_awaiter(2) [OF e, of h t] t by simp
next
  case (Op_enrol h) then show ?thesis using ends_awaiter(3) [OF e, of h t] t by simp
next
  case (Op_read h) then show ?thesis using ends_read [OF inv e, of h t] t by simp
next
  case (Op_cancel_scope sc) then show ?thesis using ends_cancel [OF inv e, of sc t] t by simp
qed

lemma reach_ends: "sys_reach r s \<Longrightarrow> ends_inv s"
proof (induction rule: sys_reach.induct)
  case reach_start
  show ?case
    by (simp add: ends_inv_def ends_ok_def live_receivers_def new_system_def root_sender_def awaiter_of_def)
next
  case (reach_step s op s')
  then show ?case using step_ends [of r s op s'] reach_inv by blast
qed

end
