(* ===== verification/System_Join.thy ===== *)
theory System_Join
  imports System_Ends
begin

text \<open>
  What a coroutine of \<open>System\<close> that waits may count on: its channel has a sender, a join gets the outcome
  of the task it joins, and of the waits for tasks and channels nothing but a cycle of joins makes coroutines
  wait for each other for ever.
\<close>

section \<open>Joins\<close>

lemma sender_of_wait:
  assumes inv: "sys_inv r s" and e: "ends_inv s" and w: "sy_ctl s h = Waiting aw" "a_state aw = Some a"
  shows "\<not> o_receiver_dropped (w_channels (sy_world s) a)"
    and "a \<in> sy_senders s \<or> (\<exists>!x. root_sender (sy_world s) x = Some a)"
proof -
  note d = ends_okD [OF e [unfolded ends_inv_def]]
  have aw: "awaiter_of (sy_ctl s h) = Some aw" using w(1) by simp
  have l: "a \<in> live_receivers s" "a \<in> sy_channels s"
    using aw w(2) awaiter_channel [OF sys_invD(5) [OF inv] aw] by (auto simp: live_receivers_def)
  show "\<not> o_receiver_dropped (w_channels (sy_world s) a)" using d(5) [OF l(1)] .
  have "a \<in> sy_senders s \<or> (\<exists>x. root_sender (sy_world s) x = Some a)"
    using d(2) [OF l(2)] waiting_unresolved(1) [OF inv w] by blast
  then show "a \<in> sy_senders s \<or> (\<exists>!x. root_sender (sy_world s) x = Some a)" using d(4) by blast
qed

lemma root_sender_iff:
  assumes "sys_inv r s"
  shows "root_sender (sy_world s) x = Some a \<longleftrightarrow> pr_sender (promise_of (sy_world s) x) = Some a \<and>
    pr_detached (promise_of (sy_world s) x) \<and> fr_alive (w_frames (sy_world s) x) \<and> in_body (sy_ctl s x)"
  using frame_of [OF assms, of x] by (cases "sy_ctl s x") (auto simp: root_sender_def frame_fits_def)

text \<open>
  Nobody waits for something that cannot happen: the sender of the channel that a coroutine
  waits on is held by the program, or by one root, which has started and not ended and is the only one
  to hold it; and its receiver has not been dropped, so what is sent is taken. In particular a
  coroutine never waits to join a task that has ended.
\<close>

lemma waits_have_a_sender:
  assumes "sys_reach r s" and "sy_ctl s h = Waiting aw" and "a_state aw = Some a"
  shows "\<not> o_receiver_dropped (w_channels (sy_world s) a) \<and>
    (a \<in> sy_senders s \<or>
     (\<exists>!x. pr_sender (promise_of (sy_world s) x) = Some a \<and> pr_detached (promise_of (sy_world s) x) \<and>
        fr_alive (w_frames (sy_world s) x) \<and> in_body (sy_ctl s x)))"
proof -
  have inv: "sys_inv r s" and e: "ends_inv s" using assms(1) by (rule reach_inv, rule reach_ends)
  show ?thesis using sender_of_wait [OF inv e assms(2,3)] unfolding root_sender_iff [OF inv] by blast
qed

text \<open>What the channel of a root gets when the root ends.\<close>

lemma delivered:
  assumes "set_value v s = (rv, s1, k1)" and "mark_sender_dropped s1 = (s2, k2)"
    and "\<not> o_ready s" "\<not> o_receiver_dropped s" "\<not> o_cancelled s"
  shows "k1 @ k2 = wake_if (o_rt s) (o_waiter s)" and "resume_value c s2 = Some (Inr v)"
  using assms by (auto simp: set_value_def mark_sender_dropped_def resume_value_def wake_if_def Let_def split: option.splits)

text \<open>
  C6. A join gets what the task has left. When the body of a spawned task ends, its frame is gone;
  if the join handle has not been dropped and its scope has not been cancelled, the handle's channel
  holds the outcome, from which \<^verbatim>\<open>join()\<close> returns the value or rethrows the exception, whether it is
  called now or later; a coroutine that waits there is put in the run queue, and nobody else is.
\<close>

theorem join_gets_outcome:
  assumes "sys_reach r s" and "sy_ctl s h = Running" and "pr_detached (promise_of (sy_world s) h)"
    and "pr_sender (promise_of (sy_world s) h) = Some a"
  shows "\<exists>t. sys_exec r (Op_end h res) s = Some t \<and> sy_ctl t h = Absent \<and> \<not> fr_alive (w_frames (sy_world t) h) \<and>
    (a \<in> live_receivers s \<and> \<not> o_cancelled (w_channels (sy_world s) a) \<longrightarrow>
      (\<exists>out. (\<forall>c. resume_value c (w_channels (sy_world t) a) = Some (Inr out)) \<and> join_body (Inr out) = Some (expected_of res)) \<and>
      (\<forall>x. x \<noteq> h \<longrightarrow> sy_ctl t x = (if o_waiter (w_channels (sy_world s) a) = Some x then wakes_ctl (sy_ctl s x) else sy_ctl s x)) \<and>
      rt_queue (w_rts (sy_world t) r) = rt_queue (w_rts (sy_world s) r) @
        (case o_waiter (w_channels (sy_world s) a) of None \<Rightarrow> [] | Some x \<Rightarrow> [x]))"
proof -
  have inv: "sys_inv r s" and e: "ends_inv s" using assms(1) by (rule reach_inv, rule reach_ends)
  note d = ends_okD [OF e [unfolded ends_inv_def]]
  let ?m = "w_channels (sy_world s)" and ?out = "outcome_of (end_body res (promise_of (sy_world s) h))"
  obtain b rv s1 k1 s2 k2 w x where u: "pr_sender (promise_of (sy_world s) h) = Some b"
    "set_value ?out (?m b) = (rv, s1, k1)" "mark_sender_dropped s1 = (s2, k2)"
    "core w = (core (sy_world s))(h := x)" "\<not> fr_alive x" "roots_ok_in r w"
    "w_channels w = ?m(b := s2)" "w_cancel w = w_cancel (sy_world s)"
    "rt_queue (w_rts w r) = rt_queue (w_rts (sy_world s) r)"
    "sys_end h res s = Some (s\<lparr>sy_world := enqueue r (map snd (k1 @ k2)) w, sy_ctl := woken (k1 @ k2) ((sy_ctl s)(h := Absent))\<rparr>)"
    by (rule end_root_equation [OF inv assms(2,3), of res])
  have b: "b = a" using u(1) assms(4) by simp
  have f: "fr_alive (w_frames (sy_world s) h)" "pr_exception (promise_of (sy_world s) h) = None"
    using frame_of [OF inv, of h] assms(2) by (simp_all add: frame_fits_def)
  have "\<not> o_ready (?m a)" using d(3) [of h a] f(1) assms(3,4) by (simp add: root_sender_def)
  have dead: "\<not> fr_alive (w_frames w h)" using arg_cong [OF u(4), of "\<lambda>f. fr_alive (f h)"] u(5) by simp
  have out: "join_body (Inr ?out) = Some (expected_of res)"
    using read_outcome_of [OF f(2), of res] by (simp add: join_body_def)
  let ?t = "s\<lparr>sy_world := enqueue r (map snd (k1 @ k2)) w, sy_ctl := woken (k1 @ k2) ((sy_ctl s)(h := Absent))\<rparr>"
  have "\<forall>c. resume_value c (w_channels (sy_world ?t) a) = Some (Inr ?out)"
    and "x \<noteq> h \<Longrightarrow> sy_ctl ?t x = (if o_waiter (?m a) = Some x then wakes_ctl (sy_ctl s x) else sy_ctl s x)"
    and "rt_queue (w_rts (sy_world ?t) r) = rt_queue (w_rts (sy_world s) r) @ (case o_waiter (?m a) of None \<Rightarrow> [] | Some x \<Rightarrow> [x])"
    if l: "a \<in> live_receivers s" "\<not> o_cancelled (?m a)" for x
    using delivered [OF u(2) [unfolded b] u(3) \<open>\<not> o_ready (?m a)\<close> d(5) [OF l(1)] l(2)] u(7,9) b
    by (auto simp: woken_at wake_if_def split: option.splits)
  moreover have "sy_ctl ?t h = Absent" by (simp add: woken_at wakes_ctl_def)
  ultimately show ?thesis using u(10) dead out by (intro exI [of _ ?t]) auto
qed

text \<open>The child of the parent ends with a value while the parent waits.\<close>

definition demo_child :: "(nat, nat) sys_op list" where
  "demo_child = [Op_create 2, Op_spawn 2 10 20, Op_create 3, Op_spawn 3 11 21, Op_take, Op_take,
     Op_await 2 21 30, Op_test 2, Op_arm_awaiter 2, Op_enrol 2]"

lemma demo_child_runs:
  "\<exists>s. sys_run 0 demo_child new_system = Some s \<and> sy_ctl s 3 = Running \<and> pr_detached (promise_of (sy_world s) 3) \<and>
     pr_sender (promise_of (sy_world s) 3) = Some 21 \<and> \<not> o_cancelled (w_channels (sy_world s) 21) \<and>
     sy_ctl s 2 = Waiting \<lparr>a_state = Some 21, a_scope = Some 10, a_guard = 30\<rparr>"
  by (simp add: demo_child_def to_size_def sys_step_defs sys_data_defs sys_part_defs)

theorem join_gets_outcome_witness:
  "\<exists>s t. sys_run 0 demo_child new_system = Some s \<and> sys_exec 0 (Op_end 3 (Gave 7)) s = Some t \<and>
     (\<exists>out. resume_value False (w_channels (sy_world t) 21) = Some (Inr out) \<and> join_body (Inr out) = Some (Gave (Inr 7)))"
proof -
  let ?aw = "\<lparr>a_state = Some 21, a_scope = Some 10, a_guard = 30\<rparr>"
  obtain s where s: "sys_run 0 demo_child new_system = Some s" "sy_ctl s 3 = Running" "pr_detached (promise_of (sy_world s) 3)"
      "pr_sender (promise_of (sy_world s) 3) = Some 21" "\<not> o_cancelled (w_channels (sy_world s) 21)" "sy_ctl s 2 = Waiting ?aw"
    using demo_child_runs by blast
  have "awaiter_of (sy_ctl s 2) = Some ?aw \<and> a_state ?aw = Some 21" using s(6) by simp
  then have "21 \<in> live_receivers s" unfolding live_receivers_def by blast
  then show ?thesis
    using join_gets_outcome [OF sys_run_reach [OF reach_start s(1)] s(2-4), of "Gave 7"] s(1,5) by fastforce
qed

section \<open>Deadlock\<close>

text \<open>Root \<open>h\<close>, or what it waits for through its calls, waits to join root \<open>x\<close>.\<close>

definition join_edges :: "('e, 'v) system \<Rightarrow> (handle \<times> handle) set" where
  "join_edges s = {(h, x). \<exists>y aw a. (h, y) \<in> (call_edges (sy_ctl s))\<^sup>* \<and> sy_ctl s y = Waiting aw \<and> a_state aw = Some a \<and>
     root_sender (sy_world s) x = Some a}"

definition waits_for_program :: "('e, 'v) system \<Rightarrow> handle \<Rightarrow> bool" where
  "waits_for_program s x \<longleftrightarrow> (\<exists>aw a. sy_ctl s x = Waiting aw \<and> a_state aw = Some a \<and> a \<in> sy_senders s)"

lemma finite_joins:
  assumes inv: "sys_inv r s" and c: "calls_ok (sy_ctl s) ow"
  shows "finite (join_edges s)"
proof (rule finite_subset)
  let ?A = "{h. sy_ctl s h \<noteq> Absent}"
  have "sy_ctl s h \<noteq> Absent" if "(h, y) \<in> (call_edges (sy_ctl s))\<^sup>*" "sy_ctl s y = Waiting aw" for h y aw
    using that by (cases rule: converse_rtranclE) (auto simp: call_edges_def)
  moreover have "sy_ctl s x \<noteq> Absent" if "root_sender (sy_world s) x = Some a" for x a
    using not_root(1) [OF inv, of x] that by auto
  ultimately show "join_edges s \<subseteq> ?A \<times> ?A" by (auto simp: join_edges_def)
  show "finite (?A \<times> ?A)" using calls_okD(1) [OF c] by simp
qed

text \<open>
  C7. In a program whose coroutines wait for tasks and channels, joins among them, only a cycle of joins can make them
  wait for each other for ever: as long as there is none, every coroutine that has
  started and not ended, or a coroutine that it waits for through any number of calls and joins, goes
  on by itself or waits on a channel whose sender is in the hands of the program. Waits for semaphores and mutexes, for
  Asio and for blocking functions are not in the system; a lost release of a semaphore, for one, blocks without any join
  (\<open>cancel_strands_next_waiter\<close>).
\<close>

theorem only_join_cycles_block:
  assumes "sys_reach r s" and "acyclic (join_edges s)" and "in_body (sy_ctl s h)"
  shows "\<exists>x. (h, x) \<in> (call_edges (sy_ctl s) \<union> join_edges s)\<^sup>* \<and> (goes_on r s x \<or> waits_for_program s x)"
proof -
  have inv: "sys_inv r s" and e: "ends_inv s" and c: "calls_ok (sy_ctl s) (scopes_of s)"
    using assms(1) by (rule reach_inv, rule reach_ends, rule reach_calls)
  let ?R = "call_edges (sy_ctl s) \<union> join_edges s"
  have "wf ((join_edges s)\<inverse>)" using finite_joins [OF inv c] assms(2) by (rule finite_acyclic_wf_converse)
  then show ?thesis
    using assms(3)
  proof (induction h rule: wf_induct_rule)
    case (less h)
    obtain x where x: "(h, x) \<in> (call_edges (sy_ctl s))\<^sup>*" "in_body (sy_ctl s x)" "\<forall>y. sy_ctl s x \<noteq> Calling y"
      using calls_lead_to_leaf [OF inv c less.prems] by blast
    have hx: "(h, x) \<in> ?R\<^sup>*" using x(1) by (rule subsetD [OF rtrancl_mono, rotated]) simp
    show ?case
    proof (cases "\<exists>aw. sy_ctl s x = Waiting aw")
      case False
      then show ?thesis using leaf_goes_on [OF inv x(2,3)] hx by blast
    next
      case True
      then obtain aw a where w: "sy_ctl s x = Waiting aw" "a_state aw = Some a"
        using awaiter_channel [OF sys_invD(5) [OF inv], of x] by (metis awaiter_of_simps(8))
      show ?thesis
      proof (cases "a \<in> sy_senders s")
        case True
        then show ?thesis using hx w unfolding waits_for_program_def by blast
      next
        case False
        then obtain y where y: "root_sender (sy_world s) y = Some a" using sender_of_wait(2) [OF inv e w] by blast
        then have j: "(h, y) \<in> join_edges s" using x(1) w by (auto simp: join_edges_def)
        moreover have "in_body (sy_ctl s y)" using y unfolding root_sender_iff [OF inv] by blast
        ultimately obtain z where "(y, z) \<in> ?R\<^sup>*" "goes_on r s z \<or> waits_for_program s z" using less.IH [of y] by blast
        then show ?thesis using j by (meson UnI2 converse_rtrancl_into_rtrancl)
      qed
    qed
  qed
qed

lemma demo_join_edges:
  "\<exists>s. sys_run 0 demo_join new_system = Some s \<and> in_body (sy_ctl s 2) \<and> join_edges s \<subseteq> {(2, 3)}"
proof -
  obtain s where s: "sys_run 0 demo_join new_system = Some s"
      "sy_ctl s = (\<lambda>_. Absent)(2 := Waiting \<lparr>a_state = Some 21, a_scope = Some 10, a_guard = 30\<rparr>,
         3 := Waiting \<lparr>a_state = Some 22, a_scope = Some 11, a_guard = 31\<rparr>)"
      "root_sender (sy_world s) = (\<lambda>_. None)(2 := Some 20, 3 := Some 21)"
    by (simp add: demo_join_def to_size_def sys_step_defs sys_data_defs sys_part_defs fun_eq_iff root_sender_def)
  have "call_edges (sy_ctl s) = {}" by (auto simp: call_edges_def s(2) split: if_splits)
  then have "join_edges s \<subseteq> {(2, 3)}" by (auto simp: join_edges_def s(2,3) split: if_splits)
  then show ?thesis using s(1,2) by auto
qed

theorem only_join_cycles_block_witness:
  "\<exists>s x. sys_run 0 demo_join new_system = Some s \<and> (2, x) \<in> (call_edges (sy_ctl s) \<union> join_edges s)\<^sup>* \<and>
     (goes_on 0 s x \<or> waits_for_program s x)"
proof -
  obtain s where s: "sys_run 0 demo_join new_system = Some s" "in_body (sy_ctl s 2)" "join_edges s \<subseteq> {(2, 3)}"
    using demo_join_edges by blast
  have "acyclic {(2 :: handle, 3 :: handle)}" by (simp add: acyclic_insert wf_acyclic)
  then have "acyclic (join_edges s)" using s(3) by (rule acyclic_subset)
  from only_join_cycles_block [OF sys_run_reach [OF reach_start s(1)] this s(2)] s(1) show ?thesis by blast
qed

end
