(* ===== verification/System_Shutdown.thy ===== *)
theory System_Shutdown
  imports System_Cancel
begin

text \<open>
  The start of \<^verbatim>\<open>~runtime\<close> on a system of \<open>System\<close>: the walk along the list of live roots, which cancels the
  scope of each, and what it leaves.
\<close>

section \<open>Cancelling all roots\<close>

text \<open>The callbacks that run on the way act on the channels, and schedule.\<close>

definition sys_cancel_roots :: "nat \<Rightarrow> ('e, 'v) system \<Rightarrow> ('e, 'v) system option" where
  "sys_cancel_roots r s =
     (case cancel_roots run_oneshot_cb r (sy_world s) (w_channels (sy_world s), []) of
        None \<Rightarrow> None
      | Some (w, m, ks) \<Rightarrow> sys_schedule ks (w\<lparr>w_channels := m\<rparr>) (sy_ctl s) s)"

text \<open>What cancelling one scope does to the world, after the wake-ups \<open>k\<close> of others.\<close>

lemma cancel_after:
  assumes inv: "sys_inv r s"
  obtains cw m ks where "\<forall>k. cancel run_oneshot_cb sc (w_cancel (sy_world s)) (w_channels (sy_world s), k) = Some (cw, m, k @ ks)"
    "\<forall>k \<in> set ks. fst k = Some r" "cancelled sc cw"
    "sys_cancel sc s = Some (s\<lparr>sy_world := enqueue r (map snd ks) ((sy_world s)\<lparr>w_cancel := cw, w_channels := m\<rparr>), sy_ctl := woken ks (sy_ctl s)\<rparr>)"
proof -
  note i = sys_invD [OF inv]
  let ?m = "w_channels (sy_world s)" and ?cw = "w_cancel (sy_world s)"
  have sched: "sys_cancel sc s = Some (s\<lparr>sy_world := enqueue r (map snd ks) ((sy_world s)\<lparr>w_cancel := cw, w_channels := m\<rparr>), sy_ctl := woken ks (sy_ctl s)\<rparr>)"
    if "cancel run_oneshot_cb sc ?cw (?m, []) = Some (cw, m, [] @ ks)" "\<forall>k \<in> set ks. fst k = Some r" for cw m ks
    using that sys_scheduled [OF that(2)] by (simp add: sys_cancel_def)
  show thesis
  proof (cases "cancelled sc ?cw")
    case True
    then have c: "cancel run_oneshot_cb sc ?cw (?m, k) = Some (?cw, ?m, k @ [])" for k by (simp add: cancel_def)
    from that [of ?cw ?m "[]"] c True sched [OF c] show thesis by simp
  next
    case False
    obtain xs where xs: "scope_chain sc ?cw xs" "set xs = armed_on sc ?cw"
      using guards_okD(1) [OF i(6)] unfolding cancel_inv_def scope_ok_def by blast
    define cbs where "cbs = callbacks xs ?cw"
    define ks where "ks = map (\<lambda>cb. (o_rt (?m (cb_channel cb)), cb_handle cb)) (filter (cb_wakes ?m) cbs)"
    define m where "m = (\<lambda>a. if a \<in> cb_channel ` set cbs then snd (cancel_and_take_waiter (?m a)) else ?m a)"
    define cw where "cw = fire_all sc xs (upd_scope sc (\<lambda>r. r\<lparr>s_cancelled := True\<rparr>) ?cw)"
    have c: "cancel run_oneshot_cb sc ?cw (?m, k) = Some (cw, m, k @ ks)" for k
    proof -
      obtain ys where ys: "scope_chain sc ?cw ys" "cancel_locked run_oneshot_cb sc ?cw (?m, k) =
          Some (fire_all sc ys (upd_scope sc (\<lambda>r. r\<lparr>s_cancelled := True\<rparr>) ?cw), fold run_oneshot_cb (callbacks ys ?cw) (?m, k))"
        by (rule cancel_locked_drains [OF guards_okD(1) [OF i(6)] False])
      then have "ys = xs" using xs(1) by (blast intro: scope_chain_unique)
      with ys(2) False drain(1) [OF inv xs refl refl, of k, folded cbs_def] show ?thesis
        by (simp add: cancel_def cw_def m_def ks_def cbs_def)
    qed
    have "\<forall>k \<in> set ks. fst k = Some r" unfolding ks_def by (rule drain(2) [OF inv xs cbs_def refl])
    moreover have "cancelled sc cw" by (auto simp: cw_def cancelled_def fire_all_def)
    ultimately show thesis using that [of cw m ks] c sched [OF c] by blast
  qed
qed

lemma enqueue_twice: "enqueue r hs' ((enqueue r hs w)\<lparr>w_cancel := cw, w_channels := m\<rparr>) = enqueue r (hs @ hs') (w\<lparr>w_cancel := cw, w_channels := m\<rparr>)"
  by (simp add: enqueue_def upd_rt_def)

lemma enqueue_none: "enqueue r [] w = w"
  by (cases w) (simp add: enqueue_def upd_rt_def)

text \<open>The walk is the cancellation of the scopes one by one: what it does is reachable.\<close>

lemma roots_one_by_one:
  assumes "seg (\<lambda>n. pr_next (promise_of w n)) p pr n xs l None" and "sys_reach r s"
    and "\<forall>h \<in> set xs. \<exists>sc \<in> sy_scopes s. pr_scope_raw (promise_of w h) = Some sc"
    and "w_frames (sy_world s) = w_frames w" "w_cancel (sy_world s) = w_cancel w"
  shows "\<exists>cw m ks t. cancel_roots_from run_oneshot_cb n w (w_channels (sy_world s), k) = Some (w\<lparr>w_cancel := cw\<rparr>, m, k @ ks) \<and>
    (\<forall>k \<in> set ks. fst k = Some r) \<and> sys_reach r t \<and>
    t = s\<lparr>sy_world := enqueue r (map snd ks) ((sy_world s)\<lparr>w_cancel := cw, w_channels := m\<rparr>), sy_ctl := woken ks (sy_ctl s)\<rparr> \<and>
    (\<forall>h \<in> set xs. \<forall>sc. pr_scope_raw (promise_of w h) = Some sc \<longrightarrow> cancelled sc cw) \<and>
    (\<forall>sc. cancelled sc (w_cancel w) \<longrightarrow> cancelled sc cw)"
  using assms
proof (induction xs arbitrary: n pr w s k)
  case Nil
  have "cancel_roots_from run_oneshot_cb n w (w_channels (sy_world s), k) = Some (w, w_channels (sy_world s), k)"
    using Nil.prems(1) by (subst cancel_roots_from.simps) simp
  then show ?case
    using Nil.prems(2,5) by (intro exI [of _ "w_cancel w"] exI [of _ "w_channels (sy_world s)"] exI [of _ "[]"] exI [of _ s])
      (simp add: enqueue_none flip: Nil.prems(5))
next
  case (Cons h xs)
  have inv: "sys_inv r s" using Cons.prems(2) by (rule reach_inv)
  have n: "n = Some h" "seg (\<lambda>n. pr_next (promise_of w n)) p (Some h) (pr_next (promise_of w h)) xs l None"
    using Cons.prems(1) by auto
  obtain sc where sc: "pr_scope_raw (promise_of w h) = Some sc" "sc \<in> sy_scopes s" using Cons.prems(3) by auto
  obtain cw1 m1 ks1 where c: "\<forall>k. cancel run_oneshot_cb sc (w_cancel (sy_world s)) (w_channels (sy_world s), k) = Some (cw1, m1, k @ ks1)"
      "\<forall>k \<in> set ks1. fst k = Some r" "cancelled sc cw1"
      "sys_cancel sc s = Some (s\<lparr>sy_world := enqueue r (map snd ks1) ((sy_world s)\<lparr>w_cancel := cw1, w_channels := m1\<rparr>), sy_ctl := woken ks1 (sy_ctl s)\<rparr>)"
      (is "_ = Some ?s1")
    by (rule cancel_after [OF inv, where sc = sc])
  have r1: "sys_reach r ?s1" using reach_step [OF Cons.prems(2), of "Op_cancel_scope sc"] sc(2) c(4) by simp
  have old: "cancelled x cw1" if "cancelled x (w_cancel w)" for x
    using cancel_sets_flags [OF guards_okD(1) [OF sys_invD(6) [OF inv]], of run_oneshot_cb sc "(w_channels (sy_world s), [])"]
      c(1) that Cons.prems(5) by auto
  let ?w1 = "w\<lparr>w_cancel := cw1\<rparr>"
  obtain cw m ks t where t: "cancel_roots_from run_oneshot_cb (pr_next (promise_of w h)) ?w1 (m1, k @ ks1) = Some (w\<lparr>w_cancel := cw\<rparr>, m, (k @ ks1) @ ks)"
      "\<forall>k \<in> set ks. fst k = Some r" "sys_reach r t"
      "t = ?s1\<lparr>sy_world := enqueue r (map snd ks) ((sy_world ?s1)\<lparr>w_cancel := cw, w_channels := m\<rparr>), sy_ctl := woken ks (sy_ctl ?s1)\<rparr>"
      "\<forall>h \<in> set xs. \<forall>sc. pr_scope_raw (promise_of w h) = Some sc \<longrightarrow> cancelled sc cw" "\<forall>sc. cancelled sc cw1 \<longrightarrow> cancelled sc cw"
    using Cons.IH [of ?w1 "Some h" "pr_next (promise_of w h)" ?s1 "k @ ks1"] n(2) r1 Cons.prems(3,4) by auto
  have "cancel_roots_from run_oneshot_cb n w (w_channels (sy_world s), k) = Some (w\<lparr>w_cancel := cw\<rparr>, m, k @ ks1 @ ks)"
    using t(1) c(1) [rule_format, of k] n(1) sc(1) Cons.prems(5) by (subst cancel_roots_from.simps) simp
  moreover have "t = s\<lparr>sy_world := enqueue r (map snd (ks1 @ ks)) ((sy_world s)\<lparr>w_cancel := cw, w_channels := m\<rparr>),
      sy_ctl := woken (ks1 @ ks) (sy_ctl s)\<rparr>"
    using t(4) by (simp add: enqueue_twice)
  moreover have "\<forall>k \<in> set (ks1 @ ks). fst k = Some r" using c(2) t(2) by auto
  moreover have "\<forall>y \<in> set (h # xs). \<forall>x. pr_scope_raw (promise_of w y) = Some x \<longrightarrow> cancelled x cw"
    using t(5,6) c(3) sc(1) by auto
  moreover have "\<forall>x. cancelled x (w_cancel w) \<longrightarrow> cancelled x cw" using old t(6) by blast
  ultimately show ?case using t(3) by blast
qed

lemma roots_cancelled:
  assumes "sys_reach r s"
  obtains ks cw m t where "sys_cancel_roots r s = Some t" "sys_reach r t" "sy_ctl t = woken ks (sy_ctl s)"
    "sy_world t = enqueue r (map snd ks) ((sy_world s)\<lparr>w_cancel := cw, w_channels := m\<rparr>)"
    "\<And>h. h \<in> live_roots (w_frames (sy_world s)) \<Longrightarrow>
      \<exists>sc. pr_owning_scope (promise_of (sy_world s) h) = Some sc \<and> cancelled sc cw"
proof -
  have inv: "sys_inv r s" using assms by (rule reach_inv)
  let ?w = "sy_world s"
  obtain xs where xs: "root_chain r ?w xs" "set xs = live_roots (core ?w)"
    using sys_invD(4) [OF inv] by (auto simp: roots_ok_in_def)
  have roots: "set xs = live_roots (w_frames ?w)" using xs(2) by (simp add: live_roots_def)
  have raw: "\<exists>sc \<in> sy_scopes s. pr_scope_raw (promise_of ?w h) = Some sc \<and> pr_owning_scope (promise_of ?w h) = Some sc"
    if "h \<in> set xs" for h
    using that frame_of [OF inv, of h] unfolding roots by (auto simp: live_roots_def frame_fits_def)
  have seg: "seg (\<lambda>n. pr_next (promise_of ?w n)) (\<lambda>n. pr_prev (promise_of ?w n)) None (rt_roots_head (w_rts ?w r)) xs (last_ptr xs) None"
    using xs(1) by (simp add: root_chain_def root_links_def dll_def)
  have "\<forall>h \<in> set xs. \<exists>sc \<in> sy_scopes s. pr_scope_raw (promise_of ?w h) = Some sc" using raw by blast
  from roots_one_by_one [OF seg assms this refl refl, of "[]", unfolded append_Nil] obtain cw m ks t where
    c: "cancel_roots_from run_oneshot_cb (rt_roots_head (w_rts ?w r)) ?w (w_channels ?w, []) = Some (?w\<lparr>w_cancel := cw\<rparr>, m, ks)"
      "\<forall>k \<in> set ks. fst k = Some r" "sys_reach r t"
      "t = s\<lparr>sy_world := enqueue r (map snd ks) (?w\<lparr>w_cancel := cw, w_channels := m\<rparr>), sy_ctl := woken ks (sy_ctl s)\<rparr>"
      "\<forall>h \<in> set xs. \<forall>sc. pr_scope_raw (promise_of ?w h) = Some sc \<longrightarrow> cancelled sc cw"
    by blast
  have "sys_cancel_roots r s = Some t"
    using c(1,4) sys_scheduled [OF c(2)] by (simp add: sys_cancel_roots_def cancel_roots_def)
  moreover have "\<exists>sc. pr_owning_scope (promise_of ?w h) = Some sc \<and> cancelled sc cw" if "h \<in> live_roots (w_frames ?w)" for h
    using raw [of h] c(5) that unfolding roots [symmetric] by blast
  ultimately show thesis using that [of t ks m cw] c(3,4) by simp
qed

section \<open>Nobody waits any more\<close>

text \<open>
  C8. The walk of \<^verbatim>\<open>~runtime\<close> along its roots ends every wait for a task or a channel, whatever the system of
  \<open>System\<close> is doing when it starts: it
  returns, every coroutine of the runtime is then under a cancelled scope, each that waited on a channel is in the run
  queue and no other has moved, so nobody waits on one; every coroutine, or the one that it waits for through any number
  of calls, can go on. So
  the destructor, which then waits for the roots to end, is not kept waiting by these waits. The others are not in
  the system: a taken blocking function, an operation of Asio whose initiation the cancellation comes before
  (\<open>cancel_before_initiation_is_lost\<close>) and a root spawned after the walk (\<open>late_root_is_not_cancelled\<close>) can keep it
  waiting.
\<close>

theorem destructor_ends_every_wait:
  assumes "sys_reach r s"
  shows "\<exists>t. sys_cancel_roots r s = Some t \<and> sys_reach r t \<and>
    (\<forall>h. in_body (sy_ctl t h) \<longrightarrow> (\<exists>sc. pr_owning_scope (promise_of (sy_world t) h) = Some sc \<and> cancelled sc (w_cancel (sy_world t)))) \<and>
    (\<forall>h aw. sy_ctl t h \<noteq> Waiting aw) \<and>
    (\<forall>h aw. sy_ctl s h = Waiting aw \<longrightarrow> sy_ctl t h = Woken aw \<and> h \<in> set (rt_queue (w_rts (sy_world t) r))) \<and>
    (\<forall>h. (\<forall>aw. sy_ctl s h \<noteq> Waiting aw) \<longrightarrow> sy_ctl t h = sy_ctl s h) \<and>
    (\<forall>h. in_body (sy_ctl t h) \<longrightarrow> (\<exists>x. (h, x) \<in> (call_edges (sy_ctl t))\<^sup>* \<and> goes_on r t x))"
proof -
  have inv: "sys_inv r s" and c: "calls_ok (sy_ctl s) (scopes_of s)" using assms by (rule reach_inv, rule reach_calls)
  obtain ks cw m t where t: "sys_cancel_roots r s = Some t" "sys_reach r t" "sy_ctl t = woken ks (sy_ctl s)"
      "sy_world t = enqueue r (map snd ks) ((sy_world s)\<lparr>w_cancel := cw, w_channels := m\<rparr>)"
    and roots: "\<And>h. h \<in> live_roots (w_frames (sy_world s)) \<Longrightarrow>
      \<exists>sc. pr_owning_scope (promise_of (sy_world s) h) = Some sc \<and> cancelled sc cw"
    by (rule roots_cancelled [OF assms]) blast
  have invt: "sys_inv r t" and ct: "calls_ok (sy_ctl t) (scopes_of t)" using t(2) by (rule reach_inv, rule reach_calls)
  have under: "\<exists>sc. pr_owning_scope (promise_of (sy_world t) h) = Some sc \<and> cancelled sc (w_cancel (sy_world t))"
    if "in_body (sy_ctl t h)" for h
  proof -
    have "in_body (sy_ctl s h)" using that t(3) by simp
    then have "sy_ctl s h \<noteq> Absent" "sy_ctl s h \<noteq> Created" by (auto simp: in_body_def)
    then obtain p where p: "p \<in> live_roots (w_frames (sy_world s))" "(p, h) \<in> (call_edges (sy_ctl s))\<^sup>*"
      using started_has_root [OF inv c] by blast
    have "scopes_of s h = scopes_of s p" using same_scope_along_calls [OF c p(2)] .
    with roots [OF p(1)] show ?thesis using t(4) by (auto simp: scopes_of_def)
  qed
  have none: "sy_ctl t h \<noteq> Waiting aw" for h aw
  proof
    assume w: "sy_ctl t h = Waiting aw"
    then have a: "awaiter_of (sy_ctl t h) = Some aw" by simp
    obtain b where b: "a_state aw = Some b" using awaiter_channel [OF sys_invD(5) [OF invt] a] by blast
    have "in_body (sy_ctl t h)" using w by simp
    from under [OF this] obtain sc where sc: "scopes_of t h = Some sc" "cancelled sc (w_cancel (sy_world t))"
      by (auto simp: scopes_of_def)
    from calls_okD(4) [OF ct a] sc waiting_unresolved(2) [OF invt w b] show False by (simp add: cancelled_def)
  qed
  have moved: "sy_ctl t h = (if h \<in> snd ` set ks then wakes_ctl (sy_ctl s h) else sy_ctl s h)" for h
    using t(3) by (simp add: woken_at)
  have "sy_ctl t h = Woken aw \<and> h \<in> set (rt_queue (w_rts (sy_world t) r))" if "sy_ctl s h = Waiting aw" for h aw
    using moved [of h] none [of h aw] that t(4) by (auto simp: wakes_ctl_def split: if_splits)
  moreover have "sy_ctl t h = sy_ctl s h" if "\<forall>aw. sy_ctl s h \<noteq> Waiting aw" for h
    using moved [of h] that by (auto simp: wakes_ctl_def split: ctl.splits)
  moreover have "\<exists>x. (h, x) \<in> (call_edges (sy_ctl t))\<^sup>* \<and> goes_on r t x" if "in_body (sy_ctl t h)" for h
    using calls_lead_to_leaf [OF invt ct that] leaf_goes_on [OF invt] none by blast
  ultimately show ?thesis using t(1,2) under none by blast
qed

theorem destructor_ends_every_wait_witness:
  "\<exists>s t. sys_run 0 demo_join new_system = Some s \<and> sys_cancel_roots 0 s = Some t \<and>
     sy_ctl s 2 = Waiting \<lparr>a_state = Some 21, a_scope = Some 10, a_guard = 30\<rparr> \<and>
     sy_ctl t 2 = Woken \<lparr>a_state = Some 21, a_scope = Some 10, a_guard = 30\<rparr>"
proof -
  obtain s where s: "sys_run 0 demo_join new_system = Some s"
      "sy_ctl s 2 = Waiting \<lparr>a_state = Some 21, a_scope = Some 10, a_guard = 30\<rparr>"
    using demo_joins by blast
  from destructor_ends_every_wait [OF sys_run_reach [OF reach_start s(1)]] s show ?thesis by blast
qed

section \<open>Corners\<close>

text \<open>
  The walk is done once. A root that is spawned after it has a scope of its own that nobody cancels: it can wait, and
  the destructor waits for it, as long as nobody sends.
\<close>

definition demo_early :: "(nat, nat) sys_op list" where
  "demo_early = [Op_create 2, Op_spawn 2 10 20, Op_take]"

definition demo_late :: "(nat, nat) sys_op list" where
  "demo_late = [Op_create 3, Op_spawn 3 11 21, Op_make 22, Op_end 2 (Gave 1), Op_take,
     Op_await 3 22 31, Op_test 3, Op_arm_awaiter 3, Op_enrol 3]"

lemma late_root_is_not_cancelled:
  "\<exists>s t u. sys_run 0 demo_early new_system = Some s \<and> sys_cancel_roots 0 s = Some t \<and> sys_run 0 demo_late t = Some u \<and>
     sy_ctl u 3 = Waiting \<lparr>a_state = Some 22, a_scope = Some 11, a_guard = 31\<rparr> \<and>
     rt_live (w_rts (sy_world u) 0) = 1 \<and> rt_queue (w_rts (sy_world u) 0) = []"
  by (simp add: demo_early_def demo_late_def to_size_def sys_step_defs sys_data_defs sys_part_defs sys_cancel_roots_def
      cancel_roots_def cancel_roots_from.simps cancel_def cancel_locked_def cancel_loop.simps sys_end_def final_suspend_def
      final_suspend_with_def send_outcome_def send_def set_value_def mark_sender_dropped_def unregister_root_def
      destroy_frame_def return_value_def outcome_of_def empty_outcome_def wake_if_def)

end
