(* ===== verification/Void_Task.thy ===== *)
theory Void_Task
  imports Runtime
begin

text \<open>
  The specialisation \<^verbatim>\<open>task<void>\<close> of \<^verbatim>\<open>include/coasio/task.hpp\<close>, a class of its own whose text repeats
  most of \<^verbatim>\<open>task<T>\<close>. Its members are written out from that text; what \<open>Task\<close> already defines of it
  is the end of the body, the final suspension and the result of an await, and \<open>Runtime\<close> the
  joining. What is shown is that programs cannot tell the two classes apart: over every history of
  calls a \<^verbatim>\<open>task<void>\<close> does what a \<^verbatim>\<open>task<T>\<close> with one value does, but for the result field, which it
  does not have.
\<close>

section \<open>The class\<close>

text \<open>The data members of the promise; there is no \<^verbatim>\<open>result_\<close>. Then \<^verbatim>\<open>get_return_object\<close>.\<close>

definition void_promise :: "('e, 'v) promise" where
  "void_promise = \<lparr>pr_prev = None, pr_next = None, pr_scope_raw = None, pr_owner_rt = None,
     pr_result = None, pr_exception = None, pr_owning_scope = None, pr_sender = None,
     pr_continuation = None, pr_detached = False\<rparr>"

definition void_get_return_object ::
  "handle \<Rightarrow> ('e, 'v, 'cb) world \<Rightarrow> task_obj \<times> ('e, 'v, 'cb) world" where
  "void_get_return_object h w =
     (Some h, upd_frame h (\<lambda>_. \<lparr>fr_promise = void_promise, fr_done = False, fr_alive = True\<rparr>) w)"

text \<open>\<open>same\<close> is the test \<^verbatim>\<open>this == &o\<close>.\<close>

definition void_move :: "task_obj \<Rightarrow> task_obj \<times> task_obj" where
  "void_move o' = (o', None)"

definition void_destroy ::
  "task_obj \<Rightarrow> ('e, 'v, 'cb) world \<Rightarrow> (('e, 'v, 'cb) world \<times> wake list) option" where
  "void_destroy t w = (case t of Some h \<Rightarrow> destroy_frame h w | None \<Rightarrow> Some (w, []))"

definition void_assign ::
  "bool \<Rightarrow> task_obj \<Rightarrow> task_obj \<Rightarrow> ('e, 'v, 'cb) world \<Rightarrow>
   (task_obj \<times> task_obj \<times> ('e, 'v, 'cb) world \<times> wake list) option" where
  "void_assign same t o' w =
     (if \<not> same then
        (case (case t of Some h \<Rightarrow> destroy_frame h w | None \<Rightarrow> Some (w, [])) of
           None \<Rightarrow> None
         | Some (w', k) \<Rightarrow> Some (o', None, w', k))
      else Some (t, o', w, []))"

definition void_release :: "task_obj \<Rightarrow> handle option \<times> task_obj" where
  "void_release t = (t, None)"

definition void_detach ::
  "task_obj \<Rightarrow> ('e, 'v, 'cb) world \<Rightarrow> handle option \<times> task_obj \<times> ('e, 'v, 'cb) world" where
  "void_detach t w =
     (case void_release t of (h, t') \<Rightarrow>
        (h, t', case h of Some h \<Rightarrow> upd_promise h (\<lambda>p. p\<lparr>pr_detached := True\<rparr>) w | None \<Rightarrow> w))"

definition void_set_owning_scope ::
  "task_obj \<Rightarrow> scope_ptr \<Rightarrow> ('e, 'v, 'cb) world \<Rightarrow> ('e, 'v, 'cb) world option" where
  "void_set_owning_scope t s w = map_option (\<lambda>h. upd_promise h (\<lambda>p. p\<lparr>pr_owning_scope := s\<rparr>) w) t"

definition void_valid :: "task_obj \<Rightarrow> ('e, 'v, 'cb) world \<Rightarrow> bool" where
  "void_valid t w \<longleftrightarrow> t \<noteq> None \<and> \<not> fr_done (w_frames w (the t))"

text \<open>What \<^verbatim>\<open>co_await\<close> does in the body of a \<^verbatim>\<open>task<void>\<close> at \<open>h\<close>, and its awaiter.\<close>

definition void_await_transform_task ::
  "handle \<Rightarrow> task_obj \<Rightarrow> ('e, 'v, 'cb) world \<Rightarrow> (task_obj \<times> ('e, 'v, 'cb) world) option" where
  "void_await_transform_task h child w =
     (case child of
        None \<Rightarrow> None
      | Some c \<Rightarrow> Some (Some c, upd_promise c (\<lambda>cp. cp\<lparr>pr_owning_scope := pr_owning_scope (promise_of w h)\<rparr>) w))"

definition void_await_transform_leaf ::
  "(scope_ptr \<Rightarrow> 'a \<Rightarrow> 'a) \<Rightarrow> handle \<Rightarrow> 'a \<Rightarrow> ('e, 'v, 'cb) world \<Rightarrow> 'a" where
  "void_await_transform_leaf set_cancel_scope h a w = set_cancel_scope (pr_owning_scope (promise_of w h)) a"

definition void_awaiter_destroy ::
  "task_obj \<Rightarrow> ('e, 'v, 'cb) world \<Rightarrow> (('e, 'v, 'cb) world \<times> wake list) option" where
  "void_awaiter_destroy t w = (case t of Some h \<Rightarrow> destroy_frame h w | None \<Rightarrow> Some (w, []))"

definition void_await_ready :: "task_obj \<Rightarrow> ('e, 'v, 'cb) world \<Rightarrow> bool" where
  "void_await_ready t w \<longleftrightarrow> t = None \<or> fr_done (w_frames w (the t))"

definition void_await_suspend ::
  "task_obj \<Rightarrow> handle \<Rightarrow> ('e, 'v, 'cb) world \<Rightarrow> (handle \<times> ('e, 'v, 'cb) world) option" where
  "void_await_suspend t caller w =
     map_option (\<lambda>h. (h, upd_promise h (\<lambda>p. p\<lparr>pr_continuation := Some caller\<rparr>) w)) t"

section \<open>The two classes agree\<close>

text \<open>The members that do not touch the result are the same.\<close>

lemma void_members:
  "void_promise = new_promise" "void_move = task_move" "void_destroy = task_destroy" "void_assign = task_assign"
  "void_release = task_release" "void_detach = task_detach" "void_set_owning_scope = task_set_owning_scope"
  "void_valid = task_valid" "void_await_transform_task = await_transform_task"
  "void_await_transform_leaf = await_transform_leaf" "void_awaiter_destroy = task_awaiter_destroy"
  "void_await_ready = task_await_ready" "void_await_suspend = task_await_suspend"
  by (auto simp: fun_eq_iff void_promise_def new_promise_def void_move_def task_move_def void_destroy_def task_destroy_def
      void_assign_def task_assign_def void_release_def task_release_def void_detach_def task_detach_def
      void_set_owning_scope_def task_set_owning_scope_def void_valid_def task_valid_def void_await_transform_task_def
      await_transform_task_def void_await_transform_leaf_def await_transform_leaf_def void_awaiter_destroy_def
      task_awaiter_destroy_def void_await_ready_def task_await_ready_def void_await_suspend_def task_await_suspend_def
      split: option.splits)

text \<open>A world in which the results are left out, in the promises and in the outcomes sent.\<close>

definition forget_promise :: "('e, unit) promise \<Rightarrow> ('e, unit) promise" where
  "forget_promise p = p\<lparr>pr_result := None\<rparr>"

definition forget_frame :: "('e, unit) frame \<Rightarrow> ('e, unit) frame" where
  "forget_frame f = f\<lparr>fr_promise := forget_promise (fr_promise f)\<rparr>"

definition forget_outcome :: "('e, unit) root_outcome \<Rightarrow> ('e, unit) root_outcome" where
  "forget_outcome v = v\<lparr>ro_value := None\<rparr>"

definition forget_channel :: "('e, unit) root_outcome oneshot \<Rightarrow> ('e, unit) root_outcome oneshot" where
  "forget_channel s = s\<lparr>o_value := map_option forget_outcome (o_value s)\<rparr>"

definition forget :: "('e, unit, 'cb) world \<Rightarrow> ('e, unit, 'cb) world" where
  "forget w = w\<lparr>w_frames := \<lambda>h. forget_frame (w_frames w h), w_channels := \<lambda>a. forget_channel (w_channels w a)\<rparr>"

lemma forget_simps [simp]:
  "w_frames (forget w) h = forget_frame (w_frames w h)" "w_channels (forget w) a = forget_channel (w_channels w a)"
  "w_rts (forget w) = w_rts w" "w_cancel (forget w) = w_cancel w"
  "fr_promise (forget_frame f) = forget_promise (fr_promise f)" "fr_done (forget_frame f) = fr_done f"
  "fr_alive (forget_frame f) = fr_alive f"
  by (simp_all add: forget_def forget_frame_def)

lemma forget_promise_simps [simp]:
  "pr_prev (forget_promise p) = pr_prev p" "pr_next (forget_promise p) = pr_next p"
  "pr_scope_raw (forget_promise p) = pr_scope_raw p" "pr_owner_rt (forget_promise p) = pr_owner_rt p"
  "pr_exception (forget_promise p) = pr_exception p" "pr_owning_scope (forget_promise p) = pr_owning_scope p"
  "pr_sender (forget_promise p) = pr_sender p" "pr_continuation (forget_promise p) = pr_continuation p"
  "pr_detached (forget_promise p) = pr_detached p"
  by (simp_all add: forget_promise_def)

lemma world_eqI:
  "w_frames w = w_frames w' \<Longrightarrow> w_rts w = w_rts w' \<Longrightarrow> w_channels w = w_channels w' \<Longrightarrow> w_cancel w = w_cancel w' \<Longrightarrow>
   w = w'"
  for w w' :: "('e, 'v, 'cb) world"
  by (cases w; cases w') simp

lemma forget_upd_promise:
  "(\<And>p. g (forget_promise p) = forget_promise (f p)) \<Longrightarrow> upd_promise h g (forget w) = forget (upd_promise h f w)"
  by (rule world_eqI) (auto simp: fun_eq_iff forget_frame_def forget_promise_def)

lemma forget_links:
  "upd_promise h (\<lambda>p. p\<lparr>pr_next := x\<rparr>) (forget w) = forget (upd_promise h (\<lambda>p. p\<lparr>pr_next := x\<rparr>) w)"
  "upd_promise h (\<lambda>p. p\<lparr>pr_prev := x\<rparr>) (forget w) = forget (upd_promise h (\<lambda>p. p\<lparr>pr_prev := x\<rparr>) w)"
  "upd_rt r k (forget w) = forget (upd_rt r k w)"
  by (auto intro!: forget_upd_promise world_eqI simp: forget_promise_def fun_eq_iff)

lemma forget_unregister: "unregister_root r n (forget w) = forget (unregister_root r n w)"
  by (simp add: unregister_root_def Let_def forget_links split: option.splits)

lemma forget_channels: "(forget w)\<lparr>w_channels := \<lambda>a. forget_channel (m a)\<rparr> = forget (w\<lparr>w_channels := m\<rparr>)"
  by (rule world_eqI) (auto simp: fun_eq_iff)

lemma forget_upd_channel:
  "(forget w)\<lparr>w_channels := (w_channels (forget w))(x := forget_channel s)\<rparr> = forget (w\<lparr>w_channels := (w_channels w)(x := s)\<rparr>)"
  by (rule world_eqI) (auto simp: fun_eq_iff)

lemma forget_sender_dropped:
  "mark_sender_dropped (forget_channel s) = map_prod forget_channel id (mark_sender_dropped s)"
  by (simp add: mark_sender_dropped_def forget_channel_def Let_def)

lemma forget_set_value:
  "set_value (forget_outcome v) (forget_channel s) =
   map_prod (map_sum forget_outcome id) (map_prod forget_channel id) (set_value v s)"
  by (simp add: set_value_def forget_channel_def Let_def)

lemma forget_frames:
  "upd_frame h (\<lambda>f. f\<lparr>fr_done := b\<rparr>) (forget w) = forget (upd_frame h (\<lambda>f. f\<lparr>fr_done := b\<rparr>) w)"
  "upd_frame h (\<lambda>f. f\<lparr>fr_alive := b\<rparr>) (forget w) = forget (upd_frame h (\<lambda>f. f\<lparr>fr_alive := b\<rparr>) w)"
  by (rule world_eqI; auto simp: fun_eq_iff forget_frame_def)+

lemma forget_sender_destroy:
  "(case sender_destroy p (w_channels (forget w)) of (m, k) \<Rightarrow> ((forget w)\<lparr>w_channels := m\<rparr>, k)) =
   (case sender_destroy p (w_channels w) of (m, k) \<Rightarrow> (forget (w\<lparr>w_channels := m\<rparr>), k))"
  by (simp add: sender_destroy_def forget_sender_dropped forget_upd_channel split: option.splits prod.splits)

lemma forget_destroy:
  "destroy_frame h (forget w) = map_option (\<lambda>(w', k). (forget w', k)) (destroy_frame h w)"
proof -
  let ?u = "upd_frame h (\<lambda>f. f\<lparr>fr_alive := False\<rparr>)"
  have "(case sender_destroy p (w_channels (forget w)) of (m, k) \<Rightarrow> ((?u (forget w))\<lparr>w_channels := m\<rparr>, k)) =
      (case sender_destroy p (w_channels w) of (m, k) \<Rightarrow> (forget ((?u w)\<lparr>w_channels := m\<rparr>), k))" for p
    using forget_sender_destroy [of "?u w" p] by (simp add: forget_frames) (simp add: forget_def)
  from this [of "pr_sender (promise_of w h)"] show ?thesis
    by (auto simp: destroy_frame_def split: prod.splits)
qed

lemma forget_send:
  "send_outcome outcome_of_void h (forget w) = map_prod forget id (send_outcome outcome_of h w)"
proof -
  have v: "outcome_of_void (forget_promise p) = forget_outcome (outcome_of p)" for p :: "('a, unit) promise"
    by (simp add: outcome_of_void_def outcome_of_def forget_outcome_def empty_outcome_def split: option.splits)
  show ?thesis
    by (simp add: send_outcome_def send_def v forget_set_value forget_upd_channel split: option.splits prod.splits)
qed

lemma forget_final_suspend:
  "final_suspend_void h (forget w) = map_option (\<lambda>(w', n, k). (forget w', n, k)) (final_suspend h w)"
  by (auto simp: final_suspend_void_eq final_suspend_def final_suspend_with_def Let_def forget_frames forget_send
      forget_unregister forget_destroy option.map_comp comp_def case_prod_unfold split: prod.splits option.splits)

text \<open>What the end of the body leaves, and what those who wait for the task read.\<close>

lemma forget_end_body: "end_body_void r (forget_promise p) = forget_promise (end_body r p)"
  by (cases r) (simp_all add: return_void_def return_value_def unhandled_exception_def forget_promise_def)

lemma forget_resume:
  assumes "pr_exception (promise_of w h) \<noteq> None \<or> pr_result (promise_of w h) \<noteq> None"
  shows "task_await_resume_void (Some h) (forget w) = task_await_resume (Some h) w"
  using assms by (auto simp: task_await_resume_void_def task_await_resume_def split: option.splits)

lemma forget_end:
  "upd_promise h (end_body_void r) (forget w) = forget (upd_promise h (end_body r) w)"
  by (rule forget_upd_promise) (rule forget_end_body)

text \<open>Creating, spawning and joining.\<close>

lemma forget_create:
  "void_get_return_object h (forget w) = map_prod id forget (get_return_object h w)"
  by (auto simp: void_get_return_object_def get_return_object_def void_members(1) fun_eq_iff forget_frame_def
      forget_promise_def new_promise_def intro!: world_eqI)

lemma forget_register: "register_root r n (forget w) = forget (register_root r n w)"
proof -
  have "upd_promise n (\<lambda>p. p\<lparr>pr_next := x, pr_prev := y\<rparr>) (forget w) =
      forget (upd_promise n (\<lambda>p. p\<lparr>pr_next := x, pr_prev := y\<rparr>) w)" for x y
    by (rule forget_upd_promise) (simp add: forget_promise_def)
  then show ?thesis by (simp add: register_root_def Let_def forget_links split: option.splits)
qed

lemma forget_new_channel:
  "(forget w)\<lparr>w_channels := (w_channels (forget w))(a := new_oneshot)\<rparr> = forget (w\<lparr>w_channels := (w_channels w)(a := new_oneshot)\<rparr>)"
  by (rule world_eqI) (auto simp: fun_eq_iff forget_channel_def new_oneshot_def)

lemma forget_cancel: "(forget w)\<lparr>w_cancel := c\<rparr> = forget (w\<lparr>w_cancel := c\<rparr>)"
  by (rule world_eqI) auto

lemma forget_sender_dies:
  assumes "sender_destroy p (w_channels w) = (ch, k)"
  obtains ch' where "sender_destroy p (w_channels (forget w)) = (ch', k)"
    "(forget w)\<lparr>w_channels := ch'\<rparr> = forget (w\<lparr>w_channels := ch\<rparr>)"
  using forget_sender_destroy [where p = p and w = w] assms by (auto split: prod.splits)

lemma forget_valid: "task_valid t (forget w) = task_valid t w"
  by (simp add: task_valid_def split: option.splits)

lemma forget_task_destroy: "task_destroy t (forget w) = map_option (\<lambda>(w', k). (forget w', k)) (task_destroy t w)"
  by (simp add: task_destroy_def forget_destroy split: option.splits)

lemma forget_schedule: "upd_rt r f (forget w) = forget (upd_rt r f w)"
  by (rule world_eqI) auto

lemma forget_spawn:
  "spawn r t sc a (forget w) = map_option (\<lambda>(j, w', k). (j, forget w', k)) (spawn r t sc a w)"
proof (cases "task_valid t w")
  case False
  then show ?thesis
    by (simp add: spawn_def forget_valid forget_task_destroy option.map_comp comp_def case_prod_unfold)
next
  case True
  then obtain h where t: "t = Some h" by (cases t) (simp_all add: task_valid_def)
  let ?w1 = "\<lambda>w :: ('a, unit, 'b) world. w\<lparr>w_cancel := upd_scope sc (\<lambda>_. new_scope) (w_cancel w)\<rparr>"
  let ?w2 = "\<lambda>w. upd_promise h (\<lambda>p. p\<lparr>pr_owning_scope := Some sc\<rparr>)
    ((?w1 w)\<lparr>w_channels := (w_channels (?w1 w))(a := new_oneshot)\<rparr>)"
  let ?w3 = "upd_promise h (\<lambda>p. p\<lparr>pr_sender := Some a, pr_owner_rt := Some r, pr_scope_raw := Some sc\<rparr>)"
  let ?w5 = "\<lambda>w. upd_rt r (schedule (Some h)) (register_root r h (upd_promise h (\<lambda>p. p\<lparr>pr_detached := True\<rparr>) w))"
  let ?j = "\<lparr>jh_rt = Some r, jh_scope = Some sc, jh_rx = \<lparr>r_state = Some a, r_scope = None\<rparr>\<rparr>"
  have sp: "spawn r t sc a w = (case sender_destroy (pr_sender (promise_of (?w2 w) h)) (w_channels (?w2 w)) of
      (ch, k) \<Rightarrow> Some (?j, ?w5 (?w3 ((?w2 w)\<lparr>w_channels := ch\<rparr>)), k))" if "task_valid t w" for w :: "('a, unit, 'b) world"
    using that by (simp add: t spawn_def make_oneshot_def sender_assign_def task_detach_def task_release_def Let_def
        split: prod.splits)
  have "?w1 (forget w) = forget (?w1 w)" by (simp add: forget_cancel)
  then have w2: "?w2 (forget w) = forget (?w2 w)"
    by (simp only: forget_new_channel) (rule forget_upd_promise, simp add: forget_promise_def)
  obtain ch k where d: "sender_destroy (pr_sender (promise_of (?w2 w) h)) (w_channels (?w2 w)) = (ch, k)"
    by fastforce
  then obtain ch' where d': "sender_destroy (pr_sender (promise_of (?w2 w) h)) (w_channels (forget (?w2 w))) = (ch', k)"
      "(forget (?w2 w))\<lparr>w_channels := ch'\<rparr> = forget ((?w2 w)\<lparr>w_channels := ch\<rparr>)"
    by (rule forget_sender_dies)
  have p: "pr_sender (promise_of (forget w') h) = pr_sender (promise_of w' h)" for w' :: "('a, unit, 'b) world"
    by simp
  have w3: "?w3 (forget w') = forget (?w3 w')" for w'
    by (rule forget_upd_promise) (simp add: forget_promise_def)
  have w4: "upd_promise h (\<lambda>p. p\<lparr>pr_detached := True\<rparr>) (forget w') = forget (upd_promise h (\<lambda>p. p\<lparr>pr_detached := True\<rparr>) w')"
    for w' :: "('a, unit, 'b) world"
    by (rule forget_upd_promise) (simp add: forget_promise_def)
  have v: "task_valid t (forget w)" using True by (simp only: forget_valid)
  show ?thesis
    unfolding sp [OF v] sp [OF True] w2 p d d' prod.case w3 w4 forget_register forget_schedule by simp
qed

lemma forget_join:
  assumes "resume_value c (w_channels w a) = Some x" and "join_body x = Some y"
  shows "\<exists>x'. resume_value c (w_channels (forget w) a) = Some x' \<and> join_body_void x' = y"
  using assms
  by (auto simp: resume_value_def join_body_def join_body_void_def read_outcome_def forget_channel_def
      forget_outcome_def split: if_splits sum.splits option.splits)

section \<open>Histories of calls\<close>

text \<open>
  The objects of a program, by name, and the calls of members it can make, of coroutines it can
  create, spawn, await, end and join. \<open>End h r\<close> is the end of the body of the coroutine at \<open>h\<close> with
  its final suspension; \<open>Join c a\<close> reads the outcome from the channel at \<open>a\<close> as \<^verbatim>\<open>join()\<close> does.
\<close>

datatype 'e member_call =
    Create nat handle | Move nat nat | Assign nat nat | Destroy nat | Release nat | Detach nat
  | Set_scope nat scope_ptr | Valid nat | Spawn nat nat nat nat
  | Transform handle nat | Await_ready nat | Await_suspend nat handle | Await_resume nat | Awaiter_destroy nat
  | End handle "('e, unit) ran" | Join bool nat

datatype 'e task_answer =
    Done | Is bool | Handle "handle option" | Spawned join_handle | Result "('e, unit) ran"
  | Joined "('e, error_code + unit) ran"

type_synonym ('e, 'cb) task_program = "(nat \<Rightarrow> task_obj) \<times> ('e, unit, 'cb) world"

type_synonym ('e, 'cb) call_result = "(('e, 'cb) task_program \<times> 'e task_answer \<times> wake list) option"

text \<open>With the members of \<^verbatim>\<open>task<T>\<close>.\<close>

fun task_call :: "'e member_call \<Rightarrow> ('e, 'cb) task_program \<Rightarrow> ('e, 'cb) call_result" where
  "task_call (Create v h) (ob, w) = (case get_return_object h w of (t, w') \<Rightarrow> Some ((ob(v := t), w'), Done, []))"
| "task_call (Move v u) (ob, w) = (case task_move (ob u) of (t, t') \<Rightarrow> Some ((ob(u := t', v := t), w), Done, []))"
| "task_call (Assign v u) (ob, w) =
     map_option (\<lambda>(t, t', w', k). ((ob(u := t', v := t), w'), Done, k)) (task_assign (v = u) (ob v) (ob u) w)"
| "task_call (Destroy v) (ob, w) = map_option (\<lambda>(w', k). ((ob(v := None), w'), Done, k)) (task_destroy (ob v) w)"
| "task_call (Release v) (ob, w) = (case task_release (ob v) of (h, t) \<Rightarrow> Some ((ob(v := t), w), Handle h, []))"
| "task_call (Detach v) (ob, w) = (case task_detach (ob v) w of (h, t, w') \<Rightarrow> Some ((ob(v := t), w'), Handle h, []))"
| "task_call (Set_scope v s) (ob, w) = map_option (\<lambda>w'. ((ob, w'), Done, [])) (task_set_owning_scope (ob v) s w)"
| "task_call (Valid v) (ob, w) = Some ((ob, w), Is (task_valid (ob v) w), [])"
| "task_call (Spawn r v sc a) (ob, w) =
     map_option (\<lambda>(j, w', k). ((ob(v := None), w'), Spawned j, k)) (spawn r (ob v) sc a w)"
| "task_call (Transform h v) (ob, w) =
     map_option (\<lambda>(t, w'). ((ob(v := t), w'), Done, [])) (await_transform_task h (ob v) w)"
| "task_call (Await_ready v) (ob, w) = Some ((ob, w), Is (task_await_ready (ob v) w), [])"
| "task_call (Await_suspend v caller) (ob, w) =
     map_option (\<lambda>(h, w'). ((ob, w'), Handle (Some h), [])) (task_await_suspend (ob v) caller w)"
| "task_call (Await_resume v) (ob, w) = map_option (\<lambda>r. ((ob, w), Result r, [])) (task_await_resume (ob v) w)"
| "task_call (Awaiter_destroy v) (ob, w) =
     map_option (\<lambda>(w', k). ((ob(v := None), w'), Done, k)) (task_awaiter_destroy (ob v) w)"
| "task_call (End h r) (ob, w) =
     map_option (\<lambda>(w', n, k). ((ob, w'), Handle n, k)) (final_suspend h (upd_promise h (end_body r) w))"
| "task_call (Join c a) (ob, w) =
     map_option (\<lambda>r. ((ob, w), Joined r, [])) (Option.bind (resume_value c (w_channels w a)) join_body)"

text \<open>With those of \<^verbatim>\<open>task<void>\<close>; \<^verbatim>\<open>_spawn\<close> is one template for both.\<close>

fun void_call :: "'e member_call \<Rightarrow> ('e, 'cb) task_program \<Rightarrow> ('e, 'cb) call_result" where
  "void_call (Create v h) (ob, w) = (case void_get_return_object h w of (t, w') \<Rightarrow> Some ((ob(v := t), w'), Done, []))"
| "void_call (Move v u) (ob, w) = (case void_move (ob u) of (t, t') \<Rightarrow> Some ((ob(u := t', v := t), w), Done, []))"
| "void_call (Assign v u) (ob, w) =
     map_option (\<lambda>(t, t', w', k). ((ob(u := t', v := t), w'), Done, k)) (void_assign (v = u) (ob v) (ob u) w)"
| "void_call (Destroy v) (ob, w) = map_option (\<lambda>(w', k). ((ob(v := None), w'), Done, k)) (void_destroy (ob v) w)"
| "void_call (Release v) (ob, w) = (case void_release (ob v) of (h, t) \<Rightarrow> Some ((ob(v := t), w), Handle h, []))"
| "void_call (Detach v) (ob, w) = (case void_detach (ob v) w of (h, t, w') \<Rightarrow> Some ((ob(v := t), w'), Handle h, []))"
| "void_call (Set_scope v s) (ob, w) = map_option (\<lambda>w'. ((ob, w'), Done, [])) (void_set_owning_scope (ob v) s w)"
| "void_call (Valid v) (ob, w) = Some ((ob, w), Is (void_valid (ob v) w), [])"
| "void_call (Spawn r v sc a) (ob, w) =
     map_option (\<lambda>(j, w', k). ((ob(v := None), w'), Spawned j, k)) (spawn r (ob v) sc a w)"
| "void_call (Transform h v) (ob, w) =
     map_option (\<lambda>(t, w'). ((ob(v := t), w'), Done, [])) (void_await_transform_task h (ob v) w)"
| "void_call (Await_ready v) (ob, w) = Some ((ob, w), Is (void_await_ready (ob v) w), [])"
| "void_call (Await_suspend v caller) (ob, w) =
     map_option (\<lambda>(h, w'). ((ob, w'), Handle (Some h), [])) (void_await_suspend (ob v) caller w)"
| "void_call (Await_resume v) (ob, w) = map_option (\<lambda>r. ((ob, w), Result r, [])) (task_await_resume_void (ob v) w)"
| "void_call (Awaiter_destroy v) (ob, w) =
     map_option (\<lambda>(w', k). ((ob(v := None), w'), Done, k)) (void_awaiter_destroy (ob v) w)"
| "void_call (End h r) (ob, w) =
     map_option (\<lambda>(w', n, k). ((ob, w'), Handle n, k)) (final_suspend_void h (upd_promise h (end_body_void r) w))"
| "void_call (Join c a) (ob, w) =
     map_option (\<lambda>r. ((ob, w), Joined r, [])) (map_option join_body_void (resume_value c (w_channels w a)))"

text \<open>The answers of the calls of a history, and the wake-ups.\<close>

fun run_calls ::
  "('c \<Rightarrow> 's \<Rightarrow> ('s \<times> 'a \<times> wake list) option) \<Rightarrow> 'c list \<Rightarrow> 's \<Rightarrow> ('s \<times> ('a \<times> wake list) list) option" where
  "run_calls step [] s = Some (s, [])"
| "run_calls step (c # cs) s =
     (case step c s of
        None \<Rightarrow> None
      | Some (s', a, k) \<Rightarrow> map_option (\<lambda>(s'', l). (s'', (a, k) # l)) (run_calls step cs s'))"

lemma void_call_simulates:
  assumes "task_call c (ob, w) = Some ((ob', w'), a, k)"
  shows "void_call c (ob, forget w) = Some ((ob', forget w'), a, k)"
proof (cases c)
  case (Create v h)
  with assms show ?thesis by (auto simp: forget_create split: prod.splits)
next
  case (Assign v u)
  with assms show ?thesis
    by (auto simp: void_members(4) task_assign_def forget_task_destroy option.map_comp comp_def case_prod_unfold
        split: if_splits)
next
  case (Detach v)
  have "upd_promise h (\<lambda>p. p\<lparr>pr_detached := True\<rparr>) (forget w) = forget (upd_promise h (\<lambda>p. p\<lparr>pr_detached := True\<rparr>) w)" for h
    by (rule forget_upd_promise) (simp add: forget_promise_def)
  with Detach assms show ?thesis
    by (auto simp: void_members(6) task_detach_def task_release_def split: prod.splits option.splits)
next
  case (Set_scope v s)
  have "upd_promise h (\<lambda>p. p\<lparr>pr_owning_scope := s\<rparr>) (forget w) = forget (upd_promise h (\<lambda>p. p\<lparr>pr_owning_scope := s\<rparr>) w)" for h
    by (rule forget_upd_promise) (simp add: forget_promise_def)
  with Set_scope assms show ?thesis
    by (auto simp: void_members(7) task_set_owning_scope_def split: option.splits)
next
  case (Transform h v)
  have "upd_promise h' (\<lambda>p. p\<lparr>pr_owning_scope := s\<rparr>) (forget w) = forget (upd_promise h' (\<lambda>p. p\<lparr>pr_owning_scope := s\<rparr>) w)" for h' s
    by (rule forget_upd_promise) (simp add: forget_promise_def)
  with Transform assms show ?thesis
    by (auto simp: void_members(9) await_transform_task_def task_set_owning_scope_def split: option.splits)
next
  case (Await_suspend v h)
  have "upd_promise h' (\<lambda>p. p\<lparr>pr_continuation := Some h\<rparr>) (forget w) = forget (upd_promise h' (\<lambda>p. p\<lparr>pr_continuation := Some h\<rparr>) w)" for h'
    by (rule forget_upd_promise) (simp add: forget_promise_def)
  with Await_suspend assms show ?thesis
    by (auto simp: void_members(13) task_await_suspend_def split: option.splits)
next
  case (Await_resume v)
  with assms show ?thesis
    by (auto simp: task_await_resume_def task_await_resume_void_def split: option.splits)
next
  case (End h r)
  with assms show ?thesis
    by (auto simp: forget_end forget_final_suspend option.map_comp comp_def case_prod_unfold)
next
  case (Join c a)
  with assms show ?thesis
    by (auto simp: bind_eq_Some_conv dest: forget_join)
qed (use assms in \<open>auto simp: void_members forget_task_destroy forget_valid forget_spawn task_awaiter_destroy_def
    task_await_ready_def option.map_comp comp_def case_prod_unfold split: prod.splits option.splits\<close>)

text \<open>
  C29. The class \<^verbatim>\<open>task<void>\<close> refines \<^verbatim>\<open>task<T>\<close> for a type with one value, over whole programs: take
  any history of calls on any task objects, of coroutines being created, moved, assigned, destroyed,
  released, detached, spawned, awaited, ended with a value or an exception, and joined, whose run
  with the members of \<^verbatim>\<open>task<T>\<close> is defined. Then the run with the members of \<^verbatim>\<open>task<void>\<close>, in the
  state without results, is defined, each call gives the same answer (the same coroutine to resume,
  the same value or exception, the same error) and the same wake-ups, and the state it leaves is
  the other without the results.
\<close>

theorem void_task_refines_task:
  assumes "run_calls task_call cs (ob, w) = Some ((ob', w'), l)"
  shows "run_calls void_call cs (ob, forget w) = Some ((ob', forget w'), l)"
  using assms
proof (induction cs arbitrary: ob w l)
  case (Cons c cs)
  then obtain ob1 w1 a k l1 where s: "task_call c (ob, w) = Some ((ob1, w1), a, k)"
      "run_calls task_call cs (ob1, w1) = Some ((ob', w'), l1)" "l = (a, k) # l1"
    by (auto split: option.splits prod.splits)
  from void_call_simulates [OF s(1)] Cons.IH [OF s(2)] s(3) show ?case by simp
qed simp

definition demo_calls :: "nat member_call list" where
  "demo_calls = [Create 0 5, Spawn 0 0 2 3, Create 1 6, Transform 5 1, Await_ready 1, Await_suspend 1 5,
     End 6 (Threw 8), Await_resume 1, Awaiter_destroy 1, End 5 (Gave ()), Join False 3]"

definition demo_unit_world :: "(nat, unit, nat) world" where
  "demo_unit_world = \<lparr>w_frames = (\<lambda>_. \<lparr>fr_promise = new_promise, fr_done = False, fr_alive = False\<rparr>),
     w_rts = (\<lambda>_. new_runtime), w_channels = (\<lambda>_. new_oneshot),
     w_cancel = \<lparr>guards = (\<lambda>_. new_guard None), scopes = (\<lambda>_. new_scope)\<rparr>\<rparr>"

theorem void_task_refines_task_witness:
  "map_option (\<lambda>((ob, w), l). (map fst l, rt_queue (w_rts w 0), rt_live (w_rts w 0)))
     (run_calls void_call demo_calls (\<lambda>_. None, forget demo_unit_world)) =
   Some ([Done, Spawned \<lparr>jh_rt = Some 0, jh_scope = Some 2, jh_rx = \<lparr>r_state = Some 3, r_scope = None\<rparr>\<rparr>, Done, Done,
     Is False, Handle (Some 6), Handle (Some 5), Result (Threw 8), Done, Handle None, Joined (Gave (Inr ()))], [5], 0)"
proof -
  have d: "map_option (\<lambda>((ob, w), l). (map fst l, rt_queue (w_rts w 0), rt_live (w_rts w 0)))
      (run_calls task_call demo_calls (\<lambda>_. None, demo_unit_world)) =
    Some ([Done, Spawned \<lparr>jh_rt = Some 0, jh_scope = Some 2, jh_rx = \<lparr>r_state = Some 3, r_scope = None\<rparr>\<rparr>, Done, Done,
      Is False, Handle (Some 6), Handle (Some 5), Result (Threw 8), Done, Handle None, Joined (Gave (Inr ()))], [5], 0)"
    by code_simp
  then obtain ob w l where r: "run_calls task_call demo_calls (\<lambda>_. None, demo_unit_world) = Some ((ob, w), l)"
    by auto
  show ?thesis
    using d unfolding void_task_refines_task [OF r] r by simp
qed

end
