(* ===== verification/Spec2Isabelle.thy ===== *)
theory Spec2Isabelle
  imports Acquire Cancel_That Destructor Echo_Server File System_Join System_Shutdown Void_Task
begin

text \<open>
  A verification development for coasio, a C++23 library of coroutines on Asio.

  \<^bold>\<open>The program.\<close> A \<^verbatim>\<open>runtime\<close> owns a run queue of coroutine handles, the worker threads that
  resume them, the threads that run \<^verbatim>\<open>asio::io_context\<close>, the list of live root tasks, and a pool of
  threads for blocking functions. A \<^verbatim>\<open>task\<close> is a coroutine; it is spawned as a root of a runtime or
  awaited by another task, and hands the \<^verbatim>\<open>cancel_scope\<close> it runs under down to what it awaits. Leaf
  awaitables (the receiver of a oneshot channel, an acquirer of a semaphore, a blocking function,
  an operation of Asio, a sleep, an accept) bind a guard to that scope, arm it with a callback when
  they suspend, and disarm it when they resume; cancelling the scope runs the callbacks of the armed
  guards. Whoever resolves an awaitable pushes the handle of the suspended coroutine on the run
  queue of its runtime.

  \<^bold>\<open>How it is modelled.\<close> Objects shared by pointer live in stores (functions from addresses), objects
  are records with the members of their classes, a null pointer is \<^term>\<open>None\<close>. Operations are
  functions on these, in the order and with the conditions of the source; calls of
  \<^verbatim>\<open>runtime_schedule\<close> are returned as a list, in their order. What a mutex protects is one atomic step.
  Where threads act between the critical sections of one member function, the parts are definitions
  of their own (\<open>suspend_arm\<close> and \<open>suspend_enrol\<close>, \<open>acquire_arm\<close>, \<open>acquire_enqueue\<close> and
  \<open>acquire_recheck\<close>, \<open>blocking_arm\<close> to \<open>blocking_recheck\<close>, \<open>async_arm\<close> and \<open>async_initiate\<close>, \<open>sleep_arm\<close> and
  \<open>sleep_initiate\<close>, the three parts of \<^verbatim>\<open>release\<close>), and the function
  is their composition. Undefined behaviour, a failed assertion, the end of the program and a loop
  that does not end are the result \<^term>\<open>None\<close>; the theorems state that the result is not that one.

  \<^bold>\<open>Theories\<close> (under \<^verbatim>\<open>include/coasio\<close> where no other place is named).
  \<^item> \<open>Coasio_Prelude\<close>: the types of pointers and wake-ups, the 64-bit casts, lists and counts.
    \<open>Coasio_Error\<close>: \<^verbatim>\<open>error.hpp\<close>.
  \<^item> \<open>Intrusive_List\<close>: the predicate that ties linked objects to a list, and the interface
    \<open>intrusive_list\<close>, interpreted by the guards of a scope, the waiters of a semaphore and the roots
    of a runtime.
  \<^item> \<open>Wake_Once\<close>: the interface \<open>wake_once\<close> of what a coroutine can be suspended on, with the theorem that
    over any history a coroutine is woken exactly once for each suspension; interpreted by the channel,
    the semaphore and the blocking functions.
  \<^item> \<open>Work_Queue\<close>: the interfaces \<open>fifo_queue\<close> and \<open>work_queue\<close>, interpreted by the run queue and by the
    queue of the pool. \<open>Threads\<close>: condition variables, and the interface \<open>joining\<close> with the argument that
    a destructor that joins its threads returns: steps of its own are counted, those beside it are not, and no
    wake-up but its notification is relied on; interpreted by the pool and by all threads of a runtime together.
  \<^item> \<open>Cancel_Scope\<close>, \<open>Await_Cancel\<close>: \<^verbatim>\<open>cancel_scope.hpp\<close>, and what one awaiter sees of its scope.
  \<^item> \<open>Oneshot\<close>: \<^verbatim>\<open>sync/oneshot.hpp\<close>. \<open>Semaphore\<close>, \<open>Semaphore_Laws\<close>, \<open>Acquire\<close>: \<^verbatim>\<open>sync/semaphore.hpp\<close> (the shared
    state, what it promises, permits and awaiters) and \<^verbatim>\<open>sync/mutex.hpp\<close>.
  \<^item> \<open>Pool\<close>: \<^verbatim>\<open>detail/blocking/pool.hpp\<close>. \<open>Root_Outcome\<close>, \<open>Spawn_Blocking\<close>: \<^verbatim>\<open>detail/root_outcome.hpp\<close> and
    \<^verbatim>\<open>detail/blocking/spawn_blocking.hpp\<close>. \<open>Blocking_Await\<close>: one await of a blocking function, its steps
    interleaved with those of everybody else. \<open>Blocking_Task\<close>: the coroutines that wrap one blocking function.
  \<^item> \<open>Roots\<close>, \<open>Task\<close>, \<open>Runtime\<close>: the frames, the run queue and the list of roots (\<^verbatim>\<open>detail/root_node.hpp\<close>,
    \<^verbatim>\<open>runtime.hpp\<close>), the promise, the task object and its awaiter (\<^verbatim>\<open>task.hpp\<close>), spawning, joining,
    \<^verbatim>\<open>block_on\<close>, the builder, the destructor (\<^verbatim>\<open>runtime.hpp\<close>, \<^verbatim>\<open>src/runtime.cpp\<close>), and the free functions of
    \<^verbatim>\<open>include/coasio.hpp\<close>. \<open>Void_Task\<close>: the class \<^verbatim>\<open>task<void>\<close>.
    \<open>Runtime_Laws\<close>: what they promise. \<open>Workers\<close>: the worker threads. \<open>Destructor\<close>: the
    threads that run \<^verbatim>\<open>asio::io_context\<close>, and \<^verbatim>\<open>~runtime\<close> from the setting of the stop flag on. \<open>Block_On\<close>:
    \<^verbatim>\<open>block_on\<close> from its call to its return. \<open>Abort\<close>: \<^verbatim>\<open>JoinHandle::abort\<close> down to the innermost wait of a task.
  \<^item> \<open>Async_Op\<close>: \<^verbatim>\<open>detail/async_op.hpp\<close> and \<^verbatim>\<open>sleep\<close> of \<^verbatim>\<open>time.hpp\<close>; \<open>Timer\<close>: its \<^verbatim>\<open>timer\<close>. \<open>Filesystem\<close>, \<open>File\<close>: \<^verbatim>\<open>filesystem.hpp\<close> and
    \<^verbatim>\<open>filesystem/file.hpp\<close>. \<open>Net_Helper\<close>, \<open>Tcp\<close>: \<^verbatim>\<open>net/helper.hpp\<close>; listeners, sockets and the resolver
    (\<^verbatim>\<open>net/tcp\<close>, \<^verbatim>\<open>net/base_resolver.hpp\<close>). \<open>Endpoint\<close>: \<^verbatim>\<open>net/tcp/ip_address.hpp\<close> and \<^verbatim>\<open>net/base_endpoint.hpp\<close>.
  \<^item> \<open>System\<close>: the parts together, as a step relation: a runtime with any number of coroutines that call
    and spawn each other and wait on channels, their scopes and guards, and any number of threads; a step
    composes the definitions above and is \<^term>\<open>None\<close> where one of them is undefined or a handle that is not
    suspended is resumed. \<open>System_Inv\<close>: its invariant. \<open>System_Parts\<close>, \<open>System_Tasks\<close>, \<open>System_Waits\<close>,
    \<open>System_Safe\<close>: every step has a result and keeps the invariant. \<open>System_Calls\<close>: the forest of calls and the scope
    of each tree. \<open>System_Laws\<close>: what follows for every reachable state. \<open>System_Cancel\<close>: the exact effect of
    cancelling a scope. \<open>System_Ends\<close>: who holds the two ends of each channel, an invariant of its own.
    \<open>System_Join\<close>: joins, and what coroutines that wait for each other can come to. \<open>System_Shutdown\<close>: the walk of the destructor along its roots.
  \<^item> \<open>Echo_Metrics\<close>, \<open>Echo_Server\<close>: the programs \<^verbatim>\<open>examples/echo_server.cpp\<close> and \<^verbatim>\<open>examples/echo_client.cpp\<close>;
    \<open>Cancel_That\<close>: \<^verbatim>\<open>examples/cancel_that.cpp\<close>.

  \<^bold>\<open>What is shown.\<close>
  \<^item> The parts together, for programs whose coroutines wait for tasks and channels and which keep the rules of
    ownership of \<open>sys_guard\<close> (a null, moved-from or awaited receiver and an empty task are not awaited; the types do not
    forbid it, and it is undefined): in every reachable state every step is defined, so there is no
    undefined behaviour; no wake-up is lost or doubled; the counter of live roots is zero exactly when no
    coroutine is between its start and its end; and a coroutine whose scope is cancelled can always go on.
    Cancelling a scope ends exactly the waits under it and touches nothing else; a join gets the
    outcome of the task it joins, before or after the task has ended; whoever waits on a channel waits for a sender
    that exists, so only a cycle of joins, or the program that keeps a sender, can make coroutines wait for ever; the
    destructor's walk along the live roots ends every wait for a task or a channel. None of this is said of the
    waits for semaphores, for Asio and for blocking functions, of which some can outlast a cancellation (see the corners).
  \<^item> Cancellation: \<^verbatim>\<open>cancel()\<close> returns, runs each armed callback once and empties the scope; along every
    history a guard is fired or disarmed at most once; a cancelled scope stays cancelled.
  \<^item> Every awaitable: the result that reaches the coroutine, on each branch; that it is scheduled exactly
    once; and what a cancellation does between \<^verbatim>\<open>await_ready\<close> and \<^verbatim>\<open>await_resume\<close>: for channels and blocking
    functions at every point, where the blocking functions have a window in which a result is reported as cancelled; for
    acquirers, operations of Asio and sleeps at every point but one, which the corners treat.
  \<^item> Semaphore: \<^verbatim>\<open>release\<close> refines an abstract grant for all outcomes of its compare-and-swap attempts;
    permits are conserved; nobody overtakes the queue; no wake-up is lost between the counter, which is
    changed without the lock, and the queue; a mutex excludes. Histories in which a cancellation comes between the arming
    of a guard and the linking of its waiter are left out: there the code fails, as the corners show.
  \<^item> Threads: the pool and the workers never leave work queued while all of them sleep, execute every
    item once and in order; the destructors of the pool and, past its drain wait, of the runtime return, all threads
    joined. Nothing relies on a wake-up that no notification has made.
  \<^item> Tasks: awaiting, spawning, joining and blocking on a task give its value or exception, destroy every
    frame once and leave the list and the counter of live roots exact; aborting a task ends the innermost
    wait of the tasks it awaits, at any depth; \<^verbatim>\<open>task<void>\<close> refines \<^verbatim>\<open>task<T>\<close> over every history of calls; the destructor of a runtime cancels
    every root and stops the workers only when none is left.
  \<^item> Files and sockets: what is asked of the operating system, in which order, and what is returned;
    opening options survive their encoding; what sleeping gives; the texts that \<^verbatim>\<open>parse_host_port\<close> and \<^verbatim>\<open>connect_to\<close> take.
  \<^item> The echo server: each client gets back the bytes it has sent, the shared counters are exact, and the
    reported percentiles are those of the last 60 speeds, in spite of the rounding of the double product.
  The last sections of the theories, called corners, prove behaviours that the code has against its
  apparent intent.

  \<^bold>\<open>Bounds and loops.\<close> Permits are integers, with the wrap-around of \<^verbatim>\<open>ptrdiff_t\<close> written out; theorems
  that need it assume that the sum does not overflow. The counter of roots is a \<^verbatim>\<open>size_t\<close>, with fewer
  than \<open>2 ^ 64\<close> roots assumed. The loops over linked lists and of compare-and-swap are partial functions
  and are proved to return. A compare-and-swap loop gets the outcomes of its attempts as a list; once
  the list is exhausted the attempts succeed, and the theorems hold for every list. Ports are 16-bit words,
  flags and sizes of files words of their width. The number of bits of \<^verbatim>\<open>unsigned long\<close> is an argument,
  at least 16.

  \<^bold>\<open>Parameters.\<close> Asio, \<^verbatim>\<open>std::filesystem\<close> and the operating system: the state of an operation and of its
  cancellation signal, what initiating and emitting do to it, what synchronous calls do to the state of the
  system, the addresses and endpoints of Asio (\<open>asio_addresses\<close>), the numbers of Asio's flags (assumed to be disjoint and not zero) and of \<^verbatim>\<open>std::errc\<close>. The body of
  a coroutine and a blocking function are what they return or throw. Completion handlers are events. The
  \<^verbatim>\<open>io_context\<close> of a runtime is its handlers and whether it has work (\<open>io_api\<close>); that its destructor returns
  rests on the operations in flight being finitely many and completing (\<open>io_finite\<close>).

  \<^bold>\<open>Not modelled.\<close> The memory model: atomics are sequentially consistent. Lifetimes of C++ objects other than
  coroutine frames, senders, receivers, permits, guards and acceptors; allocation failure. In \<open>System\<close> a coroutine
  waits for tasks and channels only; the other awaitables have theorems of their own. \<^verbatim>\<open>base_endpoint::address\<close>,
  \<^verbatim>\<open>timer::wait\<close> and \<^verbatim>\<open>socket::read\<close>, which do not compile when they are used, and printing. The example \<^verbatim>\<open>smoke_test\<close> and the tests, which exercise what is shown here.
\<close>

end
